(* ===== verification/Prelude.thy ===== *)
theory Prelude
  imports Main "HOL-Library.Word" "HOL-Library.Multiset" "HOL-Library.Monad_Syntax"
begin

text \<open>
  What every component of the development shares: the machine integer types, the
  network byte order helpers of \<^verbatim>\<open>utils/utils/byteorder.h\<close>, the
  view of memory objects as lists of cells with bounds-checked loads and stores, and the
  lemmas on lists and words the component theories rest on.
\<close>

unbundle bit_operations_syntax

type_synonym u8 = "8 word"
type_synonym u16 = "16 word"
type_synonym u32 = "32 word"
type_synonym u64 = "64 word"

text \<open>The bytes of a chunk, an address or a buffer.\<close>

type_synonym bytes = "u8 list"

text \<open>
  Fact collections: lengths of encodings, and the equations that turn a component's
  operation into an operation on the list it stores.
\<close>

named_theorems length_simps "lengths of encodings and buffers"
named_theorems view_simps "operations seen through the abstraction function"


section \<open>Network byte order\<close>

text \<open>
  \<^verbatim>\<open>htounNN(network, host)\<close> stores a host order value as its big-endian bytes,
  \<^verbatim>\<open>untohNN(network)\<close> reads it back. The pair \<^verbatim>\<open>htons\<close>/\<^verbatim>\<open>memcpy\<close>
  of the source stores the most significant byte first on every host, which is what the
  definitions say.
\<close>

definition htoun16 :: "u16 \<Rightarrow> bytes" where
  "htoun16 host = [ucast (drop_bit 8 host), ucast host]"

definition htoun32 :: "u32 \<Rightarrow> bytes" where
  "htoun32 host = [ucast (drop_bit 24 host), ucast (drop_bit 16 host),
                   ucast (drop_bit 8 host), ucast host]"

definition htoun64 :: "u64 \<Rightarrow> bytes" where
  "htoun64 host = [ucast (drop_bit 56 host), ucast (drop_bit 48 host),
                   ucast (drop_bit 40 host), ucast (drop_bit 32 host),
                   ucast (drop_bit 24 host), ucast (drop_bit 16 host),
                   ucast (drop_bit 8 host), ucast host]"

definition untoh16 :: "bytes \<Rightarrow> u16" where
  "untoh16 network = push_bit 8 (ucast (network ! 0)) OR ucast (network ! 1)"

definition untoh32 :: "bytes \<Rightarrow> u32" where
  "untoh32 network =
     push_bit 24 (ucast (network ! 0)) OR push_bit 16 (ucast (network ! 1)) OR
     push_bit 8 (ucast (network ! 2)) OR ucast (network ! 3)"

definition untoh64 :: "bytes \<Rightarrow> u64" where
  "untoh64 network =
     push_bit 56 (ucast (network ! 0)) OR push_bit 48 (ucast (network ! 1)) OR
     push_bit 40 (ucast (network ! 2)) OR push_bit 32 (ucast (network ! 3)) OR
     push_bit 24 (ucast (network ! 4)) OR push_bit 16 (ucast (network ! 5)) OR
     push_bit 8 (ucast (network ! 6)) OR ucast (network ! 7)"

lemma length_htoun [simp, length_simps]:
  "length (htoun16 v) = 2" "length (htoun32 w) = 4" "length (htoun64 x) = 8"
  by (simp_all add: htoun16_def htoun32_def htoun64_def)

lemma untoh16_htoun16 [simp]: "untoh16 (htoun16 v) = v"
  by (rule bit_word_eqI) (auto simp: untoh16_def htoun16_def bit_simps)

lemma untoh32_htoun32 [simp]: "untoh32 (htoun32 v) = v"
proof (rule bit_word_eqI)
  fix n assume "n < LENGTH(32)"
  then consider "n < 8" | "8 \<le> n" "n < 16" | "16 \<le> n" "n < 24" | "24 \<le> n" "n < 32"
    by fastforce
  then show "bit (untoh32 (htoun32 v)) n = bit v n"
    by cases (simp_all add: untoh32_def htoun32_def bit_simps less_diff_conv2)
qed

lemma untoh64_htoun64 [simp]: "untoh64 (htoun64 v) = v"
proof (rule bit_word_eqI)
  fix n assume "n < LENGTH(64)"
  then consider "n < 8" | "8 \<le> n" "n < 16" | "16 \<le> n" "n < 24" | "24 \<le> n" "n < 32"
    | "32 \<le> n" "n < 40" | "40 \<le> n" "n < 48" | "48 \<le> n" "n < 56" | "56 \<le> n" "n < 64"
    by fastforce
  then show "bit (untoh64 (htoun64 v)) n = bit v n"
    by cases (simp_all add: untoh64_def htoun64_def bit_simps less_diff_conv2)
qed

lemma bit_u8_beyond [simp]: "8 \<le> n \<Longrightarrow> \<not> bit (b :: u8) n"
  using bit_imp_le_length [of b n] by auto

lemma word_and_bit_ne_0: "(w :: 'a :: len word) AND 2 ^ n \<noteq> 0 \<longleftrightarrow> bit w n"
proof -
  have "w AND push_bit n 1 = (if bit w n then push_bit n 1 else 0)"
    by (rule bit_word_eqI) (auto simp: bit_simps)
  moreover have "bit w n \<Longrightarrow> bit (push_bit n 1 :: 'a word) n"
    by (auto simp: bit_simps dest: bit_imp_le_length)
  then have "bit w n \<Longrightarrow> (push_bit n 1 :: 'a word) \<noteq> 0"
    by (metis bit_0_eq bot_apply bot_bool_def)
  ultimately show ?thesis by (simp add: push_bit_eq_mult)
qed

lemma htoun32_untoh32:
  assumes "length bs = 4"
  shows "htoun32 (untoh32 bs) = bs"
proof -
  obtain a b c d where bs: "bs = [a, b, c, d]"
    using assms by (auto simp: numeral_eq_Suc length_Suc_conv)
  show ?thesis
    unfolding bs htoun32_def untoh32_def
    by (simp, intro conjI bit_word_eqI) (simp_all add: bit_simps)
qed


section \<open>Combining bytes\<close>

definition xor_bytes :: "bytes \<Rightarrow> bytes \<Rightarrow> bytes" where
  "xor_bytes a b = map2 (XOR) a b"

lemma length_xor_bytes [simp, length_simps]: "length (xor_bytes a b) = min (length a) (length b)"
  by (simp add: xor_bytes_def)

lemma xor_bytes_cancel:
  "length a = length b \<Longrightarrow> xor_bytes (xor_bytes a b) b = a"
  by (induction a b rule: list_induct2) (simp_all add: xor_bytes_def xor.assoc)

lemma xor_bytes_append:
  "length a = length c \<Longrightarrow> xor_bytes (a @ b) (c @ d) = xor_bytes a c @ xor_bytes b d"
  by (simp add: xor_bytes_def)


section \<open>Memory objects\<close>

text \<open>
  An allocated object is the list of its cells. A load or a store that leaves the object is
  undefined behaviour in C, here \<open>None\<close>. \<^verbatim>\<open>memcpy\<close> is a load followed by a
  store, \<^verbatim>\<open>memmove\<close> the same on one object.
\<close>

definition load :: "'c list \<Rightarrow> nat \<Rightarrow> nat \<Rightarrow> 'c list option" where
  "load m p n = (if p + n \<le> length m then Some (take n (drop p m)) else None)"

definition store :: "'c list \<Rightarrow> nat \<Rightarrow> 'c list \<Rightarrow> 'c list option" where
  "store m p cs =
     (if p + length cs \<le> length m then Some (take p m @ cs @ drop (p + length cs) m) else None)"

definition memmove :: "'c list \<Rightarrow> nat \<Rightarrow> nat \<Rightarrow> nat \<Rightarrow> 'c list option" where
  "memmove m dst src n = Option.bind (load m src n) (store m dst)"

lemma load_within [simp]: "p + n \<le> length m \<Longrightarrow> load m p n = Some (take n (drop p m))"
  by (simp add: load_def)

lemma store_within [simp]:
  "p + length cs \<le> length m \<Longrightarrow> store m p cs = Some (take p m @ cs @ drop (p + length cs) m)"
  by (simp add: store_def)

lemma length_store: "store m p cs = Some m' \<Longrightarrow> length m' = length m"
  by (auto simp: store_def split: if_splits)

lemma memmove_within [simp]:
  "src + n \<le> length m \<Longrightarrow> dst + n \<le> length m \<Longrightarrow>
   memmove m dst src n = Some (take dst m @ take n (drop src m) @ drop (dst + n) m)"
  by (simp add: memmove_def)

end
