(* ===== verification/Memory.thy ===== *)
theory Memory
  imports Prelude
begin

text \<open>
  The memory helpers of \<^verbatim>\<open>utils/utils/memory.c\<close> and \<^verbatim>\<open>memory.h\<close> and
  the alignment helpers of \<^verbatim>\<open>utils/utils/align.h\<close>. The addresses of the operands,
  on which \<open>memxor\<close> and \<open>memwipe\<close> choose their strides, are arguments;
  \<^verbatim>\<open>sizeof(long)\<close> is 8, as on the LP64 platforms.
\<close>

section \<open>Definitions\<close>

definition pad_len :: "nat \<Rightarrow> nat \<Rightarrow> nat" where
  "pad_len sz alignment =
     (let remainder = sz mod alignment in if remainder \<noteq> 0 then alignment - remainder else 0)"

definition round_up :: "nat \<Rightarrow> nat \<Rightarrow> nat" where
  "round_up sz alignment = sz + pad_len sz alignment"

definition round_down :: "nat \<Rightarrow> nat \<Rightarrow> nat" where
  "round_down sz alignment = sz - sz mod alignment"

text \<open>\<open>*(T*)&dst[i] ^= *(T*)&src[i]\<close> for a type of \<open>w\<close> bytes.\<close>

definition xor_cells :: "nat \<Rightarrow> bytes \<Rightarrow> bytes \<Rightarrow> nat \<Rightarrow> bytes option" where
  "xor_cells w dst src i = do {
     a \<leftarrow> load dst i w;
     b \<leftarrow> load src i w;
     store dst i (map2 (XOR) a b)
   }"

text \<open>
  The loops of \<open>memxor\<close>. The counters are \<^verbatim>\<open>int\<close>, so that \<open>m\<close> is
  negative for fewer than \<open>w\<close> bytes.
\<close>

function xor_until_aligned :: "nat \<Rightarrow> bytes \<Rightarrow> bytes \<Rightarrow> nat \<Rightarrow> nat \<Rightarrow> (bytes \<times> nat) option" where
  "xor_until_aligned da dst src n i =
     (if (da + i) mod 8 \<noteq> 0 \<and> i < n
      then do { dst \<leftarrow> xor_cells 1 dst src i; xor_until_aligned da dst src n (i + 1) }
      else Some (dst, i))"
  by pat_completeness auto
termination by (relation "measure (\<lambda>(da, dst, src, n, i). n - i)") auto

function xor_words :: "nat \<Rightarrow> bytes \<Rightarrow> bytes \<Rightarrow> int \<Rightarrow> nat \<Rightarrow> (bytes \<times> nat) option" where
  "xor_words w dst src m i =
     (if w = 0 then None
      else if int i \<le> m
      then do { dst \<leftarrow> xor_cells w dst src i; xor_words w dst src m (i + w) }
      else Some (dst, i))"
  by pat_completeness auto
termination by (relation "measure (\<lambda>(w, dst, src, m, i). nat (m + 1 - int i))") auto

declare xor_until_aligned.simps [simp del] xor_words.simps [simp del]

definition memxor :: "nat \<Rightarrow> nat \<Rightarrow> bytes \<Rightarrow> bytes \<Rightarrow> nat \<Rightarrow> bytes option" where
  "memxor da sa dst src n = do {
     (dst, i) \<leftarrow> xor_until_aligned da dst src n 0;
     (dst, i) \<leftarrow>
       (let r = (sa + i) mod 8
        in if r = 0 then xor_words 8 dst src (int n - 8) i
           else if r = 4 then xor_words 4 dst src (int n - 4) i
           else if r = 2 then xor_words 2 dst src (int n - 2) i
           else Some (dst, i));
     (dst, i) \<leftarrow> xor_words 1 dst src (int n - 1) i;
     Some dst
   }"

text \<open>\<open>bad |= a[i] != b[i]\<close> over all bytes, whatever the result so far.\<close>

fun memeq_loop :: "bytes \<Rightarrow> bytes \<Rightarrow> nat \<Rightarrow> nat \<Rightarrow> u32 \<Rightarrow> u32" where
  "memeq_loop a b 0 i bad = bad"
| "memeq_loop a b (Suc k) i bad =
     memeq_loop a b k (Suc i) (bad OR (if a ! i \<noteq> b ! i then 1 else 0))"

definition memeq_const :: "bytes \<Rightarrow> bytes \<Rightarrow> nat \<Rightarrow> bool option" where
  "memeq_const a b len =
     (if len \<le> length a \<and> len \<le> length b then Some (memeq_loop a b len 0 0 = 0) else None)"

function wipe_until_aligned :: "nat \<Rightarrow> bytes \<Rightarrow> nat \<Rightarrow> nat \<Rightarrow> (bytes \<times> nat) option" where
  "wipe_until_aligned addr c n i =
     (if (addr + i) mod 8 \<noteq> 0 \<and> i < n
      then do { c \<leftarrow> store c i [0]; wipe_until_aligned addr c n (i + 1) }
      else Some (c, i))"
  by pat_completeness auto
termination by (relation "measure (\<lambda>(addr, c, n, i). n - i)") auto

function wipe_words :: "nat \<Rightarrow> bytes \<Rightarrow> nat \<Rightarrow> nat \<Rightarrow> (bytes \<times> nat) option" where
  "wipe_words w c n i =
     (if w = 0 then None
      else if w \<le> n \<and> i \<le> n - w
      then do { c \<leftarrow> store c i (replicate w 0); wipe_words w c n (i + w) }
      else Some (c, i))"
  by pat_completeness auto
termination by (relation "measure (\<lambda>(w, c, n, i). Suc n - i)") auto

declare wipe_until_aligned.simps [simp del] wipe_words.simps [simp del]

definition memwipe_inline :: "nat \<Rightarrow> bytes \<Rightarrow> nat \<Rightarrow> bytes option" where
  "memwipe_inline addr c n = do {
     (c, i) \<leftarrow> wipe_until_aligned addr c n 0;
     (c, i) \<leftarrow> wipe_words 8 c n i;
     (c, i) \<leftarrow> wipe_words 1 c n i;
     Some c
   }"

text \<open>
  The result of a search is an offset into the searched memory. Null pointers are not
  modelled; a needle is a C string without its terminator.
\<close>

function memstr_loop :: "bytes \<Rightarrow> bytes \<Rightarrow> nat \<Rightarrow> nat \<Rightarrow> nat option" where
  "memstr_loop haystack needle pos n =
     (if n < length needle \<or> n = 0 then None
      else if take (length needle) (drop pos haystack) = needle then Some pos
      else memstr_loop haystack needle (pos + 1) (n - 1))"
  by pat_completeness auto
termination by (relation "measure (\<lambda>(haystack, needle, pos, n). n)") auto

declare memstr_loop.simps [simp del]

definition memstr :: "bytes \<Rightarrow> bytes \<Rightarrow> nat option" where
  "memstr haystack needle =
     (if needle = [] then None else memstr_loop haystack needle 0 (length haystack))"

fun memrchr_loop :: "bytes \<Rightarrow> u8 \<Rightarrow> nat \<Rightarrow> nat option" where
  "memrchr_loop s c 0 = None"
| "memrchr_loop s c (Suc k) = (if s ! k = c then Some k else memrchr_loop s c k)"

definition utils_memrchr :: "bytes \<Rightarrow> u8 \<Rightarrow> nat \<Rightarrow> nat option" where
  "utils_memrchr s c n = (if n = 0 then None else memrchr_loop s c n)"


section \<open>Properties\<close>

text \<open>Memory whose first \<open>i\<close> bytes are already combined.\<close>

definition xored :: "bytes \<Rightarrow> bytes \<Rightarrow> nat \<Rightarrow> bytes" where
  "xored dst src i = map2 (XOR) (take i dst) (take i src) @ drop i dst"

lemma length_xored: "i \<le> length dst \<Longrightarrow> i \<le> length src \<Longrightarrow> length (xored dst src i) = length dst"
  by (simp add: xored_def)

lemma xored_0 [simp]: "xored dst src 0 = dst"
  by (simp add: xored_def)

lemma xor_cells_xored:
  assumes "i + w \<le> length dst" "i + w \<le> length src"
  shows "xor_cells w (xored dst src i) src i = Some (xored dst src (i + w))"
proof -
  let ?v = "map2 (XOR) (take w (drop i dst)) (take w (drop i src))"
  have v: "length ?v = w" using assms by simp
  have x: "length (xored dst src i) = length dst" using assms by (simp add: length_xored)
  have parts: "drop i (xored dst src i) = drop i dst"
    "take i (xored dst src i) = map2 (XOR) (take i dst) (take i src)"
    using assms by (simp_all add: xored_def)
  then have "drop (i + w) (xored dst src i) = drop (i + w) dst"
    by (metis add.commute drop_drop)
  then have "xor_cells w (xored dst src i) src i =
      Some (map2 (XOR) (take i dst) (take i src) @ ?v @ drop (i + w) dst)"
    using assms v x parts by (simp add: xor_cells_def)
  moreover have "map2 (XOR) (take i dst) (take i src) @ ?v =
      map2 (XOR) (take (i + w) dst) (take (i + w) src)"
    using assms by (simp add: take_add)
  ultimately show ?thesis by (metis append.assoc xored_def)
qed

lemma xor_until_aligned_xored:
  assumes "n \<le> length dst" "n \<le> length src" "i \<le> n"
  shows "\<exists>j \<le> n. xor_until_aligned da (xored dst src i) src n i = Some (xored dst src j, j)"
  using assms(3)
proof (induction "n - i" arbitrary: i)
  case 0
  then show ?case by (subst xor_until_aligned.simps) auto
next
  case (Suc k)
  show ?case
  proof (cases "(da + i) mod 8 \<noteq> 0 \<and> i < n")
    case True
    with Suc(1) [of "Suc i"] Suc(2) assms xor_cells_xored [of i 1 dst src] show ?thesis
      by (subst xor_until_aligned.simps) auto
  next
    case False
    then show ?thesis using Suc.prems by (subst xor_until_aligned.simps) auto
  qed
qed

lemma xor_words_xored:
  assumes "n \<le> length dst" "n \<le> length src" "i \<le> n" "0 < w"
  shows "\<exists>j \<le> n. n < j + w \<and> xor_words w (xored dst src i) src (int n - int w) i = Some (xored dst src j, j)"
  using assms(3)
proof (induction "n - i" arbitrary: i rule: less_induct)
  case less
  show ?case
  proof (cases "i + w \<le> n")
    case True
    with less(1) [of "i + w"] assms xor_cells_xored [of i w dst src] show ?thesis
      by (subst xor_words.simps) auto
  next
    case False
    then show ?thesis using less.prems assms(4) by (subst xor_words.simps) auto
  qed
qed



lemma memeq_loop_eq:
  "i + k \<le> length a \<Longrightarrow> i + k \<le> length b \<Longrightarrow>
   memeq_loop a b k i bad = 0 \<longleftrightarrow> bad = 0 \<and> take k (drop i a) = take k (drop i b)"
proof (induction k arbitrary: i bad)
  case (Suc k)
  then have "take (Suc k) (drop i a) = a ! i # take k (drop (Suc i) a)"
    "take (Suc k) (drop i b) = b ! i # take k (drop (Suc i) b)"
    by (auto simp: Cons_nth_drop_Suc [symmetric])
  moreover have "(bad OR 1) \<noteq> 0"
  proof
    assume "bad OR 1 = 0"
    then have "bit (bad OR 1) 0 = bit (0 :: u32) 0" by simp
    then show False by (simp add: bit_simps)
  qed
  ultimately show ?case using Suc.IH [of "Suc i"] Suc.prems by simp
qed simp

lemma memeq_const_eq:
  "len \<le> length a \<Longrightarrow> len \<le> length b \<Longrightarrow>
   memeq_const a b len = Some (take len a = take len b)"
  using memeq_loop_eq [of 0 len a b 0] by (simp add: memeq_const_def)

definition wiped :: "bytes \<Rightarrow> nat \<Rightarrow> bytes" where
  "wiped c i = replicate i 0 @ drop i c"

lemma store_wiped:
  assumes "i + w \<le> length c"
  shows "store (wiped c i) i (replicate w 0) = Some (wiped c (i + w))"
  using assms by (simp add: wiped_def replicate_add add.commute)

lemma wipe_until_aligned_wiped:
  assumes "n \<le> length c" "i \<le> n"
  shows "\<exists>j \<le> n. wipe_until_aligned addr (wiped c i) n i = Some (wiped c j, j)"
  using assms(2)
proof (induction "n - i" arbitrary: i)
  case 0
  then show ?case by (subst wipe_until_aligned.simps) auto
next
  case (Suc k)
  show ?case
  proof (cases "(addr + i) mod 8 \<noteq> 0 \<and> i < n")
    case True
    with Suc(1) [of "Suc i"] Suc(2) assms store_wiped [of i 1 c] show ?thesis
      by (subst wipe_until_aligned.simps) auto
  next
    case False
    then show ?thesis using Suc.prems by (subst wipe_until_aligned.simps) auto
  qed
qed

lemma wipe_words_wiped:
  assumes "n \<le> length c" "i \<le> n" "0 < w"
  shows "\<exists>j \<le> n. n < j + w \<and> wipe_words w (wiped c i) n i = Some (wiped c j, j)"
  using assms(2)
proof (induction "n - i" arbitrary: i rule: less_induct)
  case less
  show ?case
  proof (cases "i + w \<le> n")
    case True
    with less(1) [of "i + w"] assms store_wiped [of i w c] show ?thesis
      by (subst wipe_words.simps) auto
  next
    case False
    then show ?thesis using less.prems assms(3) by (subst wipe_words.simps) auto
  qed
qed

lemma memwipe_inline_zeroes:
  assumes "n \<le> length c"
  shows "memwipe_inline addr c n = Some (replicate n 0 @ drop n c)"
proof -
  obtain j where j: "j \<le> n" "wipe_until_aligned addr c n 0 = Some (wiped c j, j)"
    using wipe_until_aligned_wiped [OF assms, of 0] by (auto simp: wiped_def [of _ 0])
  obtain k where k: "k \<le> n" "wipe_words 8 (wiped c j) n j = Some (wiped c k, k)"
    using wipe_words_wiped [OF assms j(1), of 8] by auto
  have "wipe_words 1 (wiped c k) n k = Some (wiped c n, n)"
    using wipe_words_wiped [OF assms k(1), of 1] by (auto simp: less_Suc_eq_le dest: antisym)
  with j(2) k(2) show ?thesis by (simp add: memwipe_inline_def wiped_def)
qed

text \<open>An occurrence of the needle at an offset that leaves room for it.\<close>

definition occurs_at :: "bytes \<Rightarrow> bytes \<Rightarrow> nat \<Rightarrow> bool" where
  "occurs_at haystack needle p \<longleftrightarrow>
     p + length needle \<le> length haystack \<and> take (length needle) (drop p haystack) = needle"

lemma memstr_loop_first:
  assumes "needle \<noteq> []" "pos + n = length haystack"
  shows "case memstr_loop haystack needle pos n of
      None \<Rightarrow> \<forall>q \<ge> pos. \<not> occurs_at haystack needle q
    | Some p \<Rightarrow> pos \<le> p \<and> occurs_at haystack needle p \<and> (\<forall>q. pos \<le> q \<and> q < p \<longrightarrow> \<not> occurs_at haystack needle q)"
  using assms(2)
proof (induction n arbitrary: pos)
  case 0
  then show ?case using assms(1) by (subst memstr_loop.simps) (auto simp: occurs_at_def)
next
  case (Suc n)
  consider "Suc n < length needle" | "length needle \<le> Suc n" "take (length needle) (drop pos haystack) = needle"
    | "length needle \<le> Suc n" "take (length needle) (drop pos haystack) \<noteq> needle" by linarith
  then show ?case
  proof cases
    case 1
    then show ?thesis using Suc.prems by (subst memstr_loop.simps) (auto simp: occurs_at_def)
  next
    case 2
    then show ?thesis using Suc.prems by (subst memstr_loop.simps) (auto simp: occurs_at_def)
  next
    case 3
    then have no: "\<not> occurs_at haystack needle pos" by (simp add: occurs_at_def)
    have "memstr_loop haystack needle pos (Suc n) = memstr_loop haystack needle (Suc pos) n"
      using 3 by (subst memstr_loop.simps) simp
    with Suc.IH [of "Suc pos"] Suc.prems no show ?thesis
      by (auto split: option.splits) (metis Suc_leI le_neq_implies_less)+
  qed
qed

lemma memrchr_loop_last:
  "case memrchr_loop s c k of
     None \<Rightarrow> \<forall>q < k. s ! q \<noteq> c
   | Some p \<Rightarrow> p < k \<and> s ! p = c \<and> (\<forall>q. p < q \<and> q < k \<longrightarrow> s ! q \<noteq> c)"
  by (induction k) (auto split: option.splits simp: less_Suc_eq)

lemma memstr_first:
  assumes "needle \<noteq> []"
  shows "case memstr s needle of
      None \<Rightarrow> \<not> (\<exists>p. occurs_at s needle p)
    | Some p \<Rightarrow> occurs_at s needle p \<and> (\<forall>q < p. \<not> occurs_at s needle q)"
  using memstr_loop_first [OF assms, of 0 "length s" s] assms
  by (auto simp: memstr_def split: option.splits)

lemma utils_memrchr_last:
  "case utils_memrchr s c n of
     None \<Rightarrow> \<forall>q < n. s ! q \<noteq> c
   | Some p \<Rightarrow> p < n \<and> s ! p = c \<and> (\<forall>q. p < q \<and> q < n \<longrightarrow> s ! q \<noteq> c)"
  using memrchr_loop_last [where s = s and c = c and k = n] by (auto simp: utils_memrchr_def)

lemma pad_len_less: "0 < a \<Longrightarrow> pad_len n a < a"
  by (simp add: pad_len_def Let_def)

lemma round_up_spec:
  assumes "0 < a"
  shows "a dvd round_up n a \<and> n \<le> round_up n a \<and> round_up n a < n + a"
proof -
  have "n mod a < a" using assms by simp
  moreover have "a dvd n + (a - n mod a)"
  proof -
    have "n + (a - n mod a) = a * (n div a) + a"
      using \<open>n mod a < a\<close> mult_div_mod_eq [of a n] by linarith
    then show ?thesis by simp
  qed
  ultimately show ?thesis by (auto simp: round_up_def pad_len_def Let_def)
qed

end
