(* ===== verification/BioReader.thy ===== *)
theory BioReader
  imports Prelude
begin

text \<open>
  The cursor based reader of \<^verbatim>\<open>bio/bio_reader.c\<close>. A chunk is a pointer and a
  length; the model keeps the object the pointer points into, so that a load outside of it
  is visible as the outcome \<open>Fault\<close> (undefined behaviour in C), apart from the
  outcome \<open>Fail\<close> the code reports with FALSE. The refinement lemmas say that
  every operation is a parser on the bytes that remain; the one exception is
  \<open>read_uint24_internal\<close>, which loads four bytes.
\<close>

section \<open>State and operations\<close>

record bio_reader =
  rd_mem :: bytes  \<comment> \<open>the object the chunk points into\<close>
  rd_ptr :: nat    \<comment> \<open>\<^verbatim>\<open>buf.ptr\<close>, as an offset into it (0 for the NULL of an empty chunk)\<close>
  rd_len :: nat    \<comment> \<open>\<^verbatim>\<open>buf.len\<close>\<close>

text \<open>
  An operation that returns FALSE still leaves a reader behind, so \<open>Fail\<close> carries it.
\<close>

datatype 'a read_result = Fault | Fail bio_reader | Ok 'a bio_reader

definition remaining :: "bio_reader \<Rightarrow> u32" where
  "remaining r = of_nat (rd_len r)"

definition peek :: "bio_reader \<Rightarrow> bytes" where
  "peek r = take (rd_len r) (drop (rd_ptr r) (rd_mem r))"

definition chunk_skip_end :: "bio_reader \<Rightarrow> nat \<Rightarrow> bool \<Rightarrow> bio_reader" where
  "chunk_skip_end r n from_end =
     (if rd_len r > n
      then (if \<not> from_end then r\<lparr>rd_ptr := rd_ptr r + n, rd_len := rd_len r - n\<rparr>
            else r\<lparr>rd_len := rd_len r - n\<rparr>)
      else r\<lparr>rd_ptr := 0, rd_len := 0\<rparr>)"

definition get_ptr_end :: "bio_reader \<Rightarrow> nat \<Rightarrow> bool \<Rightarrow> nat" where
  "get_ptr_end r n from_end =
     (if from_end then rd_ptr r + (rd_len r - n) else rd_ptr r)"

definition read_uint8_internal :: "bio_reader \<Rightarrow> bool \<Rightarrow> u8 read_result" where
  "read_uint8_internal r from_end =
     (if rd_len r < 1 then Fail r
      else case load (rd_mem r) (get_ptr_end r 1 from_end) 1 of
             None \<Rightarrow> Fault
           | Some bs \<Rightarrow> Ok (bs ! 0) (chunk_skip_end r 1 from_end))"

definition read_uint16_internal :: "bio_reader \<Rightarrow> bool \<Rightarrow> u16 read_result" where
  "read_uint16_internal r from_end =
     (if rd_len r < 2 then Fail r
      else case load (rd_mem r) (get_ptr_end r 2 from_end) 2 of
             None \<Rightarrow> Fault
           | Some bs \<Rightarrow> Ok (untoh16 bs) (chunk_skip_end r 2 from_end))"

text \<open>Three bytes are required, but \<^verbatim>\<open>untoh32\<close> loads four of them.\<close>

definition read_uint24_internal :: "bio_reader \<Rightarrow> bool \<Rightarrow> u32 read_result" where
  "read_uint24_internal r from_end =
     (if rd_len r < 3 then Fail r
      else case load (rd_mem r) (get_ptr_end r 3 from_end) 4 of
             None \<Rightarrow> Fault
           | Some bs \<Rightarrow> Ok (drop_bit 8 (untoh32 bs)) (chunk_skip_end r 3 from_end))"

definition read_uint32_internal :: "bio_reader \<Rightarrow> bool \<Rightarrow> u32 read_result" where
  "read_uint32_internal r from_end =
     (if rd_len r < 4 then Fail r
      else case load (rd_mem r) (get_ptr_end r 4 from_end) 4 of
             None \<Rightarrow> Fault
           | Some bs \<Rightarrow> Ok (untoh32 bs) (chunk_skip_end r 4 from_end))"

definition read_uint64_internal :: "bio_reader \<Rightarrow> bool \<Rightarrow> u64 read_result" where
  "read_uint64_internal r from_end =
     (if rd_len r < 8 then Fail r
      else case load (rd_mem r) (get_ptr_end r 8 from_end) 8 of
             None \<Rightarrow> Fault
           | Some bs \<Rightarrow> Ok (untoh64 bs) (chunk_skip_end r 8 from_end))"

text \<open>The chunk handed out points into the reader's buffer: the result is what it holds.\<close>

definition read_data_internal :: "bio_reader \<Rightarrow> u32 \<Rightarrow> bool \<Rightarrow> bytes read_result" where
  "read_data_internal r len from_end =
     (if rd_len r < unat len then Fail r
      else case load (rd_mem r) (get_ptr_end r (unat len) from_end) (unat len) of
             None \<Rightarrow> Fault
           | Some bs \<Rightarrow> Ok bs (chunk_skip_end r (unat len) from_end))"

definition read_uint8 :: "bio_reader \<Rightarrow> u8 read_result" where
  "read_uint8 r = read_uint8_internal r False"

definition read_uint16 :: "bio_reader \<Rightarrow> u16 read_result" where
  "read_uint16 r = read_uint16_internal r False"

definition read_uint24 :: "bio_reader \<Rightarrow> u32 read_result" where
  "read_uint24 r = read_uint24_internal r False"

definition read_uint32 :: "bio_reader \<Rightarrow> u32 read_result" where
  "read_uint32 r = read_uint32_internal r False"

definition read_uint64 :: "bio_reader \<Rightarrow> u64 read_result" where
  "read_uint64 r = read_uint64_internal r False"

definition read_data :: "bio_reader \<Rightarrow> u32 \<Rightarrow> bytes read_result" where
  "read_data r len = read_data_internal r len False"

definition read_uint8_end :: "bio_reader \<Rightarrow> u8 read_result" where
  "read_uint8_end r = read_uint8_internal r True"

definition read_uint16_end :: "bio_reader \<Rightarrow> u16 read_result" where
  "read_uint16_end r = read_uint16_internal r True"

definition read_uint24_end :: "bio_reader \<Rightarrow> u32 read_result" where
  "read_uint24_end r = read_uint24_internal r True"

definition read_uint32_end :: "bio_reader \<Rightarrow> u32 read_result" where
  "read_uint32_end r = read_uint32_internal r True"

definition read_uint64_end :: "bio_reader \<Rightarrow> u64 read_result" where
  "read_uint64_end r = read_uint64_internal r True"

definition read_data_end :: "bio_reader \<Rightarrow> u32 \<Rightarrow> bytes read_result" where
  "read_data_end r len = read_data_internal r len True"

text \<open>
  The length prefixed reads. When the length was read but the data is missing, FALSE is
  returned with the reader moved behind the length field.
\<close>

definition read_data8 :: "bio_reader \<Rightarrow> bytes read_result" where
  "read_data8 r = (case read_uint8 r of Fault \<Rightarrow> Fault | Fail r' \<Rightarrow> Fail r'
                   | Ok len r' \<Rightarrow> read_data r' (ucast len))"

definition read_data16 :: "bio_reader \<Rightarrow> bytes read_result" where
  "read_data16 r = (case read_uint16 r of Fault \<Rightarrow> Fault | Fail r' \<Rightarrow> Fail r'
                    | Ok len r' \<Rightarrow> read_data r' (ucast len))"

definition read_data24 :: "bio_reader \<Rightarrow> bytes read_result" where
  "read_data24 r = (case read_uint24 r of Fault \<Rightarrow> Fault | Fail r' \<Rightarrow> Fail r'
                    | Ok len r' \<Rightarrow> read_data r' len)"

definition read_data32 :: "bio_reader \<Rightarrow> bytes read_result" where
  "read_data32 r = (case read_uint32 r of Fault \<Rightarrow> Fault | Fail r' \<Rightarrow> Fail r'
                    | Ok len r' \<Rightarrow> read_data r' len)"

definition bio_reader_create :: "bytes \<Rightarrow> bio_reader" where
  "bio_reader_create data = \<lparr>rd_mem = data, rd_ptr = 0, rd_len = length data\<rparr>"


section \<open>The reader as a parser on the remaining bytes\<close>

definition reader_wf :: "bio_reader \<Rightarrow> bool" where
  "reader_wf r \<longleftrightarrow> rd_ptr r + rd_len r \<le> length (rd_mem r)"

text \<open>\<open>n\<close> bytes from the front or from the end, and the bytes that are left.\<close>

definition split_off :: "bool \<Rightarrow> nat \<Rightarrow> bytes \<Rightarrow> bytes \<times> bytes" where
  "split_off from_end n bs =
     (if from_end then (drop (length bs - n) bs, take (length bs - n) bs)
      else (take n bs, drop n bs))"

definition parse_spec :: "bool \<Rightarrow> nat \<Rightarrow> (bytes \<Rightarrow> 'a) \<Rightarrow> bytes \<Rightarrow> ('a \<times> bytes) option" where
  "parse_spec from_end n decode bs =
     (if length bs < n then None
      else Some (decode (fst (split_off from_end n bs)), snd (split_off from_end n bs)))"

fun view_result :: "'a read_result \<Rightarrow> ('a \<times> bytes) option option" where
  "view_result Fault = None"
| "view_result (Fail r) = Some None"
| "view_result (Ok a r) = Some (Some (a, peek r))"

lemma reader_wf_create [simp]: "reader_wf (bio_reader_create bs)"
  by (simp add: reader_wf_def bio_reader_create_def)

lemma peek_create [simp]: "peek (bio_reader_create bs) = bs"
  by (simp add: peek_def bio_reader_create_def)

lemma length_peek: "reader_wf r \<Longrightarrow> length (peek r) = rd_len r"
  by (simp add: reader_wf_def peek_def)

lemma load_peek:
  assumes "reader_wf r" "n \<le> rd_len r"
  shows "load (rd_mem r) (get_ptr_end r n e) n = Some (fst (split_off e n (peek r)))"
proof (cases e)
  case True
  have len: "length (peek r) = rd_len r" using assms(1) by (rule length_peek)
  have "drop (rd_len r - n) (peek r) = take n (drop (rd_ptr r + (rd_len r - n)) (rd_mem r))"
    using assms(2) by (simp add: peek_def drop_take add.commute)
  with True assms show ?thesis
    by (simp add: load_def get_ptr_end_def split_off_def reader_wf_def len)
next
  case False
  with assms show ?thesis
    by (simp add: load_def get_ptr_end_def split_off_def reader_wf_def peek_def min_def)
qed

lemma peek_chunk_skip_end:
  assumes "reader_wf r" "n \<le> rd_len r"
  shows "peek (chunk_skip_end r n e) = snd (split_off e n (peek r))"
proof (cases e)
  case True
  with assms show ?thesis
    by (simp add: chunk_skip_end_def split_off_def reader_wf_def peek_def)
next
  case False
  with assms show ?thesis
    by (simp add: chunk_skip_end_def split_off_def reader_wf_def peek_def drop_take add.commute)
qed

lemma reader_wf_skip: "reader_wf r \<Longrightarrow> reader_wf (chunk_skip_end r n e)"
  by (auto simp: reader_wf_def chunk_skip_end_def)

lemma mem_skip [simp]: "rd_mem (chunk_skip_end r n e) = rd_mem r"
  by (simp add: chunk_skip_end_def)


section \<open>One contract for the fixed size reads\<close>

text \<open>
  \<open>read\<close> takes \<open>n\<close> bytes from the front or from the end of what remains and
  decodes them; with fewer bytes left it fails and moves nothing.
\<close>

locale fixed_read =
  fixes read :: "bio_reader \<Rightarrow> bool \<Rightarrow> 'a read_result"
    and n :: nat
    and decode :: "bytes \<Rightarrow> 'a"
  assumes read_eq: "reader_wf r \<Longrightarrow> read r e =
    (if rd_len r < n then Fail r
     else Ok (decode (fst (split_off e n (peek r)))) (chunk_skip_end r n e))"
begin

lemma refines:
  assumes "reader_wf r"
  shows "view_result (read r e) = Some (parse_spec e n decode (peek r))"
  using assms by (simp add: read_eq parse_spec_def length_peek peek_chunk_skip_end)

lemma no_fault: "reader_wf r \<Longrightarrow> read r e \<noteq> Fault"
  by (simp add: read_eq)

lemma keeps_wf:
  assumes "reader_wf r" "read r e = Ok a r'"
  shows "reader_wf r'" "rd_mem r' = rd_mem r" "rd_len r' + n = rd_len r"
proof -
  from assms have "n \<le> rd_len r" "r' = chunk_skip_end r n e"
    by (auto simp: read_eq split: if_splits)
  with assms(1) show "reader_wf r'" "rd_mem r' = rd_mem r" "rd_len r' + n = rd_len r"
    by (simp_all add: reader_wf_skip) (simp add: chunk_skip_end_def)
qed

lemma reads_front:
  assumes "reader_wf r" "peek r = bs @ rest" "length bs = n"
  shows "\<exists>r'. read r False = Ok (decode bs) r' \<and> peek r' = rest \<and> reader_wf r' \<and>
    rd_mem r' = rd_mem r"
proof -
  from assms have "n \<le> rd_len r" by (metis length_append length_peek le_add1)
  with assms have "read r False = Ok (decode bs) (chunk_skip_end r n False)"
    by (simp add: read_eq split_off_def)
  moreover have "peek (chunk_skip_end r n False) = rest"
    using assms \<open>n \<le> rd_len r\<close> by (simp add: peek_chunk_skip_end split_off_def)
  ultimately show ?thesis
    using assms(1) by (simp add: reader_wf_skip)
qed

lemma reads_end:
  assumes "reader_wf r" "peek r = rest @ bs" "length bs = n"
  shows "\<exists>r'. read r True = Ok (decode bs) r' \<and> peek r' = rest \<and> reader_wf r' \<and>
    rd_mem r' = rd_mem r"
proof -
  from assms have "n \<le> rd_len r" by (metis length_append length_peek le_add2)
  with assms have "read r True = Ok (decode bs) (chunk_skip_end r n True)"
    by (simp add: read_eq split_off_def)
  moreover have "peek (chunk_skip_end r n True) = rest"
    using assms \<open>n \<le> rd_len r\<close> by (simp add: peek_chunk_skip_end split_off_def)
  ultimately show ?thesis
    using assms(1) by (simp add: reader_wf_skip)
qed

end

interpretation r8: fixed_read read_uint8_internal 1 "\<lambda>bs. bs ! 0"
  by unfold_locales (simp add: read_uint8_internal_def load_peek)

interpretation r16: fixed_read read_uint16_internal 2 untoh16
  by unfold_locales (simp add: read_uint16_internal_def load_peek)

interpretation r32: fixed_read read_uint32_internal 4 untoh32
  by unfold_locales (simp add: read_uint32_internal_def load_peek)

interpretation r64: fixed_read read_uint64_internal 8 untoh64
  by unfold_locales (simp add: read_uint64_internal_def load_peek)

interpretation rdata: fixed_read "\<lambda>r e. read_data_internal r len e" "unat len" "\<lambda>bs. bs"
  for len :: u32
  by unfold_locales (simp add: read_data_internal_def load_peek)




section \<open>The 24-bit read\<close>

lemma drop_bit_8_untoh32:
  assumes "length bs = 4"
  shows "drop_bit 8 (untoh32 bs) = untoh32 (0 # take 3 bs)"
proof -
  obtain a b c d where bs: "bs = [a, b, c, d]"
    using assms by (auto simp: numeral_eq_Suc length_Suc_conv)
  show ?thesis
    unfolding bs
    by (rule bit_word_eqI) (auto simp: untoh32_def bit_simps less_diff_conv2)
qed


definition decode24 :: "bytes \<Rightarrow> u32" where
  "decode24 bs = untoh32 (0 # bs)"

lemma read_uint24_slack:
  assumes "reader_wf r" "get_ptr_end r 3 e + 4 \<le> length (rd_mem r)"
  shows "read_uint24_internal r e =
    (if rd_len r < 3 then Fail r
     else Ok (decode24 (fst (split_off e 3 (peek r)))) (chunk_skip_end r 3 e))"
proof (cases "rd_len r < 3")
  case False
  let ?p = "get_ptr_end r 3 e"
  from False have "load (rd_mem r) ?p 3 = Some (fst (split_off e 3 (peek r)))"
    using assms(1) by (intro load_peek) simp_all
  with assms(2) have three: "fst (split_off e 3 (peek r)) = take 3 (drop ?p (rd_mem r))"
    by (simp add: load_def)
  have "length (take 4 (drop ?p (rd_mem r))) = 4" using assms(2) by simp
  from drop_bit_8_untoh32 [OF this] False assms(2) show ?thesis
    by (simp add: read_uint24_internal_def load_def decode24_def three min_def)
qed (simp add: read_uint24_internal_def)

text \<open>
  C18. The 24-bit read checks for three bytes and loads four: whenever the three bytes are the
  last ones of the object, the load leaves it. With at least one more byte behind them the
  result is the 24-bit big-endian value, whatever that byte is.
\<close>

theorem read_uint24_over_read:
  assumes "reader_wf r"
  shows "(read_uint24_internal r e = Fault \<longleftrightarrow>
            3 \<le> rd_len r \<and> length (rd_mem r) < get_ptr_end r 3 e + 4) \<and>
         (get_ptr_end r 3 e + 4 \<le> length (rd_mem r) \<longrightarrow>
            view_result (read_uint24_internal r e) = Some (parse_spec e 3 decode24 (peek r)))"
proof (intro conjI impI)
  show "read_uint24_internal r e = Fault \<longleftrightarrow>
          3 \<le> rd_len r \<and> length (rd_mem r) < get_ptr_end r 3 e + 4"
    by (auto simp: read_uint24_internal_def load_def)
next
  assume "get_ptr_end r 3 e + 4 \<le> length (rd_mem r)"
  with assms show "view_result (read_uint24_internal r e) = Some (parse_spec e 3 decode24 (peek r))"
    by (simp add: read_uint24_slack parse_spec_def length_peek peek_chunk_skip_end)
qed

theorem read_uint24_over_read_witness:
  "read_uint24_internal (bio_reader_create [1, 2, 3]) False = Fault \<and>
   view_result (read_uint24_internal (bio_reader_create [1, 2, 3, 4]) False) =
     Some (Some (0x10203, [4]))"
  using read_uint24_over_read [OF reader_wf_create, of "[1, 2, 3]" False]
    read_uint24_over_read [OF reader_wf_create, of "[1, 2, 3, 4]" False]
  by (simp add: bio_reader_create_def get_ptr_end_def parse_spec_def split_off_def decode24_def
      untoh32_def peek_def)


section \<open>Length prefixed reads\<close>

lemma read_data_front:
  assumes "reader_wf r" "peek r = bs @ rest" "length bs < 2 ^ 32"
  shows "\<exists>r'. read_data r (of_nat (length bs)) = Ok bs r' \<and> peek r' = rest \<and> reader_wf r'"
proof -
  have "length bs = unat (of_nat (length bs) :: u32)"
    using assms(3) by (simp add: unat_of_nat take_bit_eq_mod)
  from rdata.reads_front [OF assms(1,2) this] show ?thesis
    by (auto simp: read_data_def)
qed

end
