(* ===== verification/BioWriter.thy ===== *)
theory BioWriter
  imports BioReader
begin

text \<open>
  The growing buffer of \<^verbatim>\<open>bio/bio_writer.c\<close>. The allocated buffer is a list of
  cells, \<open>None\<close> being a byte that \<^verbatim>\<open>realloc\<close> left indeterminate. An operation
  returns \<open>None\<close> if it does not return (the loop of \<open>increase\<close>) or stores
  outside of the buffer; the lemmas show that neither happens to a writer made by
  \<open>bio_writer_create\<close>, that every write appends its encoding to the contents, and
  that what was written is read back by the reader of \<open>BioReader\<close>.
\<close>

section \<open>State and operations\<close>

record bio_writer =
  wr_buf :: "u8 option list"  \<comment> \<open>allocated buffer\<close>
  wr_used :: nat              \<comment> \<open>used bytes in buffer\<close>
  wr_increase :: nat          \<comment> \<open>number of bytes to increase buffer size\<close>

text \<open>
  The loop of \<open>increase\<close>, with fuel: at most \<open>need\<close> rounds are needed when
  \<open>inc\<close> is positive (\<open>increase_loop_enough\<close> below).
\<close>

fun increase_loop :: "nat \<Rightarrow> nat \<Rightarrow> nat \<Rightarrow> nat \<Rightarrow> nat option" where
  "increase_loop 0 need inc len = None"
| "increase_loop (Suc fuel) need inc len =
     (if need > len then increase_loop fuel need inc (len + inc) else Some len)"

definition increase :: "bio_writer \<Rightarrow> nat \<Rightarrow> bio_writer option" where
  "increase w required = do {
     len \<leftarrow> increase_loop (Suc (wr_used w + required)) (wr_used w + required)
             (wr_increase w) (length (wr_buf w));
     Some (w\<lparr>wr_buf := wr_buf w @ replicate (len - length (wr_buf w)) None\<rparr>)
   }"

text \<open>Store bytes behind the used ones, without the size check.\<close>

definition put_bytes :: "bio_writer \<Rightarrow> bytes \<Rightarrow> bio_writer option" where
  "put_bytes w bs = do {
     buf \<leftarrow> store (wr_buf w) (wr_used w) (map Some bs);
     Some (w\<lparr>wr_buf := buf, wr_used := wr_used w + length bs\<rparr>)
   }"

definition write_uint8 :: "bio_writer \<Rightarrow> u8 \<Rightarrow> bio_writer option" where
  "write_uint8 w value = do { w \<leftarrow> increase w 1; put_bytes w [value] }"

definition write_uint16 :: "bio_writer \<Rightarrow> u16 \<Rightarrow> bio_writer option" where
  "write_uint16 w value = do { w \<leftarrow> increase w 2; put_bytes w (htoun16 value) }"

definition write_uint24 :: "bio_writer \<Rightarrow> u32 \<Rightarrow> bio_writer option" where
  "write_uint24 w value = do { w \<leftarrow> increase w 3; put_bytes w (tl (htoun32 value)) }"

definition write_uint32 :: "bio_writer \<Rightarrow> u32 \<Rightarrow> bio_writer option" where
  "write_uint32 w value = do { w \<leftarrow> increase w 4; put_bytes w (htoun32 value) }"

definition write_uint64 :: "bio_writer \<Rightarrow> u64 \<Rightarrow> bio_writer option" where
  "write_uint64 w value = do { w \<leftarrow> increase w 8; put_bytes w (htoun64 value) }"

definition write_data :: "bio_writer \<Rightarrow> bytes \<Rightarrow> bio_writer option" where
  "write_data w value = do { w \<leftarrow> increase w (length value); put_bytes w value }"

text \<open>The length parameters convert \<^verbatim>\<open>value.len\<close> to the width of the field.\<close>

definition write_data8 :: "bio_writer \<Rightarrow> bytes \<Rightarrow> bio_writer option" where
  "write_data8 w value = do {
     w \<leftarrow> increase w (1 + length value);
     w \<leftarrow> write_uint8 w (of_nat (length value));
     write_data w value
   }"

definition write_data16 :: "bio_writer \<Rightarrow> bytes \<Rightarrow> bio_writer option" where
  "write_data16 w value = do {
     w \<leftarrow> increase w (2 + length value);
     w \<leftarrow> write_uint16 w (of_nat (length value));
     write_data w value
   }"

definition write_data24 :: "bio_writer \<Rightarrow> bytes \<Rightarrow> bio_writer option" where
  "write_data24 w value = do {
     w \<leftarrow> increase w (3 + length value);
     w \<leftarrow> write_uint24 w (of_nat (length value));
     write_data w value
   }"

definition write_data32 :: "bio_writer \<Rightarrow> bytes \<Rightarrow> bio_writer option" where
  "write_data32 w value = do {
     w \<leftarrow> increase w (4 + length value);
     w \<leftarrow> write_uint32 w (of_nat (length value));
     write_data w value
   }"

text \<open>Move the contents up and store a header in front of them.\<close>

definition wrap_bytes :: "bio_writer \<Rightarrow> bytes \<Rightarrow> bio_writer option" where
  "wrap_bytes w hdr = do {
     buf \<leftarrow> memmove (wr_buf w) (length hdr) 0 (wr_used w);
     buf \<leftarrow> store buf 0 (map Some hdr);
     Some (w\<lparr>wr_buf := buf, wr_used := wr_used w + length hdr\<rparr>)
   }"

definition wrap8 :: "bio_writer \<Rightarrow> bio_writer option" where
  "wrap8 w = do { w \<leftarrow> increase w 1; wrap_bytes w [of_nat (wr_used w)] }"

definition wrap16 :: "bio_writer \<Rightarrow> bio_writer option" where
  "wrap16 w = do { w \<leftarrow> increase w 2; wrap_bytes w (htoun16 (of_nat (wr_used w))) }"

definition wrap24 :: "bio_writer \<Rightarrow> bio_writer option" where
  "wrap24 w = do { w \<leftarrow> increase w 3; wrap_bytes w (tl (htoun32 (of_nat (wr_used w)))) }"

definition wrap32 :: "bio_writer \<Rightarrow> bio_writer option" where
  "wrap32 w = do { w \<leftarrow> increase w 4; wrap_bytes w (htoun32 (of_nat (wr_used w))) }"

text \<open>The chunk returned is the offset and the length of the skipped region.\<close>

definition skip :: "bio_writer \<Rightarrow> nat \<Rightarrow> ((nat \<times> nat) \<times> bio_writer) option" where
  "skip w len = do {
     w \<leftarrow> increase w len;
     Some ((wr_used w, len), w\<lparr>wr_used := wr_used w + len\<rparr>)
   }"

definition get_buf :: "bio_writer \<Rightarrow> u8 option list" where
  "get_buf w = take (wr_used w) (wr_buf w)"

definition extract_buf :: "bio_writer \<Rightarrow> u8 option list \<times> bio_writer" where
  "extract_buf w = (get_buf w, w\<lparr>wr_buf := [], wr_used := 0\<rparr>)"

definition bio_writer_create :: "u32 \<Rightarrow> bio_writer" where
  "bio_writer_create bufsize =
     \<lparr>wr_buf = replicate (unat bufsize) None, wr_used = 0,
      wr_increase = (if bufsize \<noteq> 0 then max (unat bufsize) 4 else 32)\<rparr>"


section \<open>Well-formed writers\<close>

definition writer_wf :: "bio_writer \<Rightarrow> bool" where
  "writer_wf w \<longleftrightarrow> wr_used w \<le> length (wr_buf w) \<and> 0 < wr_increase w"

lemma writer_wf_create [simp]: "writer_wf (bio_writer_create n)"
  by (simp add: writer_wf_def bio_writer_create_def max_def)

lemma get_buf_create [simp]: "get_buf (bio_writer_create n) = []"
  by (simp add: get_buf_def bio_writer_create_def)

lemma writer_wf_extract: "writer_wf w \<Longrightarrow> writer_wf (snd (extract_buf w))"
  by (simp add: writer_wf_def extract_buf_def)

lemma increase_loop_enough:
  assumes "0 < inc" "0 < fuel" "need < fuel + len"
  shows "\<exists>len'. increase_loop fuel need inc len = Some len' \<and> need \<le> len' \<and> len \<le> len' \<and>
    (need \<le> len \<longrightarrow> len' = len)"
  using assms
proof (induction fuel arbitrary: len)
  case (Suc fuel)
  show ?case
  proof (cases "need > len")
    case True
    from Suc.prems True have "0 < fuel" "need < fuel + (len + inc)" by simp_all
    from Suc.IH [OF Suc.prems(1) this] True show ?thesis by auto
  qed simp
qed simp

lemma increase_total:
  assumes "writer_wf w"
  obtains w' where "increase w n = Some w'" "writer_wf w'" "wr_used w' = wr_used w"
    "wr_increase w' = wr_increase w" "get_buf w' = get_buf w"
    "wr_used w + n \<le> length (wr_buf w')"
    "wr_used w + n \<le> length (wr_buf w) \<Longrightarrow> w' = w"
proof -
  let ?need = "wr_used w + n" and ?len = "length (wr_buf w)"
  from assms obtain len where len: "increase_loop (Suc ?need) ?need (wr_increase w) ?len = Some len"
    "?need \<le> len" "?len \<le> len" "?need \<le> ?len \<longrightarrow> len = ?len"
    using increase_loop_enough [of "wr_increase w" "Suc ?need" ?need ?len]
    by (auto simp: writer_wf_def simp del: increase_loop.simps)
  let ?w = "w\<lparr>wr_buf := wr_buf w @ replicate (len - ?len) None\<rparr>"
  from len have "increase w n = Some ?w" by (simp add: increase_def del: increase_loop.simps)
  moreover have "writer_wf ?w" using assms len by (simp add: writer_wf_def)
  moreover have "get_buf ?w = get_buf w" using assms by (simp add: get_buf_def writer_wf_def)
  ultimately show ?thesis using len by (intro that [of ?w]) auto
qed


section \<open>Writes append their encoding\<close>

text \<open>
  The contract the writes share: \<open>op\<close> returns, keeps the writer well-formed and
  appends \<open>enc\<close>; if \<open>need\<close> more bytes fit into the allocated buffer it does not
  move it, so that chunks handed out before stay valid.
\<close>

locale append_op =
  fixes op :: "bio_writer \<Rightarrow> bio_writer option"
    and enc :: "u8 option list"
    and need :: nat
  assumes appends: "writer_wf w \<Longrightarrow> \<exists>w'. op w = Some w' \<and> writer_wf w' \<and>
      get_buf w' = get_buf w @ enc \<and>
      (wr_used w + need \<le> length (wr_buf w) \<longrightarrow> length (wr_buf w') = length (wr_buf w))"
begin

lemma append_total:
  assumes "writer_wf w"
  obtains w' where "op w = Some w'" "writer_wf w'" "get_buf w' = get_buf w @ enc"
    "wr_used w + need \<le> length (wr_buf w) \<Longrightarrow> length (wr_buf w') = length (wr_buf w)"
  using appends [OF assms] by blast

lemma appends_iff:
  assumes "writer_wf w" "op w = Some w'"
  shows "writer_wf w'" "get_buf w' = get_buf w @ enc"
  using appends [OF assms(1)] assms(2) by auto

end

lemma length_get_buf: "writer_wf w \<Longrightarrow> length (get_buf w) = wr_used w"
  by (simp add: get_buf_def writer_wf_def)

lemma append_op_seq:
  assumes "append_op op1 enc1 need1" "append_op op2 enc2 need2"
  shows "append_op (\<lambda>w. op1 w \<bind> op2) (enc1 @ enc2) (max need1 (length enc1 + need2))"
proof
  fix w assume w: "writer_wf w"
  obtain w1 where w1: "op1 w = Some w1" "writer_wf w1" "get_buf w1 = get_buf w @ enc1"
    and c1: "wr_used w + need1 \<le> length (wr_buf w) \<Longrightarrow> length (wr_buf w1) = length (wr_buf w)"
    using append_op.append_total [OF assms(1) w] by metis
  obtain w2 where w2: "op2 w1 = Some w2" "writer_wf w2" "get_buf w2 = get_buf w1 @ enc2"
    and c2: "wr_used w1 + need2 \<le> length (wr_buf w1) \<Longrightarrow> length (wr_buf w2) = length (wr_buf w1)"
    using append_op.append_total [OF assms(2) w1(2)] by metis
  have used: "wr_used w1 = wr_used w + length enc1"
    using w1 w length_get_buf [of w1] length_get_buf [of w] by simp
  show "\<exists>w'. op1 w \<bind> op2 = Some w' \<and> writer_wf w' \<and> get_buf w' = get_buf w @ enc1 @ enc2 \<and>
      (wr_used w + max need1 (length enc1 + need2) \<le> length (wr_buf w) \<longrightarrow>
       length (wr_buf w') = length (wr_buf w))"
    using w1 w2 c1 c2 used by auto
qed

lemma append_op_increase: "append_op (\<lambda>w. increase w n) [] n"
proof
  fix w assume "writer_wf w"
  then show "\<exists>w'. increase w n = Some w' \<and> writer_wf w' \<and> get_buf w' = get_buf w @ [] \<and>
      (wr_used w + n \<le> length (wr_buf w) \<longrightarrow> length (wr_buf w') = length (wr_buf w))"
    using increase_total [of w n] by (metis append_Nil2)
qed

lemma put_bytes_appends:
  assumes "writer_wf w" "wr_used w + length bs \<le> length (wr_buf w)"
  shows "\<exists>w'. put_bytes w bs = Some w' \<and> writer_wf w' \<and> get_buf w' = get_buf w @ map Some bs \<and>
    length (wr_buf w') = length (wr_buf w)"
  using assms by (simp add: put_bytes_def writer_wf_def get_buf_def)

lemma append_op_put:
  assumes "n = length bs"
  shows "append_op (\<lambda>w. increase w n \<bind> (\<lambda>w. put_bytes w bs)) (map Some bs) n"
proof
  fix w assume w: "writer_wf w"
  obtain w1 where w1: "increase w n = Some w1" "writer_wf w1" "wr_used w1 = wr_used w"
    "get_buf w1 = get_buf w" "wr_used w + n \<le> length (wr_buf w1)"
    and same: "wr_used w + n \<le> length (wr_buf w) \<Longrightarrow> w1 = w"
    using increase_total [OF w, of n] by metis
  from put_bytes_appends [of w1 bs] w1 assms same
  show "\<exists>w'. increase w n \<bind> (\<lambda>w. put_bytes w bs) = Some w' \<and> writer_wf w' \<and>
      get_buf w' = get_buf w @ map Some bs \<and>
      (wr_used w + n \<le> length (wr_buf w) \<longrightarrow> length (wr_buf w') = length (wr_buf w))"
    by auto
qed

interpretation w8: append_op "\<lambda>w. write_uint8 w v" "[Some v]" 1 for v
  using append_op_put [of 1 "[v]"] by (simp add: write_uint8_def)

interpretation w16: append_op "\<lambda>w. write_uint16 w v" "map Some (htoun16 v)" 2 for v
  using append_op_put [of 2 "htoun16 v"] by (simp add: write_uint16_def)

interpretation w24: append_op "\<lambda>w. write_uint24 w v" "map Some (tl (htoun32 v))" 3 for v
  using append_op_put [of 3 "tl (htoun32 v)"] by (simp add: write_uint24_def)

interpretation w32: append_op "\<lambda>w. write_uint32 w v" "map Some (htoun32 v)" 4 for v
  using append_op_put [of 4 "htoun32 v"] by (simp add: write_uint32_def)

interpretation w64: append_op "\<lambda>w. write_uint64 w v" "map Some (htoun64 v)" 8 for v
  using append_op_put [of 8 "htoun64 v"] by (simp add: write_uint64_def)

interpretation wdata: append_op "\<lambda>w. write_data w v" "map Some v" "length v" for v
  using append_op_put [of "length v" v] by (simp add: write_data_def)

text \<open>The length prefixed writes are sequences of the above.\<close>

lemma append_op_prefixed:
  assumes "append_op hdr (map Some h) n" "n = length h"
  shows "append_op (\<lambda>w. increase w (n + length v) \<bind> (\<lambda>w. hdr w \<bind> (\<lambda>w. write_data w v)))
    (map Some (h @ v)) (n + length v)"
  using append_op_seq [OF append_op_increase [of "n + length v"]
      append_op_seq [OF assms(1) wdata.append_op_axioms [of v]]] assms(2)
  by simp

interpretation wd8: append_op "\<lambda>w. write_data8 w v"
    "map Some (of_nat (length v) # v)" "1 + length v" for v
  using append_op_prefixed [of _ "[of_nat (length v)]" 1 v] w8.append_op_axioms
  by (simp add: write_data8_def)

interpretation wd16: append_op "\<lambda>w. write_data16 w v"
    "map Some (htoun16 (of_nat (length v)) @ v)" "2 + length v" for v
  using append_op_prefixed [OF w16.append_op_axioms, of "of_nat (length v)" v]
  by (simp add: write_data16_def)

interpretation wd24: append_op "\<lambda>w. write_data24 w v"
    "map Some (tl (htoun32 (of_nat (length v))) @ v)" "3 + length v" for v
  using append_op_prefixed [OF w24.append_op_axioms, of "of_nat (length v)" v]
  by (simp add: write_data24_def)

interpretation wd32: append_op "\<lambda>w. write_data32 w v"
    "map Some (htoun32 (of_nat (length v)) @ v)" "4 + length v" for v
  using append_op_prefixed [OF w32.append_op_axioms, of "of_nat (length v)" v]
  by (simp add: write_data32_def)


section \<open>Wrapping the contents\<close>

lemma wrap_bytes_prepends:
  assumes "writer_wf w" "wr_used w + length hdr \<le> length (wr_buf w)"
  shows "\<exists>w'. wrap_bytes w hdr = Some w' \<and> writer_wf w' \<and> get_buf w' = map Some hdr @ get_buf w"
  using assms by (simp add: wrap_bytes_def writer_wf_def get_buf_def add.commute)

lemma increase_wrap:
  assumes w: "writer_wf w" and n: "n = length (hdr (wr_used w))"
  shows "\<exists>w'. increase w n \<bind> (\<lambda>w. wrap_bytes w (hdr (wr_used w))) = Some w' \<and> writer_wf w' \<and>
    get_buf w' = map Some (hdr (wr_used w)) @ get_buf w"
proof -
  obtain w1 where w1: "increase w n = Some w1" "writer_wf w1" "wr_used w1 = wr_used w"
    "get_buf w1 = get_buf w" "wr_used w + n \<le> length (wr_buf w1)"
    using increase_total [OF w, of n] by metis
  then show ?thesis
    using wrap_bytes_prepends [of w1 "hdr (wr_used w)"] n by simp
qed

text \<open>
  C11. Wrapping always succeeds and puts the length of the previous contents in front of them,
  as an 8, 16, 24 or 32 bit big-endian number, taken modulo the width of that field.
\<close>

theorem wrap_prepends_length:
  assumes "writer_wf w"
  shows "\<exists>w8 w16 w24 w32.
    wrap8 w = Some w8 \<and> get_buf w8 = Some (of_nat (wr_used w)) # get_buf w \<and>
    wrap16 w = Some w16 \<and> get_buf w16 = map Some (htoun16 (of_nat (wr_used w))) @ get_buf w \<and>
    wrap24 w = Some w24 \<and>
      get_buf w24 = map Some (tl (htoun32 (of_nat (wr_used w)))) @ get_buf w \<and>
    wrap32 w = Some w32 \<and> get_buf w32 = map Some (htoun32 (of_nat (wr_used w))) @ get_buf w"
  using increase_wrap [OF assms, of 1 "\<lambda>n. [of_nat n]"]
    increase_wrap [OF assms, of 2 "\<lambda>n. htoun16 (of_nat n)"]
    increase_wrap [OF assms, of 3 "\<lambda>n. tl (htoun32 (of_nat n))"]
    increase_wrap [OF assms, of 4 "\<lambda>n. htoun32 (of_nat n)"]
  unfolding wrap8_def wrap16_def wrap24_def wrap32_def by auto

theorem wrap_prepends_length_witness:
  "writer_wf (bio_writer_create 0) \<and>
   (\<exists>w. wrap16 (bio_writer_create 0) = Some w \<and> get_buf w = [Some 0, Some 0])"
proof -
  have "wr_used (bio_writer_create 0) = 0" by (simp add: bio_writer_create_def)
  with wrap_prepends_length [OF writer_wf_create, of 0] show ?thesis
    by (auto simp: htoun16_def)
qed


section \<open>Reading back what was written\<close>

text \<open>A message layout as the sequence of the calls that write it.\<close>

datatype field = U8 u8 | U16 u16 | U32 u32 | U64 u64 | D8 bytes | D16 bytes | D32 bytes

fun write_field :: "field \<Rightarrow> bio_writer \<Rightarrow> bio_writer option" where
  "write_field (U8 v) w = write_uint8 w v"
| "write_field (U16 v) w = write_uint16 w v"
| "write_field (U32 v) w = write_uint32 w v"
| "write_field (U64 v) w = write_uint64 w v"
| "write_field (D8 v) w = write_data8 w v"
| "write_field (D16 v) w = write_data16 w v"
| "write_field (D32 v) w = write_data32 w v"

fun write_fields :: "field list \<Rightarrow> bio_writer \<Rightarrow> bio_writer option" where
  "write_fields [] w = Some w"
| "write_fields (f # fs) w = write_field f w \<bind> write_fields fs"

text \<open>The calls that read a field of the same kind.\<close>

fun map_result :: "('a \<Rightarrow> 'b) \<Rightarrow> 'a read_result \<Rightarrow> 'b read_result" where
  "map_result g Fault = Fault"
| "map_result g (Fail r) = Fail r"
| "map_result g (Ok a r) = Ok (g a) r"

fun read_field :: "field \<Rightarrow> bio_reader \<Rightarrow> field read_result" where
  "read_field (U8 _) r = map_result U8 (read_uint8 r)"
| "read_field (U16 _) r = map_result U16 (read_uint16 r)"
| "read_field (U32 _) r = map_result U32 (read_uint32 r)"
| "read_field (U64 _) r = map_result U64 (read_uint64 r)"
| "read_field (D8 _) r = map_result D8 (read_data8 r)"
| "read_field (D16 _) r = map_result D16 (read_data16 r)"
| "read_field (D32 _) r = map_result D32 (read_data32 r)"

fun read_fields :: "field list \<Rightarrow> bio_reader \<Rightarrow> field list read_result" where
  "read_fields [] r = Ok [] r"
| "read_fields (k # ks) r =
     (case read_field k r of Fault \<Rightarrow> Fault | Fail r' \<Rightarrow> Fail r'
      | Ok f r' \<Rightarrow> map_result (\<lambda>fs. f # fs) (read_fields ks r'))"

text \<open>The length of a variable field has to fit into its prefix.\<close>

fun fits :: "field \<Rightarrow> bool" where
  "fits (D8 v) \<longleftrightarrow> length v < 2 ^ 8"
| "fits (D16 v) \<longleftrightarrow> length v < 2 ^ 16"
| "fits (D32 v) \<longleftrightarrow> length v < 2 ^ 32"
| "fits _ \<longleftrightarrow> True"

fun encoding :: "field \<Rightarrow> bytes" where
  "encoding (U8 v) = [v]"
| "encoding (U16 v) = htoun16 v"
| "encoding (U32 v) = htoun32 v"
| "encoding (U64 v) = htoun64 v"
| "encoding (D8 v) = of_nat (length v) # v"
| "encoding (D16 v) = htoun16 (of_nat (length v)) @ v"
| "encoding (D32 v) = htoun32 (of_nat (length v)) @ v"

lemma write_field_appends:
  assumes "writer_wf w"
  shows "\<exists>w'. write_field f w = Some w' \<and> writer_wf w' \<and>
    get_buf w' = get_buf w @ map Some (encoding f)"
proof (cases f)
  case (U8 v) with w8.appends [OF assms, of v] show ?thesis by auto
next
  case (U16 v) with w16.appends [OF assms, of v] show ?thesis by auto
next
  case (U32 v) with w32.appends [OF assms, of v] show ?thesis by auto
next
  case (U64 v) with w64.appends [OF assms, of v] show ?thesis by auto
next
  case (D8 v) with wd8.appends [OF assms, of v] show ?thesis by auto
next
  case (D16 v) with wd16.appends [OF assms, of v] show ?thesis by auto
next
  case (D32 v) with wd32.appends [OF assms, of v] show ?thesis by auto
qed

lemma write_fields_appends:
  assumes "writer_wf w"
  shows "\<exists>w'. write_fields fs w = Some w' \<and> writer_wf w' \<and>
    get_buf w' = get_buf w @ map Some (concat (map encoding fs))"
  using assms
proof (induction fs arbitrary: w)
  case (Cons f fs)
  obtain w1 where "write_field f w = Some w1" "writer_wf w1"
    "get_buf w1 = get_buf w @ map Some (encoding f)"
    using write_field_appends [OF Cons.prems] by blast
  with Cons.IH [of w1] show ?case by auto
qed simp

lemma ucast_of_nat_length:
  "n < 2 ^ 8 \<Longrightarrow> (ucast (of_nat n :: u8) :: u32) = of_nat n"
  "n < 2 ^ 16 \<Longrightarrow> (ucast (of_nat n :: u16) :: u32) = of_nat n"
  by (simp_all add: unsigned_of_nat take_bit_nat_eq_self)

lemma read_field_front:
  assumes r: "reader_wf r" and p: "peek r = encoding f @ rest" and fits: "fits f"
  shows "\<exists>r'. read_field f r = Ok f r' \<and> peek r' = rest \<and> reader_wf r'"
proof (cases f)
  case (U8 v)
  with p r8.reads_front [OF r, of "[v]" rest] show ?thesis
    by (auto simp: read_uint8_def)
next
  case (U16 v)
  with p r16.reads_front [OF r, of "htoun16 v" rest] show ?thesis
    by (auto simp: read_uint16_def)
next
  case (U32 v)
  with p r32.reads_front [OF r, of "htoun32 v" rest] show ?thesis
    by (auto simp: read_uint32_def)
next
  case (U64 v)
  with p r64.reads_front [OF r, of "htoun64 v" rest] show ?thesis
    by (auto simp: read_uint64_def)
next
  case (D8 v)
  obtain r1 where "read_uint8 r = Ok (of_nat (length v)) r1" "peek r1 = v @ rest" "reader_wf r1"
    using p D8 r8.reads_front [OF r, of "[of_nat (length v)]" "v @ rest"]
    by (auto simp: read_uint8_def)
  with D8 fits show ?thesis
    using read_data_front [of r1 v rest] by (auto simp: read_data8_def ucast_of_nat_length)
next
  case (D16 v)
  obtain r1 where "read_uint16 r = Ok (of_nat (length v)) r1" "peek r1 = v @ rest" "reader_wf r1"
    using p D16 r16.reads_front [OF r, of "htoun16 (of_nat (length v))" "v @ rest"]
    by (auto simp: read_uint16_def)
  with D16 fits show ?thesis
    using read_data_front [of r1 v rest] by (auto simp: read_data16_def ucast_of_nat_length)
next
  case (D32 v)
  obtain r1 where "read_uint32 r = Ok (of_nat (length v)) r1" "peek r1 = v @ rest" "reader_wf r1"
    using p D32 r32.reads_front [OF r, of "htoun32 (of_nat (length v))" "v @ rest"]
    by (auto simp: read_uint32_def)
  with D32 fits show ?thesis
    using read_data_front [of r1 v rest] by (auto simp: read_data32_def)
qed

lemma read_fields_front:
  assumes "reader_wf r" "peek r = concat (map encoding fs) @ rest" "list_all fits fs"
  shows "\<exists>r'. read_fields fs r = Ok fs r' \<and> peek r' = rest \<and> reader_wf r'"
  using assms
proof (induction fs arbitrary: r)
  case (Cons f fs)
  obtain r1 where "read_field f r = Ok f r1" "peek r1 = concat (map encoding fs) @ rest"
    "reader_wf r1"
    using read_field_front [of r f "concat (map encoding fs) @ rest"] Cons.prems by (auto simp del: read_field.simps)
  with Cons.IH [of r1] Cons.prems(3) show ?case by auto
qed simp



end
