(* ===== verification/Array.thy ===== *)
theory Array
  imports Prelude
begin

text \<open>
  The growable array of \<^verbatim>\<open>collections/array.c\<close>. Its allocated block is a list of
  element-sized cells, \<open>None\<close> being an uninitialised one; the used elements lie between
  unused ones at the head and at the tail, whose numbers are the source's 8-bit counters. The
  element count is a natural number: arrays of \<open>2\<^sup>3\<^sup>1\<close> elements and more are out of
  scope. The contract is that of a list (\<open>elements\<close>), stated by the locale
  \<open>list_store\<close>, in which the uses of an array as a queue are derived.
\<close>

section \<open>The array\<close>

record 'a array =
  ar_count :: nat
  ar_head :: u8
  ar_tail :: u8
  ar_data :: "'a option list"

definition ARRAY_HEAD :: int where "ARRAY_HEAD = 0"

definition ARRAY_TAIL :: int where "ARRAY_TAIL = -1"

definition ARRAY_MAX_UNUSED :: nat where "ARRAY_MAX_UNUSED = 32"

definition realloc_cells :: "'a option list \<Rightarrow> nat \<Rightarrow> 'a option list" where
  "realloc_cells d n = take n d @ replicate (n - length d) None"

definition make_tail_room :: "'a array \<Rightarrow> u8 \<Rightarrow> 'a array" where
  "make_tail_room a room =
     (if ar_tail a < room
      then a\<lparr>ar_data := realloc_cells (ar_data a) (ar_count a + unat (ar_head a) + unat room),
             ar_tail := room\<rparr>
      else a)"

definition make_head_room :: "'a array \<Rightarrow> u8 \<Rightarrow> 'a array option" where
  "make_head_room a room =
     (if ar_head a < room
      then let increase = room - ar_head a;
               d = realloc_cells (ar_data a) (ar_count a + unat (ar_tail a) + unat room)
           in do {
             d \<leftarrow> memmove d (unat increase) 0 (ar_count a + unat (ar_tail a) + unat (ar_head a));
             Some (a\<lparr>ar_data := d, ar_head := room\<rparr>)
           }
      else Some a)"

definition insert_tail :: "'a array \<Rightarrow> nat \<Rightarrow> 'a array option" where
  "insert_tail a idx =
     (let a = make_tail_room a 1; h = unat (ar_head a)
      in do {
        d \<leftarrow> memmove (ar_data a) (h + idx + 1) (h + idx) (ar_count a - idx);
        Some (a\<lparr>ar_data := d, ar_tail := ar_tail a - 1, ar_count := ar_count a + 1\<rparr>)
      })"

definition insert_head :: "'a array \<Rightarrow> nat \<Rightarrow> 'a array option" where
  "insert_head a idx = do {
     a \<leftarrow> make_head_room a 1;
     d \<leftarrow> memmove (ar_data a) (unat (ar_head a) - 1) (unat (ar_head a)) idx;
     Some (a\<lparr>ar_data := d, ar_head := ar_head a - 1, ar_count := ar_count a + 1\<rparr>)
   }"

definition remove_tail :: "'a array \<Rightarrow> nat \<Rightarrow> 'a array option" where
  "remove_tail a idx = do {
     d \<leftarrow> memmove (ar_data a) (idx + unat (ar_head a)) (idx + unat (ar_head a) + 1)
           (ar_count a - 1 - idx);
     Some (a\<lparr>ar_data := d, ar_count := ar_count a - 1, ar_tail := ar_tail a + 1\<rparr>)
   }"

definition remove_head :: "'a array \<Rightarrow> nat \<Rightarrow> 'a array option" where
  "remove_head a idx = do {
     d \<leftarrow> memmove (ar_data a) (unat (ar_head a) + 1) (unat (ar_head a)) idx;
     Some (a\<lparr>ar_data := d, ar_count := ar_count a - 1, ar_head := ar_head a + 1\<rparr>)
   }"

definition array_create :: "u8 \<Rightarrow> 'a array" where
  "array_create reserve =
     \<lparr>ar_count = 0, ar_head = 0, ar_tail = reserve, ar_data = replicate (unat reserve) None\<rparr>"

text \<open>Functions that accept a null pointer take an optional array.\<close>

definition array_count :: "'a array option \<Rightarrow> int" where
  "array_count array = (case array of None \<Rightarrow> 0 | Some a \<Rightarrow> int (ar_count a))"

definition array_compress :: "'a array \<Rightarrow> 'a array option" where
  "array_compress a = do {
     (a, tail) \<leftarrow>
       (if ar_head a \<noteq> 0
        then do {
          d \<leftarrow> memmove (ar_data a) 0 (unat (ar_head a)) (ar_count a + unat (ar_tail a));
          Some (a\<lparr>ar_data := d, ar_head := 0\<rparr>, unat (ar_tail a) + unat (ar_head a))
        }
        else Some (a, unat (ar_tail a)));
     if tail \<noteq> 0
     then Some (a\<lparr>ar_data := realloc_cells (ar_data a) (ar_count a), ar_tail := 0\<rparr>)
     else Some a
   }"

definition array_insert :: "'a array \<Rightarrow> int \<Rightarrow> 'a \<Rightarrow> 'a array option" where
  "array_insert a idx x =
     (if idx < 0 \<or> idx \<le> array_count (Some a)
      then let i = (if idx < 0 then ar_count a else nat idx)
           in do {
             a \<leftarrow> (if ar_head a \<noteq> 0 \<and> ar_tail a = 0 then insert_head a i
                   else if ar_tail a \<noteq> 0 \<and> ar_head a = 0 then insert_tail a i
                   else if i > ar_count a div 2 then insert_tail a i
                   else insert_head a i);
             d \<leftarrow> store (ar_data a) (unat (ar_head a) + i) [Some x];
             Some (a\<lparr>ar_data := d\<rparr>)
           }
      else Some a)"

definition array_insert_create :: "'a array option \<Rightarrow> int \<Rightarrow> 'a \<Rightarrow> 'a array option" where
  "array_insert_create array idx x =
     array_insert (case array of None \<Rightarrow> array_create 0 | Some a \<Rightarrow> a) idx x"

text \<open>\<open>None\<close>: \<open>FALSE\<close>; the outer \<open>None\<close> is an access outside the block.\<close>

definition array_get :: "'a array option \<Rightarrow> int \<Rightarrow> 'a option option" where
  "array_get array idx =
     (case array of
        None \<Rightarrow> Some None
      | Some a \<Rightarrow>
          if idx \<ge> 0 \<and> idx \<ge> array_count (Some a) then Some None
          else if idx < 0 \<and> array_count (Some a) = 0 then Some None
          else let i = (if idx < 0 then ar_count a - 1 else nat idx)
               in do {
                 cs \<leftarrow> load (ar_data a) (unat (ar_head a) + i) 1;
                 x \<leftarrow> hd cs;
                 Some (Some x)
               })"

definition array_remove :: "'a array \<Rightarrow> int \<Rightarrow> ('a option \<times> 'a array) option" where
  "array_remove a idx = do {
     r \<leftarrow> array_get (Some a) idx;
     case r of
       None \<Rightarrow> Some (None, a)
     | Some x \<Rightarrow>
         let i = (if idx < 0 then ar_count a - 1 else nat idx)
         in do {
           a \<leftarrow> (if i > ar_count a div 2 then remove_tail a i else remove_head a i);
           a \<leftarrow> (if unat (ar_head a) + unat (ar_tail a) > ARRAY_MAX_UNUSED then array_compress a
                 else Some a);
           Some (Some x, a)
         }
   }"

text \<open>An enumerator is the index of the next element.\<close>

definition array_enumerate :: "'a array \<Rightarrow> nat \<Rightarrow> ('a option \<times> nat) option" where
  "array_enumerate a idx =
     (if idx \<ge> ar_count a then Some (None, idx)
      else do {
        cs \<leftarrow> load (ar_data a) (idx + unat (ar_head a)) 1;
        x \<leftarrow> hd cs;
        Some (Some x, idx + 1)
      })"

definition array_remove_at :: "'a array \<Rightarrow> nat \<Rightarrow> ('a array \<times> nat) option" where
  "array_remove_at a idx =
     (if idx \<noteq> 0 then do { (_, a) \<leftarrow> array_remove a (int (idx - 1)); Some (a, idx - 1) }
      else Some (a, idx))"

fun array_insert_enumerator :: "'a array \<Rightarrow> int \<Rightarrow> 'a list \<Rightarrow> 'a array option" where
  "array_insert_enumerator a idx [] = Some a"
| "array_insert_enumerator a idx (x # xs) = do {
     a \<leftarrow> array_insert a idx x;
     array_insert_enumerator a idx xs
   }"

text \<open>The callback is applied to the elements and their indices, in this order.\<close>

definition array_invoke :: "'a array option \<Rightarrow> ('a \<times> nat) list option" where
  "array_invoke array =
     (case array of
        None \<Rightarrow> Some []
      | Some a \<Rightarrow> do {
          cs \<leftarrow> load (ar_data a) (unat (ar_head a)) (ar_count a);
          if None \<in> set cs then None else Some (zip (map the cs) [0 ..< ar_count a])
        })"

text \<open>
  \<^verbatim>\<open>bsearch\<close> of the C library over \<open>n\<close> elements; \<open>cmp\<close> compares the key
  with an element.
\<close>

function bsearch :: "('a \<Rightarrow> int) \<Rightarrow> 'a list \<Rightarrow> nat \<Rightarrow> nat \<Rightarrow> nat option" where
  "bsearch cmp xs l u =
     (if l < u
      then let idx = (l + u) div 2; c = cmp (xs ! idx)
           in if c < 0 then bsearch cmp xs l idx
              else if c > 0 then bsearch cmp xs (idx + 1) u
              else Some idx
      else None)"
  by pat_completeness auto
termination by (relation "measure (\<lambda>(cmp, xs, l, u). u - l)") (auto simp: Let_def)

declare bsearch.simps [simp del]

definition array_bsearch :: "'a array option \<Rightarrow> ('a \<Rightarrow> int) \<Rightarrow> (int \<times> 'a option) option" where
  "array_bsearch array cmp =
     (case array of
        None \<Rightarrow> Some (-1, None)
      | Some a \<Rightarrow> do {
          cs \<leftarrow> load (ar_data a) (unat (ar_head a)) (ar_count a);
          if None \<in> set cs then None
          else case bsearch cmp (map the cs) 0 (ar_count a) of
                 None \<Rightarrow> Some (-1, None)
               | Some i \<Rightarrow> Some (int i, Some (map the cs ! i))
        })"

text \<open>\<open>qsort\<close> stands for the sorting routine of the C library.\<close>

definition array_sort :: "('a list \<Rightarrow> 'a list) \<Rightarrow> 'a array \<Rightarrow> 'a array option" where
  "array_sort qsort a = do {
     cs \<leftarrow> load (ar_data a) (unat (ar_head a)) (ar_count a);
     if None \<in> set cs then None
     else do {
       d \<leftarrow> store (ar_data a) (unat (ar_head a)) (map Some (qsort (map the cs)));
       Some (a\<lparr>ar_data := d\<rparr>)
     }
   }"


section \<open>The list an array holds\<close>

definition elements :: "'a array \<Rightarrow> 'a list" where
  "elements a = map the (take (ar_count a) (drop (unat (ar_head a)) (ar_data a)))"

text \<open>
  The counters describe the block, the elements are initialised, and removing an element
  cannot overflow a counter.
\<close>

definition array_inv :: "'a array \<Rightarrow> bool" where
  "array_inv a \<longleftrightarrow>
     length (ar_data a) = unat (ar_head a) + ar_count a + unat (ar_tail a) \<and>
     None \<notin> set (take (ar_count a) (drop (unat (ar_head a)) (ar_data a))) \<and>
     unat (ar_head a) + unat (ar_tail a) + min 1 (ar_count a) \<le> 255"

definition insert_at :: "int \<Rightarrow> 'a \<Rightarrow> 'a list \<Rightarrow> 'a list" where
  "insert_at idx x xs =
     (if idx < 0 then xs @ [x]
      else if idx \<le> int (length xs) then take (nat idx) xs @ x # drop (nat idx) xs
      else xs)"

definition lookup_at :: "int \<Rightarrow> 'a list \<Rightarrow> 'a option" where
  "lookup_at idx xs =
     (if xs = [] \<or> idx \<ge> int (length xs) then None
      else if idx < 0 then Some (last xs) else Some (xs ! nat idx))"

definition remove_at :: "int \<Rightarrow> 'a list \<Rightarrow> 'a list" where
  "remove_at idx xs =
     (if idx < 0 then butlast xs else take (nat idx) xs @ drop (nat idx + 1) xs)"

text \<open>Sequences of operations, on an array and on a list.\<close>

datatype 'a seq_op = Insert int 'a | Remove int | Get int

fun run_ops :: "('s \<Rightarrow> int \<Rightarrow> 'a \<Rightarrow> 's option) \<Rightarrow> ('s \<Rightarrow> int \<Rightarrow> ('a option \<times> 's) option) \<Rightarrow>
    ('s \<Rightarrow> int \<Rightarrow> 'a option option) \<Rightarrow> 's \<Rightarrow> 'a seq_op list \<Rightarrow> ('a option list \<times> 's) option" where
  "run_ops ins rem gt s [] = Some ([], s)"
| "run_ops ins rem gt s (Insert i x # ops) = do { s \<leftarrow> ins s i x; run_ops ins rem gt s ops }"
| "run_ops ins rem gt s (Remove i # ops) = do {
     (r, s) \<leftarrow> rem s i;
     (rs, s) \<leftarrow> run_ops ins rem gt s ops;
     Some (r # rs, s)
   }"
| "run_ops ins rem gt s (Get i # ops) = do {
     r \<leftarrow> gt s i;
     (rs, s) \<leftarrow> run_ops ins rem gt s ops;
     Some (r # rs, s)
   }"

fun list_ops :: "'a list \<Rightarrow> 'a seq_op list \<Rightarrow> 'a option list \<times> 'a list" where
  "list_ops xs [] = ([], xs)"
| "list_ops xs (Insert i x # ops) = list_ops (insert_at i x xs) ops"
| "list_ops xs (Remove i # ops) =
     (let r = lookup_at i xs; (rs, ys) = list_ops (if r = None then xs else remove_at i xs) ops
      in (r # rs, ys))"
| "list_ops xs (Get i # ops) = (let (rs, ys) = list_ops xs ops in (lookup_at i xs # rs, ys))"

text \<open>
  The loop by which users of an array drop elements: enumerate, and remove the element just
  enumerated if it is to go. The first argument bounds the iterations.
\<close>

fun purge :: "nat \<Rightarrow> ('a \<Rightarrow> bool) \<Rightarrow> 'a array \<Rightarrow> nat \<Rightarrow> 'a array option" where
  "purge 0 P a idx = None"
| "purge (Suc n) P a idx = do {
     (r, idx) \<leftarrow> array_enumerate a idx;
     case r of
       None \<Rightarrow> Some a
     | Some x \<Rightarrow>
         if P x then do { (a, idx) \<leftarrow> array_remove_at a idx; purge n P a idx }
         else purge n P a idx
   }"

text \<open>
  The block of an array as its three parts: it is what the counters say exactly if the
  elements lie between \<open>head\<close> and \<open>tail\<close> cells.
\<close>

lemma array_inv_iff:
  "array_inv a \<longleftrightarrow> (\<exists>hs ts. ar_data a = hs @ map Some (elements a) @ ts \<and>
     length hs = unat (ar_head a) \<and> length ts = unat (ar_tail a) \<and>
     length (elements a) = ar_count a \<and>
     unat (ar_head a) + unat (ar_tail a) + min 1 (ar_count a) \<le> 255)"
proof
  assume inv: "array_inv a"
  let ?h = "unat (ar_head a)" and ?d = "ar_data a" and ?n = "ar_count a"
  have "map Some (elements a) = take ?n (drop ?h ?d)"
    using inv unfolding elements_def array_inv_def
    by (auto simp: in_set_conv_nth intro!: nth_equalityI)
  then have "?d = take ?h ?d @ map Some (elements a) @ drop (?h + ?n) ?d"
    by (metis append_take_drop_id drop_drop add.commute)
  then show "\<exists>hs ts. ?d = hs @ map Some (elements a) @ ts \<and> length hs = ?h \<and>
      length ts = unat (ar_tail a) \<and> length (elements a) = ?n \<and>
      ?h + unat (ar_tail a) + min 1 ?n \<le> 255"
    using inv by (intro exI [of _ "take ?h ?d"] exI [of _ "drop (?h + ?n) ?d"])
      (simp add: array_inv_def elements_def)
qed (auto simp: array_inv_def)

lemma elements_of_parts:
  assumes "ar_data a = hs @ map Some xs @ ts" "length hs = unat (ar_head a)" "length xs = ar_count a"
  shows "elements a = xs"
  using assms by (simp add: elements_def comp_def)

lemma array_invI:
  assumes "ar_data a = hs @ map Some xs @ ts" "length hs = unat (ar_head a)"
    "length ts = unat (ar_tail a)" "length xs = ar_count a"
    "unat (ar_head a) + unat (ar_tail a) + min 1 (ar_count a) \<le> 255"
  shows "array_inv a \<and> elements a = xs"
  using assms elements_of_parts [OF assms(1,2,4)] by (auto simp: array_inv_iff)

text \<open>An array with room for a new element at index \<open>i\<close>, whose cell is arbitrary.\<close>

definition opened :: "'a list \<Rightarrow> nat \<Rightarrow> 'a array \<Rightarrow> bool" where
  "opened xs i a \<longleftrightarrow> (\<exists>hs c ts.
     ar_data a = hs @ map Some (take i xs) @ c # map Some (drop i xs) @ ts \<and>
     length hs = unat (ar_head a) \<and> length ts = unat (ar_tail a) \<and>
     ar_count a = length xs + 1 \<and> unat (ar_head a) + unat (ar_tail a) \<le> 254)"

lemma unat_pred: "(w :: u8) \<noteq> 0 \<Longrightarrow> unat (w - 1) = unat w - 1"
  by (metis unat_minus_one)

lemma unat_succ: "unat (w :: u8) < 255 \<Longrightarrow> unat (w + 1) = unat w + 1"
  by (simp add: unat_word_ariths)

lemma memmove_up:
  assumes "t \<noteq> []" "i \<le> length ys"
  shows "memmove (h @ ys @ t) (length h + i + 1) (length h + i) (length ys - i) =
    Some (h @ take i ys @ (ys @ t) ! i # drop i ys @ tl t)"
proof -
  have "take (length h + i + 1) (h @ ys @ t) = h @ take i ys @ [(ys @ t) ! i]"
    using assms by (simp add: take_Suc_conv_app_nth nth_append)
  moreover have "drop (length h + length ys + 1) (h @ ys @ t) = tl t"
    using assms by (simp add: drop_Suc)
  ultimately show ?thesis using assms by (cases t) auto
qed

lemma insert_tail_opened:
  assumes inv: "array_inv a" and i: "i \<le> ar_count a" and room: "ar_tail a = 0 \<Longrightarrow> ar_head a = 0"
  shows "\<exists>a'. insert_tail a i = Some a' \<and> opened (elements a) i a'"
proof -
  let ?b = "make_tail_room a 1" and ?xs = "elements a"
  obtain hs ts where p: "ar_data a = hs @ map Some ?xs @ ts" "length hs = unat (ar_head a)"
    "length ts = unat (ar_tail a)" "length ?xs = ar_count a"
    "unat (ar_head a) + unat (ar_tail a) + min 1 (ar_count a) \<le> 255"
    using inv by (auto simp: array_inv_iff)
  have "\<exists>ts'. ar_data ?b = hs @ map Some ?xs @ ts' \<and> length ts' = unat (ar_tail ?b) \<and> ts' \<noteq> [] \<and>
    ar_head ?b = ar_head a \<and> ar_count ?b = ar_count a \<and> ar_tail ?b \<noteq> 0 \<and>
    unat (ar_head a) + unat (ar_tail ?b) \<le> 255"
  proof (cases "ar_tail a = 0")
    case True
    then have "?b = a\<lparr>ar_data := ar_data a @ [None], ar_tail := 1\<rparr>"
      using p by (simp add: make_tail_room_def realloc_cells_def)
    then show ?thesis using True p room by simp
  next
    case False
    then have "?b = a" by (simp add: make_tail_room_def word_less_nat_alt unat_eq_0)
    then show ?thesis using False p by (auto simp: unat_eq_0)
  qed
  then obtain ts' where b: "ar_data ?b = hs @ map Some ?xs @ ts'" "length ts' = unat (ar_tail ?b)"
    "ts' \<noteq> []" "ar_head ?b = ar_head a" "ar_count ?b = ar_count a" "ar_tail ?b \<noteq> 0"
    "unat (ar_head a) + unat (ar_tail ?b) \<le> 255" by blast
  let ?d = "hs @ take i (map Some ?xs) @ (map Some ?xs @ ts') ! i # drop i (map Some ?xs) @ tl ts'"
  let ?a = "?b\<lparr>ar_data := ?d, ar_tail := ar_tail ?b - 1, ar_count := ar_count ?b + 1\<rparr>"
  have "insert_tail a i = Some ?a"
    using memmove_up [OF b(3), of i "map Some ?xs" hs] i p(2,4) b(1,4,5)
    by (simp add: insert_tail_def Let_def)
  moreover have "unat (ar_tail ?b) > 0" using b(6) by (simp add: unat_eq_0 word_neq_0_conv [symmetric] unat_gt_0)
  then have "opened ?xs i ?a"
    unfolding opened_def using p(2,4) b(2,4-7)
    by (intro exI [of _ hs] exI [of _ "(map Some ?xs @ ts') ! i"] exI [of _ "tl ts'"])
      (simp add: take_map drop_map unat_pred)
  ultimately show ?thesis by blast
qed

lemma memmove_down:
  assumes "h \<noteq> []" "i \<le> length ys"
  shows "memmove (h @ ys) (length h - 1) (length h) i =
    Some (butlast h @ take i ys @ (last h # ys) ! i # drop i ys)"
proof -
  have h: "h = butlast h @ [last h]" using assms by simp
  have "length h - 1 + i = length (butlast h) + i" by simp
  then have "drop (length h - 1 + i) (h @ ys) = drop i (last h # ys)"
    by (subst h) (simp del: append_butlast_last_id)
  also have "\<dots> = (last h # ys) ! i # drop i ys"
    using assms by (metis Cons_nth_drop_Suc drop_Suc_Cons le_imp_less_Suc length_Cons)
  finally show ?thesis using assms by (simp add: take_butlast butlast_conv_take)
qed

lemma take_1_snoc: "take 1 (ys @ [c]) = [hd (ys @ [c])]"
  by (cases ys) auto

lemma insert_head_opened:
  assumes inv: "array_inv a" and i: "i \<le> ar_count a" and room: "ar_head a = 0 \<Longrightarrow> ar_tail a = 0"
  shows "\<exists>a'. insert_head a i = Some a' \<and> opened (elements a) i a'"
proof -
  let ?xs = "elements a"
  obtain hs ts where p: "ar_data a = hs @ map Some ?xs @ ts" "length hs = unat (ar_head a)"
    "length ts = unat (ar_tail a)" "length ?xs = ar_count a"
    "unat (ar_head a) + unat (ar_tail a) + min 1 (ar_count a) \<le> 255"
    using inv by (auto simp: array_inv_iff)
  have "\<exists>b hs'. make_head_room a 1 = Some b \<and> ar_data b = hs' @ map Some ?xs @ ts \<and>
    length hs' = unat (ar_head b) \<and> hs' \<noteq> [] \<and> ar_tail b = ar_tail a \<and> ar_count b = ar_count a \<and>
    ar_head b \<noteq> 0 \<and> unat (ar_head b) + unat (ar_tail a) \<le> 255"
  proof (cases "ar_head a = 0")
    case True
    let ?c = "hd (ar_data a @ [None])"
    have d: "length (ar_data a) = ar_count a" using True p room by simp
    have "memmove (ar_data a @ [None]) 1 0 (ar_count a) = Some (take 1 (ar_data a @ [None]) @ ar_data a)"
      using d by simp
    then have "make_head_room a 1 = Some (a\<lparr>ar_data := [?c] @ ar_data a, ar_head := 1\<rparr>)"
      using True p room d unfolding take_1_snoc
      by (simp add: make_head_room_def realloc_cells_def Let_def del: memmove_within)
    then show ?thesis using True p room
      by (intro exI [of _ "a\<lparr>ar_data := [?c] @ ar_data a, ar_head := 1\<rparr>"] exI [of _ "[?c]"]) simp
  next
    case False
    then have "make_head_room a 1 = Some a" by (simp add: make_head_room_def word_less_nat_alt unat_eq_0)
    then show ?thesis using False p by (auto simp: unat_eq_0)
  qed
  then obtain b hs' where b: "make_head_room a 1 = Some b" "ar_data b = hs' @ map Some ?xs @ ts"
    "length hs' = unat (ar_head b)" "hs' \<noteq> []" "ar_tail b = ar_tail a" "ar_count b = ar_count a"
    "ar_head b \<noteq> 0" "unat (ar_head b) + unat (ar_tail a) \<le> 255" by blast
  let ?ys = "map Some ?xs @ ts"
  let ?d = "butlast hs' @ take i ?ys @ (last hs' # ?ys) ! i # drop i ?ys"
  let ?a = "b\<lparr>ar_data := ?d, ar_head := ar_head b - 1, ar_count := ar_count b + 1\<rparr>"
  have "insert_head a i = Some ?a"
    using memmove_down [OF b(4), of i ?ys] i p(4) b(1,2,3) by (simp add: insert_head_def)
  moreover have "unat (ar_head b) > 0" using b(7) by (simp add: unat_gt_0)
  then have "opened ?xs i ?a"
    unfolding opened_def using p(3,4) i b
    by (intro exI [of _ "butlast hs'"] exI [of _ "(last hs' # ?ys) ! i"] exI [of _ ts])
      (simp add: take_map drop_map unat_pred)
  ultimately show ?thesis by blast
qed

lemma array_insert_list:
  assumes "array_inv a"
  shows "\<exists>a'. array_insert a idx x = Some a' \<and> array_inv a' \<and>
    elements a' = insert_at idx x (elements a)"
proof (cases "idx < 0 \<or> idx \<le> int (ar_count a)")
  case True
  let ?xs = "elements a" and ?i = "if idx < 0 then ar_count a else nat idx"
  have len: "length ?xs = ar_count a" using assms by (auto simp: array_inv_iff)
  have i: "?i \<le> ar_count a" using True by auto
  have "\<exists>b. (if ar_head a \<noteq> 0 \<and> ar_tail a = 0 then insert_head a ?i
        else if ar_tail a \<noteq> 0 \<and> ar_head a = 0 then insert_tail a ?i
        else if ?i > ar_count a div 2 then insert_tail a ?i else insert_head a ?i) = Some b \<and>
      opened ?xs ?i b" (is "\<exists>b. ?open = Some b \<and> _")
    using insert_head_opened [OF assms i] insert_tail_opened [OF assms i] by auto
  then obtain b hs c ts where b: "?open = Some b"
    "ar_data b = hs @ map Some (take ?i ?xs) @ c # map Some (drop ?i ?xs) @ ts"
    "length hs = unat (ar_head b)" "length ts = unat (ar_tail b)"
    "ar_count b = length ?xs + 1" "unat (ar_head b) + unat (ar_tail b) \<le> 254"
    unfolding opened_def by blast
  let ?ys = "take ?i ?xs @ x # drop ?i ?xs"
  let ?a = "b\<lparr>ar_data := hs @ map Some ?ys @ ts\<rparr>"
  have "length (take ?i ?xs) = ?i" using i len by simp
  then have "store (ar_data b) (unat (ar_head b) + ?i) [Some x] = Some (ar_data ?a)"
    using b(2,3) by (simp add: store_def)
  then have "array_insert a idx x = Some ?a"
    using True b(1) by (simp add: array_insert_def array_count_def Let_def split del: if_split)
  moreover have "array_inv ?a \<and> elements ?a = ?ys"
    by (rule array_invI [of _ hs _ ts]) (use b i len in auto)
  moreover have "?ys = insert_at idx x ?xs" using True len by (auto simp: insert_at_def)
  ultimately show ?thesis by auto
next
  case False
  moreover have "length (elements a) = ar_count a" using assms by (auto simp: array_inv_iff)
  ultimately show ?thesis using assms
    by (auto simp: array_insert_def array_count_def insert_at_def)
qed

lemma array_get_list:
  assumes "array_inv a"
  shows "array_get (Some a) idx = Some (lookup_at idx (elements a))"
proof -
  obtain hs ts where p: "ar_data a = hs @ map Some (elements a) @ ts" "length hs = unat (ar_head a)"
    "length (elements a) = ar_count a"
    using assms by (auto simp: array_inv_iff)
  have "load (ar_data a) (unat (ar_head a) + i) 1 = Some [Some (elements a ! i)]" if "i < ar_count a" for i
    using p that by (simp add: load_def take_Suc_conv_app_nth nth_append hd_drop_conv_nth take_Suc)
  moreover have "elements a \<noteq> [] \<longleftrightarrow> 0 < ar_count a" using p(3) by (metis length_greater_0_conv)
  ultimately show ?thesis using p(3)
    by (auto simp: array_get_def array_count_def lookup_at_def Let_def last_conv_nth nat_less_iff
        simp del: load_within)
qed

lemma array_compress_list:
  assumes "length (ar_data a) = unat (ar_head a) + ar_count a + unat (ar_tail a)"
    "ar_data a = hs @ map Some xs @ ts" "length hs = unat (ar_head a)" "length xs = ar_count a"
  shows "\<exists>a'. array_compress a = Some a' \<and> array_inv a' \<and> elements a' = xs"
proof -
  let ?b = "a\<lparr>ar_data := map Some xs, ar_head := 0, ar_tail := 0\<rparr>"
  have ts: "length ts = unat (ar_tail a)" using assms by simp
  have "memmove (ar_data a) 0 (unat (ar_head a)) (ar_count a + unat (ar_tail a)) =
      Some (map Some xs @ ts @ drop (length xs + length ts) (ar_data a))"
    using assms ts by (simp add: add.commute)
  then have "array_compress a = Some ?b"
    using assms ts by (auto simp: array_compress_def realloc_cells_def unat_eq_0)
  moreover have "array_inv ?b \<and> elements ?b = xs"
    by (rule array_invI [of _ "[]" _ "[]"]) (use assms in auto)
  ultimately show ?thesis by blast
qed

lemma remove_tail_parts:
  assumes "ar_data a = hs @ map Some xs @ ts" "length hs = unat (ar_head a)" "length xs = ar_count a"
    "i < length xs"
  shows "\<exists>c. remove_tail a i = Some (a\<lparr>ar_data := hs @ map Some (take i xs @ drop (i + 1) xs) @ c # ts,
    ar_count := ar_count a - 1, ar_tail := ar_tail a + 1\<rparr>)"
proof -
  have "take (i + length hs) (ar_data a) = hs @ map Some (take i xs)"
    using assms by (simp add: take_map)
  moreover have "take (length xs - 1 - i) (drop (i + length hs + 1) (ar_data a)) = map Some (drop (i + 1) xs)"
    using assms by (simp add: drop_map)
  moreover have "drop (i + length hs + (length xs - 1 - i)) (ar_data a) = Some (last xs) # ts"
    using assms by (cases xs rule: rev_cases) (auto simp: drop_map)
  ultimately show ?thesis using assms
    by (intro exI [of _ "Some (last xs)"]) (simp add: remove_tail_def)
qed

lemma remove_head_parts:
  assumes "ar_data a = hs @ map Some xs @ ts" "length hs = unat (ar_head a)" "length xs = ar_count a"
    "i < length xs"
  shows "\<exists>c. remove_head a i = Some (a\<lparr>ar_data := (hs @ [c]) @ map Some (take i xs @ drop (i + 1) xs) @ ts,
    ar_count := ar_count a - 1, ar_head := ar_head a + 1\<rparr>)"
proof -
  have "take (length hs + 1) (ar_data a) = hs @ [Some (hd xs)]"
    using assms by (cases xs) auto
  moreover have "take i (drop (length hs) (ar_data a)) = map Some (take i xs)"
    using assms by (simp add: take_map)
  moreover have "drop (length hs + 1 + i) (ar_data a) = map Some (drop (i + 1) xs) @ ts"
    using assms by (simp add: drop_map)
  ultimately show ?thesis using assms
    by (intro exI [of _ "Some (hd xs)"]) (simp add: remove_head_def)
qed

lemma array_remove_list:
  assumes inv: "array_inv a"
  shows "\<exists>a'. array_remove a idx = Some (lookup_at idx (elements a), a') \<and> array_inv a' \<and>
    elements a' = (if lookup_at idx (elements a) = None then elements a
                   else remove_at idx (elements a))"
proof (cases "lookup_at idx (elements a)")
  case None
  then show ?thesis using inv by (simp add: array_remove_def array_get_list [OF inv])
next
  case (Some x)
  let ?xs = "elements a" and ?i = "if idx < 0 then ar_count a - 1 else nat idx"
  obtain hs ts where p: "ar_data a = hs @ map Some ?xs @ ts" "length hs = unat (ar_head a)"
    "length ts = unat (ar_tail a)" "length ?xs = ar_count a"
    "unat (ar_head a) + unat (ar_tail a) + min 1 (ar_count a) \<le> 255"
    using inv by (auto simp: array_inv_iff)
  have i: "?i < length ?xs"
    using Some p(4) by (cases "elements a") (auto simp: lookup_at_def split: if_splits)
  let ?ys = "take ?i ?xs @ drop (?i + 1) ?xs"
  have ys: "?ys = remove_at idx ?xs" "length ?ys = ar_count a - 1"
    using i p(4) by (auto simp: remove_at_def butlast_conv_take)
  have bound: "unat (ar_head a) + unat (ar_tail a) \<le> 254" using p(4,5) i by simp
  have "\<exists>b hs' ts'. (if ?i > ar_count a div 2 then remove_tail a ?i else remove_head a ?i) = Some b \<and>
      ar_data b = hs' @ map Some ?ys @ ts' \<and> length hs' = unat (ar_head b) \<and>
      length ts' = unat (ar_tail b) \<and> ar_count b = ar_count a - 1 \<and>
      unat (ar_head b) + unat (ar_tail b) \<le> 255" (is "\<exists>b hs' ts'. ?cut = Some b \<and> _")
  proof (cases "?i > ar_count a div 2")
    case True
    moreover obtain c where "remove_tail a ?i = Some (a\<lparr>ar_data := hs @ map Some ?ys @ c # ts,
        ar_count := ar_count a - 1, ar_tail := ar_tail a + 1\<rparr>)" (is "_ = Some ?b")
      using remove_tail_parts [OF p(1,2,4) i] by blast
    ultimately have "?cut = Some ?b" by (simp only: if_True)
    then show ?thesis using p(2,3) bound
      by (intro exI [of _ ?b] exI [of _ hs] exI [of _ "c # ts"]) (simp add: unat_succ split del: if_split)
  next
    case False
    moreover obtain c where "remove_head a ?i = Some (a\<lparr>ar_data := (hs @ [c]) @ map Some ?ys @ ts,
        ar_count := ar_count a - 1, ar_head := ar_head a + 1\<rparr>)" (is "_ = Some ?b")
      using remove_head_parts [OF p(1,2,4) i] by blast
    ultimately have "?cut = Some ?b" by (simp only: if_False)
    then show ?thesis using p(2,3) bound
      by (intro exI [of _ ?b] exI [of _ "hs @ [c]"] exI [of _ ts]) (simp add: unat_succ split del: if_split)
  qed
  then obtain b hs' ts' where b: "?cut = Some b" "ar_data b = hs' @ map Some ?ys @ ts'"
    "length hs' = unat (ar_head b)" "length ts' = unat (ar_tail b)" "ar_count b = ar_count a - 1"
    "unat (ar_head b) + unat (ar_tail b) \<le> 255" by blast
  have "\<exists>a'. (if unat (ar_head b) + unat (ar_tail b) > ARRAY_MAX_UNUSED then array_compress b
      else Some b) = Some a' \<and> array_inv a' \<and> elements a' = ?ys"
  proof (cases "unat (ar_head b) + unat (ar_tail b) > ARRAY_MAX_UNUSED")
    case True
    have len: "length ?ys = ar_count b" using b(5) ys(2) by (simp only:)
    have "length (ar_data b) = unat (ar_head b) + ar_count b + unat (ar_tail b)"
      unfolding b(2) using b(3,4) len by (simp only: length_append length_map)
    from array_compress_list [OF this b(2,3) len] True show ?thesis by (simp only: if_True)
  next
    case False
    have "array_inv b \<and> elements b = ?ys"
      by (rule array_invI [OF b(2-4)]) (use b(5) ys(2) False in \<open>auto simp: ARRAY_MAX_UNUSED_def min_def simp del: length_append\<close>)
    with False show ?thesis by (simp only: if_False) blast
  qed
  then show ?thesis using Some b(1) ys(1)
    by (auto simp: array_remove_def array_get_list [OF inv] Let_def split del: if_split)
qed


section \<open>The contract, and what it gives\<close>

locale list_store =
  fixes ins :: "'s \<Rightarrow> int \<Rightarrow> 'a \<Rightarrow> 's option"
    and rem :: "'s \<Rightarrow> int \<Rightarrow> ('a option \<times> 's) option"
    and gt :: "'s \<Rightarrow> int \<Rightarrow> 'a option option"
    and els :: "'s \<Rightarrow> 'a list"
    and inv :: "'s \<Rightarrow> bool"
  assumes ins_law: "inv s \<Longrightarrow> \<exists>s'. ins s i x = Some s' \<and> inv s' \<and> els s' = insert_at i x (els s)"
    and rem_law: "inv s \<Longrightarrow> \<exists>s'. rem s i = Some (lookup_at i (els s), s') \<and> inv s' \<and>
      els s' = (if lookup_at i (els s) = None then els s else remove_at i (els s))"
    and gt_law: "inv s \<Longrightarrow> gt s i = Some (lookup_at i (els s))"
begin

lemma simulates:
  "inv s \<Longrightarrow> \<exists>s'. run_ops ins rem gt s ops = Some (fst (list_ops (els s) ops), s') \<and> inv s' \<and>
    els s' = snd (list_ops (els s) ops)"
proof (induction "els s" ops arbitrary: s rule: list_ops.induct)
  case (2 i x ops)
  obtain s' where "ins s i x = Some s'" "inv s'" "els s' = insert_at i x (els s)"
    using ins_law [OF 2(2)] by blast
  then show ?case using 2(1) [of s'] by simp
next
  case (3 i ops)
  obtain s' where "rem s i = Some (lookup_at i (els s), s')" "inv s'"
    "els s' = (if lookup_at i (els s) = None then els s else remove_at i (els s))"
    using rem_law [OF 3(2)] by blast
  then show ?case using 3(1) [OF refl, of s'] by (auto simp: Let_def split: prod.splits)
next
  case (4 i ops)
  obtain s' where "run_ops ins rem gt s ops = Some (fst (list_ops (els s) ops), s')" "inv s'"
    "els s' = snd (list_ops (els s) ops)" using 4(1) [OF refl 4(2)] by blast
  then show ?case by (simp add: gt_law [OF 4(2)] Let_def case_prod_unfold)
qed auto

text \<open>Appending and taking from the front is a first-in first-out queue.\<close>

lemma append_law: "inv s \<Longrightarrow> \<exists>s'. ins s (-1) x = Some s' \<and> inv s' \<and> els s' = els s @ [x]"
  using ins_law [of s "-1" x] by (simp add: insert_at_def)

lemma dequeue_law:
  "inv s \<Longrightarrow> els s = x # xs \<Longrightarrow> \<exists>s'. rem s 0 = Some (Some x, s') \<and> inv s' \<and> els s' = xs"
  using rem_law [of s 0] by (simp add: lookup_at_def remove_at_def)

lemma dequeue_empty: "inv s \<Longrightarrow> els s = [] \<Longrightarrow> \<exists>s'. rem s 0 = Some (None, s') \<and> inv s' \<and> els s' = []"
  using rem_law [of s 0] by (simp add: lookup_at_def)

end

interpretation ar: list_store array_insert array_remove "\<lambda>a. array_get (Some a)" elements array_inv
  by unfold_locales (rule array_insert_list array_remove_list array_get_list, assumption)+

lemma array_inv_create: "array_inv (array_create reserve)"
  and elements_create: "elements (array_create reserve) = []"
proof -
  have "unat reserve < 256" using unsigned_less [where ?'a = nat, of reserve] by simp
  then show "array_inv (array_create reserve)" by (simp add: array_inv_def array_create_def)
qed (simp add: array_create_def elements_def)

text \<open>
  C4. Over every sequence of insertions, removals and lookups at any index, an array behaves
  like the list of its elements: it returns the same values, never accesses memory outside
  its block or uninitialised memory, and its 8-bit counters of unused cells never wrap.
\<close>

theorem array_simulates_list:
  "\<exists>a'. run_ops array_insert array_remove (\<lambda>a. array_get (Some a)) (array_create reserve) ops =
      Some (fst (list_ops [] ops), a') \<and>
    elements a' = snd (list_ops [] ops) \<and> array_inv a'"
  using ar.simulates [OF array_inv_create, of reserve ops] unfolding elements_create by blast

lemma array_enumerate_list:
  assumes "array_inv a"
  shows "array_enumerate a i = Some (if i < length (elements a) then (Some (elements a ! i), i + 1) else (None, i))"
proof -
  obtain hs ts where p: "ar_data a = hs @ map Some (elements a) @ ts" "length hs = unat (ar_head a)"
    "length (elements a) = ar_count a"
    using assms by (auto simp: array_inv_iff)
  have "load (ar_data a) (i + unat (ar_head a)) 1 = Some [Some (elements a ! i)]" if "i < ar_count a"
    using p that by (simp add: load_def take_Suc_conv_app_nth nth_append hd_drop_conv_nth take_Suc)
  then show ?thesis using p(3) by (simp add: array_enumerate_def del: load_within)
qed

lemma array_remove_at_list:
  assumes "array_inv a" "i < length (elements a)"
  shows "\<exists>a'. array_remove_at a (i + 1) = Some (a', i) \<and> array_inv a' \<and>
    elements a' = take i (elements a) @ drop (i + 1) (elements a)"
proof -
  have "lookup_at (int i) (elements a) \<noteq> None" using assms(2) by (auto simp: lookup_at_def)
  then show ?thesis using array_remove_list [OF assms(1), of "int i"]
    by (auto simp: array_remove_at_def remove_at_def)
qed

text \<open>
  C14. Removing elements while enumerating an array terminates after looking at each element
  once and leaves exactly the elements that were not to go, in their order.
\<close>

theorem purge_filters:
  assumes "array_inv a" "length (elements a) - i < n" "i \<le> length (elements a)"
  shows "\<exists>a'. purge n P a i = Some a' \<and> array_inv a' \<and>
    elements a' = take i (elements a) @ filter (\<lambda>x. \<not> P x) (drop i (elements a))"
  using assms
proof (induction n arbitrary: a i)
  case (Suc n)
  show ?case
  proof (cases "i < length (elements a)")
    case True
    let ?x = "elements a ! i"
    have d: "drop i (elements a) = ?x # drop (i + 1) (elements a)"
      using True by (simp add: Cons_nth_drop_Suc)
    show ?thesis
    proof (cases "P ?x")
      case P: True
      obtain b where b: "array_remove_at a (i + 1) = Some (b, i)" "array_inv b"
        "elements b = take i (elements a) @ drop (i + 1) (elements a)"
        using array_remove_at_list [OF Suc.prems(1) True] by blast
      have "\<exists>a'. purge n P b i = Some a' \<and> array_inv a' \<and>
          elements a' = take i (elements b) @ filter (\<lambda>x. \<not> P x) (drop i (elements b))"
        using Suc.IH [OF b(2), of i] b(3) Suc.prems(2) True by simp
      then show ?thesis using b True P d
        by (simp add: array_enumerate_list [OF Suc.prems(1)])
    next
      case False
      have "\<exists>a'. purge n P a (i + 1) = Some a' \<and> array_inv a' \<and>
          elements a' = take (i + 1) (elements a) @ filter (\<lambda>x. \<not> P x) (drop (i + 1) (elements a))"
        using Suc.IH [OF Suc.prems(1), of "i + 1"] Suc.prems(2) True by simp
      then show ?thesis using True False d
        by (simp add: array_enumerate_list [OF Suc.prems(1)] take_Suc_conv_app_nth)
    qed
  next
    case False
    then show ?thesis using Suc.prems
      by (simp add: array_enumerate_list [OF Suc.prems(1)])
  qed
qed simp

theorem purge_filters_witness:
  "\<exists>a b. array_insert_enumerator (array_create 0) ARRAY_TAIL [3, 8, 5, 10 :: nat] = Some a \<and>
     purge 5 even a 0 = Some b \<and> elements b = [3, 5]"
proof -
  let ?a = "the (array_insert_enumerator (array_create 0) ARRAY_TAIL [3, 8, 5, 10 :: nat])"
  have a: "array_insert_enumerator (array_create 0) ARRAY_TAIL [3, 8, 5, 10 :: nat] = Some ?a"
    "array_inv ?a" "elements ?a = [3, 8, 5, 10]"
    by code_simp+
  with purge_filters [OF a(2), of 0 5 even] show ?thesis by auto
qed


section \<open>Searching\<close>

text \<open>The sign of the comparison does not increase along the array: it is sorted.\<close>

definition sorted_for :: "('a \<Rightarrow> int) \<Rightarrow> 'a list \<Rightarrow> bool" where
  "sorted_for cmp xs \<longleftrightarrow> sorted_wrt (\<lambda>x y. sgn (cmp y) \<le> sgn (cmp x)) xs"

lemma bsearch_spec:
  "u \<le> length xs \<Longrightarrow> sorted_for cmp xs \<Longrightarrow>
   case bsearch cmp xs l u of
      None \<Rightarrow> \<forall>i. l \<le> i \<and> i < u \<longrightarrow> cmp (xs ! i) \<noteq> 0
    | Some i \<Rightarrow> l \<le> i \<and> i < u \<and> cmp (xs ! i) = 0"
proof (induction cmp xs l u rule: bsearch.induct)
  case (1 cmp xs l u)
  let ?m = "(l + u) div 2"
  have mono: "sgn (cmp (xs ! j)) \<le> sgn (cmp (xs ! i))" if "i \<le> j" "j < length xs" for i j
    using 1(4) that by (cases "i = j") (auto simp: sorted_for_def sorted_wrt_iff_nth_less)
  consider "u \<le> l" | "l < u" "cmp (xs ! ?m) < 0" | "l < u" "cmp (xs ! ?m) > 0"
    | "l < u" "cmp (xs ! ?m) = 0" by linarith
  then show ?case
  proof cases
    case 2
    have "cmp (xs ! i) \<noteq> 0" if "?m \<le> i" "i < u" for i
      using mono [of ?m i] that 2 1(3) by (auto simp: sgn_if split: if_splits)
    moreover have "bsearch cmp xs l u = bsearch cmp xs l ?m"
      using 2 by (subst bsearch.simps) (simp add: Let_def)
    moreover have "?m < u" using 2(1) by auto
    moreover have "case bsearch cmp xs l ?m of None \<Rightarrow> \<forall>i. l \<le> i \<and> i < ?m \<longrightarrow> cmp (xs ! i) \<noteq> 0
        | Some i \<Rightarrow> l \<le> i \<and> i < ?m \<and> cmp (xs ! i) = 0"
      using 1(1) [OF 2(1) refl refl 2(2)] 1(3,4) 2(1) by simp
    ultimately show ?thesis by (cases "bsearch cmp xs l ?m") (simp_all, metis not_le)
  next
    case 3
    have "cmp (xs ! i) \<noteq> 0" if "i \<le> ?m" for i
    proof -
      have "?m < length xs" using 3(1) 1(3) by linarith
      then show ?thesis using mono [of i ?m] that 3 by (auto simp: sgn_if split: if_splits)
    qed
    moreover have "bsearch cmp xs l u = bsearch cmp xs (?m + 1) u"
      using 3 by (subst bsearch.simps) (simp add: Let_def)
    moreover have "l \<le> ?m" using 3(1) by auto
    moreover have "case bsearch cmp xs (?m + 1) u of None \<Rightarrow> \<forall>i. ?m + 1 \<le> i \<and> i < u \<longrightarrow> cmp (xs ! i) \<noteq> 0
        | Some i \<Rightarrow> ?m + 1 \<le> i \<and> i < u \<and> cmp (xs ! i) = 0"
      using 1(2) [OF 3(1) refl refl _ 3(2)] 1(3,4) 3 by simp
    ultimately show ?thesis
      by (cases "bsearch cmp xs (?m + 1) u") (simp_all, metis not_less_eq_eq)
  qed (subst bsearch.simps; auto simp: Let_def)+
qed

lemma array_bsearch_finds:
  assumes "array_inv a" "sorted_for cmp (elements a)"
  shows "(\<exists>i. i < length (elements a) \<and> cmp (elements a ! i) = 0 \<and>
      array_bsearch (Some a) cmp = Some (int i, Some (elements a ! i))) \<or>
    (\<forall>x \<in> set (elements a). cmp x \<noteq> 0) \<and> array_bsearch (Some a) cmp = Some (-1, None)"
proof -
  obtain hs ts where p: "ar_data a = hs @ map Some (elements a) @ ts" "length hs = unat (ar_head a)"
    "length (elements a) = ar_count a"
    using assms by (auto simp: array_inv_iff)
  then have "load (ar_data a) (unat (ar_head a)) (ar_count a) = Some (map Some (elements a))" by simp
  then show ?thesis using bsearch_spec [of "ar_count a" "elements a" cmp 0] assms(2) p(3)
    by (auto simp: array_bsearch_def in_set_conv_nth comp_def split: option.splits)
qed

end
