(* ===== verification/Hashtable.thy ===== *)
theory Hashtable
  imports Prelude
begin

text \<open>
  The hash table of \<^verbatim>\<open>collections/hashtable.c\<close>: an array of buckets, each a linked
  list of pairs that cache the hash of their key. A bucket is the list of its pairs. The
  locale \<open>keyed_store\<close> states the contract of a map up to the equality function of the
  keys. The fill level at which the table doubles is compared in integer arithmetic; the source's
  float comparison agrees with it for up to \<open>2\<^sup>2\<^sup>4\<close> items, and beyond that can only
  double the table a few items earlier.
\<close>

section \<open>The table\<close>

definition MAX_CAPACITY :: u32 where
  "MAX_CAPACITY = push_bit 30 1"

record ('k, 'v) pair =
  pr_key :: 'k
  pr_value :: 'v
  pr_hash :: u32

definition pair_create :: "'k \<Rightarrow> 'v \<Rightarrow> u32 \<Rightarrow> ('k, 'v) pair" where
  "pair_create key val hash = \<lparr>pr_key = key, pr_value = val, pr_hash = hash\<rparr>"

record ('k, 'v) hashtable =
  ht_count :: nat
  ht_capacity :: u32
  ht_mask :: u32
  ht_table :: "('k, 'v) pair list list"
  ht_hash :: "'k \<Rightarrow> u32"
  ht_equals :: "'k \<Rightarrow> 'k \<Rightarrow> bool"

text \<open>The loop of \<open>get_nearest_powerof2\<close>, which shifts by \<open>i\<close> = 1, 2, 4, 8, 16.\<close>

function smear :: "u32 \<Rightarrow> nat \<Rightarrow> u32" where
  "smear n i = (if 0 < i \<and> i < 32 then smear (n OR drop_bit i n) (2 * i) else n)"
  by pat_completeness auto
termination by (relation "measure (\<lambda>(n, i). 32 - i)") auto

declare smear.simps [simp del]

definition get_nearest_powerof2 :: "u32 \<Rightarrow> u32" where
  "get_nearest_powerof2 n = smear (n - 1) 1 + 1"

definition init_hashtable :: "('k, 'v) hashtable \<Rightarrow> u32 \<Rightarrow> ('k, 'v) hashtable" where
  "init_hashtable this capacity =
     (let capacity = max 1 (min capacity MAX_CAPACITY);
          cap = get_nearest_powerof2 capacity
      in this\<lparr>ht_capacity := cap, ht_mask := cap - 1, ht_table := replicate (unat cap) []\<rparr>)"

text \<open>
  Row access is checked: a row outside the table is \<open>None\<close>.
\<close>

definition get_row :: "('k, 'v) hashtable \<Rightarrow> nat \<Rightarrow> ('k, 'v) pair list option" where
  "get_row this row = (if row < length (ht_table this) then Some (ht_table this ! row) else None)"

definition set_row :: "('k, 'v) hashtable \<Rightarrow> nat \<Rightarrow> ('k, 'v) pair list \<Rightarrow> ('k, 'v) hashtable option" where
  "set_row this row ps =
     (if row < length (ht_table this) then Some (this\<lparr>ht_table := (ht_table this)[row := ps]\<rparr>) else None)"

text \<open>The inner and the outer loop of \<open>rehash\<close>.\<close>

fun rehash_bucket :: "('k, 'v) hashtable \<Rightarrow> ('k, 'v) pair list \<Rightarrow> ('k, 'v) hashtable option" where
  "rehash_bucket this [] = Some this"
| "rehash_bucket this (pair # next) = do {
     let new_row = unat (pr_hash pair AND ht_mask this);
     ps \<leftarrow> get_row this new_row;
     this \<leftarrow> set_row this new_row (pair # ps);
     rehash_bucket this next
   }"

fun rehash_rows :: "('k, 'v) hashtable \<Rightarrow> ('k, 'v) pair list list \<Rightarrow> ('k, 'v) hashtable option" where
  "rehash_rows this [] = Some this"
| "rehash_rows this (ps # rows) = do {
     this \<leftarrow> rehash_bucket this ps;
     rehash_rows this rows
   }"

definition rehash :: "('k, 'v) hashtable \<Rightarrow> ('k, 'v) hashtable option" where
  "rehash this =
     (if ht_capacity this \<ge> MAX_CAPACITY then Some this
      else let old_table = ht_table this
           in rehash_rows (init_hashtable this (push_bit 1 (ht_capacity this))) old_table)"

text \<open>The search of \<open>put\<close>: the old value and the bucket with the pair replaced.\<close>

fun update_bucket :: "('k \<Rightarrow> 'k \<Rightarrow> bool) \<Rightarrow> 'k \<Rightarrow> 'v \<Rightarrow> ('k, 'v) pair list \<Rightarrow> ('v \<times> ('k, 'v) pair list) option" where
  "update_bucket eq key val [] = None"
| "update_bucket eq key val (p # ps) =
     (if eq key (pr_key p) then Some (pr_value p, p\<lparr>pr_value := val, pr_key := key\<rparr> # ps)
      else map_option (\<lambda>(v, ps'). (v, p # ps')) (update_bucket eq key val ps))"

definition put :: "('k, 'v) hashtable \<Rightarrow> 'k \<Rightarrow> 'v \<Rightarrow> ('v option \<times> ('k, 'v) hashtable) option" where
  "put this key val = do {
     let hash = ht_hash this key;
     let row = unat (hash AND ht_mask this);
     ps \<leftarrow> get_row this row;
     (old, this) \<leftarrow>
       (case update_bucket (ht_equals this) key val ps of
          Some (v, ps') \<Rightarrow> do { this \<leftarrow> set_row this row ps'; Some (Some v, this) }
        | None \<Rightarrow> do {
            this \<leftarrow> set_row this row (pair_create key val hash # ps);
            Some (None, this\<lparr>ht_count := ht_count this + 1\<rparr>)
          });
     this \<leftarrow> (if 4 * ht_count this \<ge> 3 * unat (ht_capacity this) then rehash this else Some this);
     Some (old, this)
   }"

fun find_pair :: "('k \<Rightarrow> 'k \<Rightarrow> bool) \<Rightarrow> 'k \<Rightarrow> ('k, 'v) pair list \<Rightarrow> 'v option" where
  "find_pair eq key [] = None"
| "find_pair eq key (p # ps) = (if eq key (pr_key p) then Some (pr_value p) else find_pair eq key ps)"

definition get_internal ::
  "('k, 'v) hashtable \<Rightarrow> 'k \<Rightarrow> ('k \<Rightarrow> 'k \<Rightarrow> bool) \<Rightarrow> 'v option option" where
  "get_internal this key eq =
     (if ht_count this = 0 then Some None
      else do {
        ps \<leftarrow> get_row this (unat (ht_hash this key AND ht_mask this));
        Some (find_pair eq key ps)
      })"

definition ht_get :: "('k, 'v) hashtable \<Rightarrow> 'k \<Rightarrow> 'v option option" where
  "ht_get this key = get_internal this key (ht_equals this)"

definition get_match :: "('k, 'v) hashtable \<Rightarrow> 'k \<Rightarrow> ('k \<Rightarrow> 'k \<Rightarrow> bool) \<Rightarrow> 'v option option" where
  "get_match this key match = get_internal this key match"

fun unlink_pair :: "('k \<Rightarrow> 'k \<Rightarrow> bool) \<Rightarrow> 'k \<Rightarrow> ('k, 'v) pair list \<Rightarrow> ('v \<times> ('k, 'v) pair list) option" where
  "unlink_pair eq key [] = None"
| "unlink_pair eq key (p # ps) =
     (if eq key (pr_key p) then Some (pr_value p, ps)
      else map_option (\<lambda>(v, ps'). (v, p # ps')) (unlink_pair eq key ps))"

definition ht_remove :: "('k, 'v) hashtable \<Rightarrow> 'k \<Rightarrow> ('v option \<times> ('k, 'v) hashtable) option" where
  "ht_remove this key = do {
     let row = unat (ht_hash this key AND ht_mask this);
     ps \<leftarrow> get_row this row;
     case unlink_pair (ht_equals this) key ps of
       None \<Rightarrow> Some (None, this)
     | Some (v, ps') \<Rightarrow> do {
         this \<leftarrow> set_row this row ps';
         Some (Some v, this\<lparr>ht_count := ht_count this - 1\<rparr>)
       }
   }"

definition get_count :: "('k, 'v) hashtable \<Rightarrow> nat" where
  "get_count this = ht_count this"

text \<open>
  Enumerators: the pointers \<open>current\<close> and \<open>prev\<close> are positions in the bucket of
  the current row.
\<close>

record ht_enumerator =
  en_row :: nat
  en_count :: nat
  en_current :: "nat option"
  en_prev :: "nat option"

definition ht_create_enumerator :: "('k, 'v) hashtable \<Rightarrow> ht_enumerator" where
  "ht_create_enumerator this =
     \<lparr>en_row = 0, en_count = ht_count this, en_current = None, en_prev = None\<rparr>"

text \<open>One step of the loop of \<open>enumerate\<close>: the position \<open>current\<close> moves to.\<close>

definition next_position :: "nat option \<Rightarrow> ('k, 'v) pair list \<Rightarrow> nat option" where
  "next_position current ps =
     (let i = (case current of Some i \<Rightarrow> i + 1 | None \<Rightarrow> 0) in if i < length ps then Some i else None)"

function ht_enumerate ::
  "('k, 'v) hashtable \<Rightarrow> ht_enumerator \<Rightarrow> (('k \<times> 'v) option \<times> ht_enumerator) option" where
  "ht_enumerate t this =
     (if en_count this \<noteq> 0 \<and> en_row this < unat (ht_capacity t)
      then do {
        ps \<leftarrow> get_row t (en_row this);
        let this = this\<lparr>en_prev := en_current this, en_current := next_position (en_current this) ps\<rparr>;
        case en_current this of
          Some i \<Rightarrow> Some (Some (pr_key (ps ! i), pr_value (ps ! i)), this\<lparr>en_count := en_count this - 1\<rparr>)
        | None \<Rightarrow> ht_enumerate t (this\<lparr>en_row := en_row this + 1\<rparr>)
      }
      else Some (None, this))"
  by pat_completeness auto
termination
  by (relation "measure (\<lambda>(t, this). unat (ht_capacity t) - en_row this)") (auto simp: Let_def)

declare ht_enumerate.simps [simp del]

definition ht_remove_at ::
  "('k, 'v) hashtable \<Rightarrow> ht_enumerator \<Rightarrow> (('k, 'v) hashtable \<times> ht_enumerator) option" where
  "ht_remove_at this en =
     (case en_current en of
        None \<Rightarrow> Some (this, en)
      | Some i \<Rightarrow> do {
          ps \<leftarrow> get_row this (en_row en);
          this \<leftarrow> set_row this (en_row en) (take i ps @ drop (i + 1) ps);
          Some (this\<lparr>ht_count := ht_count this - 1\<rparr>, en\<lparr>en_current := en_prev en\<rparr>)
        })"

definition hashtable_create ::
  "('k \<Rightarrow> u32) \<Rightarrow> ('k \<Rightarrow> 'k \<Rightarrow> bool) \<Rightarrow> u32 \<Rightarrow> ('k, 'v) hashtable" where
  "hashtable_create hash equals capacity =
     init_hashtable
       \<lparr>ht_count = 0, ht_capacity = 0, ht_mask = 0, ht_table = [], ht_hash = hash,
        ht_equals = equals\<rparr> capacity"


text \<open>
  A walk over the whole table that removes the pairs satisfying \<open>P\<close> as it meets them;
  it returns what it has seen. The first argument bounds the steps.
\<close>

fun ht_walk :: "nat \<Rightarrow> ('k \<Rightarrow> 'v \<Rightarrow> bool) \<Rightarrow> ('k, 'v) hashtable \<Rightarrow> ht_enumerator \<Rightarrow>
    (('k \<times> 'v) list \<times> ('k, 'v) hashtable) option" where
  "ht_walk 0 P t en = None"
| "ht_walk (Suc n) P t en = do {
     (r, en) \<leftarrow> ht_enumerate t en;
     case r of
       None \<Rightarrow> Some ([], t)
     | Some (k, v) \<Rightarrow> do {
         (t, en) \<leftarrow> (if P k v then ht_remove_at t en else Some (t, en));
         (seen, t) \<leftarrow> ht_walk n P t en;
         Some ((k, v) # seen, t)
       }
   }"

text \<open>Sequences of operations, on a table and on the map it holds.\<close>

datatype ('k, 'v) map_op = Put 'k 'v | Lookup 'k | Delete 'k

fun run_map :: "('s \<Rightarrow> 'k \<Rightarrow> 'v \<Rightarrow> ('v option \<times> 's) option) \<Rightarrow> ('s \<Rightarrow> 'k \<Rightarrow> 'v option option) \<Rightarrow>
    ('s \<Rightarrow> 'k \<Rightarrow> ('v option \<times> 's) option) \<Rightarrow> 's \<Rightarrow> ('k, 'v) map_op list \<Rightarrow> ('v option list \<times> 's) option" where
  "run_map pt gt rm s [] = Some ([], s)"
| "run_map pt gt rm s (Put k v # ops) = do {
     (r, s) \<leftarrow> pt s k v; (rs, s) \<leftarrow> run_map pt gt rm s ops; Some (r # rs, s)
   }"
| "run_map pt gt rm s (Lookup k # ops) = do {
     r \<leftarrow> gt s k; (rs, s) \<leftarrow> run_map pt gt rm s ops; Some (r # rs, s)
   }"
| "run_map pt gt rm s (Delete k # ops) = do {
     (r, s) \<leftarrow> rm s k; (rs, s) \<leftarrow> run_map pt gt rm s ops; Some (r # rs, s)
   }"

fun spec_map :: "('k \<Rightarrow> 'k \<Rightarrow> bool) \<Rightarrow> ('k \<Rightarrow> 'v option) \<Rightarrow> ('k, 'v) map_op list \<Rightarrow> 'v option list" where
  "spec_map eq m [] = []"
| "spec_map eq m (Put k v # ops) = m k # spec_map eq (\<lambda>k'. if eq k' k then Some v else m k') ops"
| "spec_map eq m (Lookup k # ops) = m k # spec_map eq m ops"
| "spec_map eq m (Delete k # ops) = m k # spec_map eq (\<lambda>k'. if eq k' k then None else m k') ops"


section \<open>The next power of two\<close>

definition covers :: "u32 \<Rightarrow> u32 \<Rightarrow> nat \<Rightarrow> bool" where
  "covers m x w \<longleftrightarrow> (\<forall>i. bit x i \<longleftrightarrow> (\<exists>j. i \<le> j \<and> j < i + w \<and> bit m j))"

lemma covers_step:
  assumes "covers m x w"
  shows "covers m (x OR drop_bit w x) (2 * w)"
proof -
  have "bit (x OR drop_bit w x) i \<longleftrightarrow> (\<exists>j. i \<le> j \<and> j < i + w \<and> bit m j) \<or>
      (\<exists>j. w + i \<le> j \<and> j < w + i + w \<and> bit m j)" for i
    using assms by (simp add: covers_def bit_or_iff bit_drop_bit_eq)
  moreover have "(i \<le> j \<and> j < i + w) \<or> (w + i \<le> j \<and> j < w + i + w) \<longleftrightarrow> i \<le> j \<and> j < i + 2 * w" for i j
    by auto
  ultimately show ?thesis unfolding covers_def by metis
qed

lemma smear_covers: "covers m x w \<Longrightarrow> w * 2 ^ k = 32 \<Longrightarrow> covers m (smear x w) 32"
proof (induction k arbitrary: x w)
  case 0
  then show ?case by (subst smear.simps) simp
next
  case (Suc k)
  have "0 < w" using Suc.prems(2) by (auto intro: gr0I)
  moreover have "(1 :: nat) < 2 ^ Suc k" by (rule one_less_power) simp_all
  ultimately have "0 < w" "w < w * 2 ^ Suc k" by simp_all
  then have "0 < w" "w < 32" using Suc.prems(2) by (simp_all only:)
  then have "smear x w = smear (x OR drop_bit w x) (2 * w)"
    by (subst smear.simps) simp
  moreover have "2 * w * 2 ^ k = 32" using Suc.prems(2) by simp
  ultimately show ?case using Suc.IH covers_step [OF Suc.prems(1)] by metis
qed

lemma smear_bit: "bit (smear n 1) i \<longleftrightarrow> (\<exists>j \<ge> i. bit n j)"
proof -
  have "covers n n 1" unfolding covers_def by (metis Suc_eq_plus1 le_antisym less_Suc_eq_le order_refl)
  from smear_covers [OF this, of 5] have
    "bit (smear n 1) i \<longleftrightarrow> (\<exists>j. i \<le> j \<and> j < i + 32 \<and> bit n j)" by (simp add: covers_def)
  moreover have "bit n j \<Longrightarrow> j < i + 32" for j
    using bit_imp_le_length [of n j] by simp
  ultimately show ?thesis by auto
qed

lemma nearest_powerof2:
  assumes "n \<noteq> 0" "n \<le> MAX_CAPACITY"
  shows "\<exists>e \<le> 30. get_nearest_powerof2 n = 2 ^ e \<and> unat n \<le> 2 ^ e \<and> 2 ^ e < 2 * unat n"
proof -
  let ?m = "n - 1" and ?s = "smear (n - 1) 1"
  have n: "unat n \<le> 2 ^ 30" using assms(2) by (simp add: MAX_CAPACITY_def word_le_nat_alt)
  have m: "unat ?m = unat n - 1" "0 < unat n" using assms(1) by (simp_all add: unat_minus_one unat_gt_0)
  define e where "e = (LEAST e. unat ?m < 2 ^ e)"
  have e: "unat ?m < 2 ^ e" unfolding e_def by (rule LeastI_ex) (metis less_exp)
  have least: "2 ^ (e - 1) \<le> unat ?m" if "e \<noteq> 0"
    using not_less_Least [of "e - 1" "\<lambda>e. unat ?m < 2 ^ e"] that by (simp add: e_def [symmetric] not_less)
  have "e \<le> 30" unfolding e_def using n m by (intro Least_le) simp
  have bits: "(\<exists>j \<ge> i. bit ?m j) \<longleftrightarrow> i < e" for i
  proof
    assume "\<exists>j \<ge> i. bit ?m j"
    then obtain j where j: "i \<le> j" "bit (unat ?m) j" by (auto simp: bit_unsigned_iff)
    then have "2 ^ j \<le> unat ?m" by (metis bit_iff_odd div_less even_zero linorder_not_le)
    then have "(2 :: nat) ^ j < 2 ^ e" using e by linarith
    with j(1) show "i < e" by simp
  next
    assume i: "i < e"
    then have "2 ^ e = 2 ^ (e - 1) * Suc 1" by (cases e) simp_all
    then have "unat ?m div 2 ^ (e - 1) = 1" using least e i by (intro div_nat_eqI) simp_all
    then have "bit (unat ?m) (e - 1)" by (simp add: bit_iff_odd)
    then have "bit ?m (e - 1)" by (simp add: bit_unsigned_iff)
    with i show "\<exists>j \<ge> i. bit ?m j" by (intro exI [of _ "e - 1"]) simp
  qed
  have "?s = mask e"
    by (rule bit_word_eqI) (use smear_bit bits in \<open>auto simp: bit_mask_iff\<close>)
  then have "get_nearest_powerof2 n = 2 ^ e" by (simp add: get_nearest_powerof2_def mask_eq_exp_minus_1)
  moreover have "2 ^ e < 2 * unat n"
  proof (cases "e = 0")
    case False
    then have "(2 :: nat) ^ e = 2 * 2 ^ (e - 1)" by (metis power_eq_if)
    with least [OF False] m show ?thesis by simp
  qed (use m in simp)
  ultimately show ?thesis using \<open>e \<le> 30\<close> e m by auto
qed


section \<open>Buckets\<close>

text \<open>No two pairs of the multiset have equal keys.\<close>

definition keys_distinct :: "('k \<Rightarrow> 'k \<Rightarrow> bool) \<Rightarrow> ('k, 'v) pair multiset \<Rightarrow> bool" where
  "keys_distinct eq M \<longleftrightarrow> (\<forall>p q. {#p, q#} \<subseteq># M \<longrightarrow> \<not> eq (pr_key p) (pr_key q))"

lemma keys_distinct_mono: "keys_distinct eq M \<Longrightarrow> N \<subseteq># M \<Longrightarrow> keys_distinct eq N"
  unfolding keys_distinct_def using subset_mset.order_trans by blast

lemma subset_add_mset_other: "N \<subseteq># add_mset p M \<Longrightarrow> p \<notin># N \<Longrightarrow> N \<subseteq># M"
  by (metis diff_single_trivial subset_eq_diff_conv add_mset_add_single)

lemma keys_distinct_add:
  assumes "symp eq"
  shows "keys_distinct eq (add_mset p M) \<longleftrightarrow>
    keys_distinct eq M \<and> (\<forall>q \<in># M. \<not> eq (pr_key p) (pr_key q))"
proof
  assume d: "keys_distinct eq (add_mset p M)"
  have "{#p, q#} \<subseteq># add_mset p M" if "q \<in># M" for q using that by simp
  moreover have "keys_distinct eq M" using keys_distinct_mono [OF d, of M] by simp
  ultimately show "keys_distinct eq M \<and> (\<forall>q \<in># M. \<not> eq (pr_key p) (pr_key q))"
    using d unfolding keys_distinct_def by blast
next
  assume d: "keys_distinct eq M \<and> (\<forall>q \<in># M. \<not> eq (pr_key p) (pr_key q))"
  have "\<not> eq (pr_key a) (pr_key b)" if ab: "{#a, b#} \<subseteq># add_mset p M" for a b
  proof -
    consider "a = p" | "b = p" | "p \<notin># {#a, b#}" by auto
    then show ?thesis
    proof cases
      case 1
      then have "b \<in># M" using ab by simp
      with 1 d show ?thesis by blast
    next
      case 2
      then have "{#p, a#} \<subseteq># add_mset p M" using ab by (simp add: add_mset_commute)
      then have "a \<in># M" by simp
      with 2 d assms show ?thesis by (meson sympD)
    next
      case 3
      then have "{#a, b#} \<subseteq># M" using ab subset_add_mset_other by metis
      with d show ?thesis unfolding keys_distinct_def by blast
    qed
  qed
  then show "keys_distinct eq (add_mset p M)" unfolding keys_distinct_def by blast
qed

lemma find_pair_iff:
  assumes "equivp eq" "keys_distinct eq (mset ps)"
  shows "find_pair eq k ps = Some v \<longleftrightarrow> (\<exists>p \<in> set ps. eq k (pr_key p) \<and> pr_value p = v)"
  using assms(2)
proof (induction ps)
  case (Cons p ps)
  have s: "symp eq" "transp eq" using assms(1) by (auto simp: equivp_reflp_symp_transp)
  then have d: "keys_distinct eq (mset ps)" "\<forall>q \<in> set ps. \<not> eq (pr_key p) (pr_key q)"
    using Cons.prems by (auto simp: keys_distinct_add)
  have "\<not> eq k (pr_key q)" if "q \<in> set ps" "eq k (pr_key p)" for q
    using d(2) that s by (meson sympD transpD)
  then show ?case using Cons.IH [OF d(1)] by auto
qed simp

lemma find_pair_None: "find_pair eq k ps = None \<longleftrightarrow> (\<forall>p \<in> set ps. \<not> eq k (pr_key p))"
  by (induction ps) auto

lemma update_bucket_None: "update_bucket eq key val ps = None \<longleftrightarrow> (\<forall>p \<in> set ps. \<not> eq key (pr_key p))"
  by (induction ps) auto

lemma update_bucket_Some:
  "update_bucket eq key val ps = Some (v, ps') \<Longrightarrow>
   \<exists>p M. eq key (pr_key p) \<and> pr_value p = v \<and> mset ps = add_mset p M \<and>
     mset ps' = add_mset (p\<lparr>pr_value := val, pr_key := key\<rparr>) M"
proof (induction ps arbitrary: ps')
  case (Cons q ps)
  show ?case
  proof (cases "eq key (pr_key q)")
    case False
    then obtain ps'' where "update_bucket eq key val ps = Some (v, ps'')" "ps' = q # ps''"
      using Cons.prems by auto
    with Cons.IH [of ps''] show ?thesis by (auto simp: add_mset_commute)
  qed (use Cons.prems in auto)
qed simp

lemma unlink_pair_None: "unlink_pair eq key ps = None \<longleftrightarrow> (\<forall>p \<in> set ps. \<not> eq key (pr_key p))"
  by (induction ps) auto

lemma unlink_pair_Some:
  "unlink_pair eq key ps = Some (v, ps') \<Longrightarrow>
   \<exists>p. eq key (pr_key p) \<and> pr_value p = v \<and> mset ps = add_mset p (mset ps')"
proof (induction ps arbitrary: ps')
  case (Cons q ps)
  show ?case
  proof (cases "eq key (pr_key q)")
    case False
    then obtain ps'' where "unlink_pair eq key ps = Some (v, ps'')" "ps' = q # ps''"
      using Cons.prems by auto
    with Cons.IH [of ps''] show ?thesis by (auto simp: add_mset_commute)
  qed (use Cons.prems in auto)
qed simp


section \<open>The map a table holds\<close>

definition row_of :: "('k, 'v) hashtable \<Rightarrow> u32 \<Rightarrow> nat" where
  "row_of t h = unat (h AND ht_mask t)"

definition contents :: "('k, 'v) hashtable \<Rightarrow> ('k, 'v) pair multiset" where
  "contents t = mset (concat (ht_table t))"

text \<open>Every pair is in the row of its key's hash.\<close>

definition placed :: "('k, 'v) hashtable \<Rightarrow> bool" where
  "placed t \<longleftrightarrow> (\<forall>r < length (ht_table t). \<forall>p \<in> set (ht_table t ! r).
     pr_hash p = ht_hash t (pr_key p) \<and> row_of t (pr_hash p) = r)"

definition sized :: "('k, 'v) hashtable \<Rightarrow> bool" where
  "sized t \<longleftrightarrow> (\<exists>e \<le> 30. ht_capacity t = 2 ^ e) \<and> ht_mask t = ht_capacity t - 1 \<and>
     length (ht_table t) = unat (ht_capacity t)"

text \<open>
  The contract of the two functions a table is created with: an equivalence, and a hash
  that does not distinguish equal keys.
\<close>

definition hash_ok :: "('k \<Rightarrow> u32) \<Rightarrow> ('k \<Rightarrow> 'k \<Rightarrow> bool) \<Rightarrow> bool" where
  "hash_ok hash equals \<longleftrightarrow> equivp equals \<and> (\<forall>k k'. equals k k' \<longrightarrow> hash k = hash k')"

definition ht_inv :: "('k \<Rightarrow> u32) \<Rightarrow> ('k \<Rightarrow> 'k \<Rightarrow> bool) \<Rightarrow> ('k, 'v) hashtable \<Rightarrow> bool" where
  "ht_inv hash equals t \<longleftrightarrow> hash_ok hash equals \<and> ht_hash t = hash \<and> ht_equals t = equals \<and>
     sized t \<and> placed t \<and> keys_distinct equals (contents t) \<and> ht_count t = size (contents t)"

definition ht_abs :: "('k, 'v) hashtable \<Rightarrow> 'k \<Rightarrow> 'v option" where
  "ht_abs t k = find_pair (ht_equals t) k (concat (ht_table t))"

lemma unat_exp:
  assumes "e < 32"
  shows "unat ((2 :: u32) ^ e) = 2 ^ e"
proof -
  have "(2 :: nat) ^ e < 2 ^ 32" using assms by (rule power_strict_increasing) simp
  then have "unat (of_nat (2 ^ e) :: u32) = 2 ^ e"
    unfolding unsigned_of_nat using assms by (simp add: take_bit_nat_eq_self)
  then show ?thesis by simp
qed

lemma row_of_less:
  assumes "sized t"
  shows "row_of t h < length (ht_table t)"
proof -
  obtain e where e: "e \<le> 30" "ht_capacity t = 2 ^ e" "ht_mask t = ht_capacity t - 1"
    "length (ht_table t) = unat (ht_capacity t)"
    using assms by (auto simp: sized_def)
  have m: "ht_mask t = mask e" using e by (simp add: mask_eq_exp_minus_1)
  have "unat (h AND mask e) = take_bit e (unat h)"
    by (simp add: unsigned_take_bit_eq flip: take_bit_eq_mask)
  moreover have "unat ((2 :: u32) ^ e) = 2 ^ e" using e(1) by (simp add: unat_exp)
  ultimately show ?thesis using e m by (simp add: row_of_def)
qed

lemma contents_set_row:
  assumes "row < length (ht_table t)" "mset ps' + N = mset (ht_table t ! row) + M"
  shows "contents (t\<lparr>ht_table := (ht_table t)[row := ps']\<rparr>) + N = contents t + M"
proof -
  let ?rows = "ht_table t"
  let ?A = "mset (concat (take row ?rows))" and ?B = "mset (concat (drop (Suc row) ?rows))"
  have "concat ?rows = concat (take row ?rows) @ ?rows ! row @ concat (drop (Suc row) ?rows)"
    by (subst id_take_nth_drop [OF assms(1)]) simp
  then have "contents t = ?A + mset (?rows ! row) + ?B" by (simp add: contents_def)
  moreover have "contents (t\<lparr>ht_table := ?rows[row := ps']\<rparr>) = ?A + mset ps' + ?B"
    using assms(1) by (simp add: contents_def upd_conv_take_nth_drop)
  ultimately show ?thesis using assms(2) by (metis (no_types, lifting) add.assoc add.commute)
qed

lemma set_contents: "p \<in># contents t \<longleftrightarrow> (\<exists>r < length (ht_table t). p \<in> set (ht_table t ! r))"
  by (auto simp: contents_def) (metis in_set_conv_nth)+

lemma row_contents:
  assumes "r < length (ht_table t)"
  shows "mset (ht_table t ! r) \<subseteq># contents t"
proof -
  have "concat (ht_table t) = concat (take r (ht_table t)) @ ht_table t ! r @ concat (drop (Suc r) (ht_table t))"
    by (subst id_take_nth_drop [OF assms]) simp
  then show ?thesis by (simp add: contents_def)
qed

lemma ht_abs_Some:
  assumes "ht_inv hash equals t"
  shows "ht_abs t k = Some v \<longleftrightarrow> (\<exists>p \<in># contents t. equals k (pr_key p) \<and> pr_value p = v)"
  using assms find_pair_iff [of equals "concat (ht_table t)" k v]
  by (auto simp: ht_inv_def ht_abs_def hash_ok_def contents_def)

text \<open>Only the row of its hash can hold a key.\<close>

lemma find_in_row:
  assumes "ht_inv hash equals t"
  shows "find_pair equals k (ht_table t ! row_of t (hash k)) = ht_abs t k"
proof -
  let ?r = "row_of t (hash k)"
  have i: "hash_ok hash equals" "ht_hash t = hash" "ht_equals t = equals" "sized t" "placed t"
    "keys_distinct equals (contents t)" using assms by (auto simp: ht_inv_def)
  have r: "?r < length (ht_table t)" using row_of_less [OF i(4)] .
  have eq: "equivp equals" using i(1) by (simp add: hash_ok_def)
  have "p \<in> set (ht_table t ! ?r)" if p: "p \<in># contents t" "equals k (pr_key p)" for p
  proof -
    obtain r where "r < length (ht_table t)" "p \<in> set (ht_table t ! r)"
      using p(1) by (auto simp: set_contents)
    moreover from this have "pr_hash p = hash (pr_key p)" "row_of t (pr_hash p) = r"
      using i(2,5) unfolding placed_def by blast+
    moreover have "hash k = hash (pr_key p)" using i(1) p(2) unfolding hash_ok_def by blast
    ultimately show ?thesis by simp
  qed
  moreover have "p \<in># contents t" if "p \<in> set (ht_table t ! ?r)" for p
    using that r by (auto simp: set_contents)
  moreover have "find_pair equals k (ht_table t ! ?r) = Some v \<longleftrightarrow>
      (\<exists>p \<in> set (ht_table t ! ?r). equals k (pr_key p) \<and> pr_value p = v)" for v
    by (rule find_pair_iff [OF eq keys_distinct_mono [OF i(6) row_contents [OF r]]])
  moreover have "ht_abs t k = Some v \<longleftrightarrow> (\<exists>p \<in># contents t. equals k (pr_key p) \<and> pr_value p = v)" for v
    by (rule ht_abs_Some [OF assms])
  ultimately have "find_pair equals k (ht_table t ! ?r) = Some v \<longleftrightarrow> ht_abs t k = Some v" for v
    by blast
  then show ?thesis by (metis not_Some_eq)
qed

text \<open>
  Replacing a row by one with other pairs of the same row keeps the table in order, if the
  keys stay distinct.
\<close>

lemma placed_set_row:
  assumes "placed t" "\<forall>p \<in> set ps. pr_hash p = ht_hash t (pr_key p) \<and> row_of t (pr_hash p) = r"
  shows "placed (t\<lparr>ht_table := (ht_table t)[r := ps]\<rparr>)" (is "placed ?u")
  unfolding placed_def
proof (intro allI ballI impI)
  fix q p assume q: "q < length (ht_table ?u)" and p: "p \<in> set (ht_table ?u ! q)"
  have same: "row_of ?u h = row_of t h" "ht_hash ?u = ht_hash t" for h by (simp_all add: row_of_def)
  have "pr_hash p = ht_hash t (pr_key p) \<and> row_of t (pr_hash p) = q"
  proof (cases "q = r")
    case True
    then have "p \<in> set ps" using p q by simp
    with assms(2) True show ?thesis by blast
  next
    case False
    then have "p \<in> set (ht_table t ! q)" "q < length (ht_table t)" using p q by simp_all
    with assms(1) show ?thesis unfolding placed_def by blast
  qed
  then show "pr_hash p = ht_hash ?u (pr_key p) \<and> row_of ?u (pr_hash p) = q"
    unfolding same .
qed

lemma placed_count: "placed (t\<lparr>ht_count := n\<rparr>) = placed t"
  by (simp add: placed_def row_of_def)

lemma sized_set_row: "sized (t\<lparr>ht_table := (ht_table t)[r := ps]\<rparr>) = sized t"
  by (simp add: sized_def)

lemma ht_inv_set_row:
  assumes inv: "ht_inv hash equals t"
    and ps: "\<forall>p \<in> set ps. pr_hash p = hash (pr_key p) \<and> row_of t (pr_hash p) = r"
    and u: "u = t\<lparr>ht_table := (ht_table t)[r := ps], ht_count := n\<rparr>"
    and n: "n = size (contents u)" "keys_distinct equals (contents u)"
  shows "ht_inv hash equals u"
proof -
  have "placed t" "ht_hash t = hash" using inv by (simp_all add: ht_inv_def)
  then have "placed u" unfolding u placed_count using ps by (intro placed_set_row) blast+
  moreover have "sized u" "ht_hash u = hash" "ht_equals u = equals" "ht_count u = n" "hash_ok hash equals"
    using inv u by (simp_all add: ht_inv_def sized_def)
  ultimately show ?thesis unfolding ht_inv_def using n by blast
qed


section \<open>Rehashing\<close>

lemma rehash_bucket_ok:
  assumes "sized t" "placed t" "\<forall>p \<in> set ps. pr_hash p = ht_hash t (pr_key p)"
  shows "\<exists>u. rehash_bucket t ps = Some u \<and> sized u \<and> placed u \<and>
    contents u = contents t + mset ps \<and> ht_hash u = ht_hash t \<and> ht_equals u = ht_equals t \<and>
    ht_count u = ht_count t"
  using assms
proof (induction ps arbitrary: t)
  case (Cons p ps)
  let ?r = "row_of t (pr_hash p)"
  let ?t = "t\<lparr>ht_table := (ht_table t)[?r := p # ht_table t ! ?r]\<rparr>"
  have r: "?r < length (ht_table t)" using row_of_less [OF Cons.prems(1)] .
  have step: "rehash_bucket t (p # ps) = rehash_bucket ?t ps"
    using r by (simp add: get_row_def set_row_def row_of_def Let_def)
  have "contents ?t + {#} = contents t + {#p#}"
    by (rule contents_set_row [OF r]) simp
  then have c: "contents ?t = add_mset p (contents t)" by simp
  have "sized ?t" using Cons.prems(1) by (simp add: sized_def)
  moreover have "\<forall>q \<in> set (p # ht_table t ! ?r). pr_hash q = ht_hash t (pr_key q) \<and> row_of t (pr_hash q) = ?r"
    using Cons.prems(2,3) r unfolding placed_def by (metis list.set_intros(1) set_ConsD)
  then have "placed ?t" by (rule placed_set_row [OF Cons.prems(2)])
  ultimately obtain u where "rehash_bucket ?t ps = Some u" "sized u" "placed u"
    "contents u = contents ?t + mset ps" "ht_hash u = ht_hash t" "ht_equals u = ht_equals t"
    "ht_count u = ht_count t"
    using Cons.IH [of ?t] Cons.prems(3) by auto
  with step c show ?case by simp
qed simp

lemma rehash_rows_ok:
  assumes "sized t" "placed t" "\<forall>ps \<in> set rows. \<forall>p \<in> set ps. pr_hash p = ht_hash t (pr_key p)"
  shows "\<exists>u. rehash_rows t rows = Some u \<and> sized u \<and> placed u \<and>
    contents u = contents t + mset (concat rows) \<and> ht_hash u = ht_hash t \<and>
    ht_equals u = ht_equals t \<and> ht_count u = ht_count t"
  using assms
proof (induction rows arbitrary: t)
  case (Cons ps rows)
  then obtain v where v: "rehash_bucket t ps = Some v" "sized v" "placed v"
    "contents v = contents t + mset ps" "ht_hash v = ht_hash t" "ht_equals v = ht_equals t"
    "ht_count v = ht_count t"
    using rehash_bucket_ok [of t ps] by auto
  with Cons.IH [of v] Cons.prems(3) show ?case by (auto simp: ac_simps)
qed simp

lemma init_hashtable_ok:
  "sized (init_hashtable t cap) \<and> placed (init_hashtable t cap) \<and> contents (init_hashtable t cap) = {#} \<and>
   ht_hash (init_hashtable t cap) = ht_hash t \<and> ht_equals (init_hashtable t cap) = ht_equals t \<and>
   ht_count (init_hashtable t cap) = ht_count t"
proof -
  let ?c = "max 1 (min cap MAX_CAPACITY)"
  have "?c \<noteq> 0" "?c \<le> MAX_CAPACITY"
    by (auto simp: max_def min_def MAX_CAPACITY_def word_le_nat_alt)
  then have "\<exists>e \<le> 30. get_nearest_powerof2 ?c = 2 ^ e" using nearest_powerof2 by blast
  then show ?thesis
    by (simp add: init_hashtable_def Let_def sized_def placed_def contents_def)
qed

lemma rehash_ok:
  assumes "ht_inv hash equals t"
  shows "\<exists>u. rehash t = Some u \<and> ht_inv hash equals u \<and> contents u = contents t"
proof (cases "ht_capacity t \<ge> MAX_CAPACITY")
  case False
  let ?n = "init_hashtable t (push_bit 1 (ht_capacity t))"
  have "\<forall>ps \<in> set (ht_table t). \<forall>p \<in> set ps. pr_hash p = ht_hash ?n (pr_key p)"
    using assms init_hashtable_ok [of t] unfolding ht_inv_def placed_def
    by (metis in_set_conv_nth)
  then obtain u where u: "rehash_rows ?n (ht_table t) = Some u" "sized u" "placed u"
    "contents u = contents t" "ht_hash u = ht_hash t" "ht_equals u = ht_equals t"
    "ht_count u = ht_count t"
    using rehash_rows_ok [of ?n "ht_table t"] init_hashtable_ok [of t "push_bit 1 (ht_capacity t)"]
    by (auto simp: contents_def)
  moreover have "rehash t = Some u" using False u(1) by (simp add: rehash_def Let_def)
  ultimately show ?thesis using assms by (auto simp: ht_inv_def)
qed (use assms in \<open>simp add: rehash_def\<close>)


section \<open>The operations\<close>

lemma ht_get_ok:
  assumes "ht_inv hash equals t"
  shows "ht_get t k = Some (ht_abs t k)"
proof -
  have i: "ht_hash t = hash" "ht_equals t = equals" "sized t" "ht_count t = size (contents t)"
    using assms by (simp_all add: ht_inv_def)
  show ?thesis
  proof (cases "ht_count t = 0")
    case True
    then have "concat (ht_table t) = []" using i(4) by (simp add: contents_def)
    with True show ?thesis unfolding ht_get_def get_internal_def ht_abs_def by (simp only: find_pair.simps simp_thms if_True)
  next
    case False
    then show ?thesis using row_of_less [OF i(3), of "hash k"] find_in_row [OF assms, of k] i(1,2)
      by (simp add: ht_get_def get_internal_def get_row_def row_of_def)
  qed
qed

text \<open>The table after \<open>put\<close> has stored the pair, before it may be rehashed.\<close>

lemma put_stores:
  assumes inv: "ht_inv hash equals t"
  shows "\<exists>u. put t k v = do {
      u' \<leftarrow> (if 4 * ht_count u \<ge> 3 * unat (ht_capacity u) then rehash u else Some u);
      Some (ht_abs t k, u') } \<and> ht_inv hash equals u \<and>
    (\<exists>M p. contents u = add_mset p M \<and> pr_key p = k \<and> pr_value p = v \<and>
      (contents t = M \<or> (\<exists>q. contents t = add_mset q M \<and> equals k (pr_key q))))"
proof -
  have i: "hash_ok hash equals" "ht_hash t = hash" "ht_equals t = equals" "sized t" "placed t"
    "keys_distinct equals (contents t)" "ht_count t = size (contents t)"
    using inv by (simp_all add: ht_inv_def)
  have eq: "equivp equals" and sym: "symp equals" and trans: "transp equals"
    using i(1) by (simp_all add: hash_ok_def equivp_reflp_symp_transp)
  let ?r = "row_of t (hash k)"
  let ?ps = "ht_table t ! ?r"
  have r: "?r < length (ht_table t)" using row_of_less [OF i(4)] .
  have row: "\<forall>p \<in> set ?ps. pr_hash p = hash (pr_key p) \<and> row_of t (pr_hash p) = ?r"
    using i(2,5) r unfolding placed_def by blast
  show ?thesis
  proof (cases "update_bucket equals k v ?ps")
    case None
    then have none: "\<forall>p \<in> set ?ps. \<not> equals k (pr_key p)" by (simp add: update_bucket_None)
    then have abs: "ht_abs t k = None" using find_in_row [OF inv, of k] find_pair_None by metis
    let ?p = "pair_create k v (hash k)"
    let ?u = "t\<lparr>ht_table := (ht_table t)[?r := ?p # ?ps], ht_count := ht_count t + 1\<rparr>"
    have "contents (t\<lparr>ht_table := (ht_table t)[?r := ?p # ?ps]\<rparr>) + {#} = contents t + {#?p#}"
      by (rule contents_set_row [OF r]) simp
    then have c: "contents ?u = add_mset ?p (contents t)" by (simp add: contents_def)
    have "\<not> equals k (pr_key q)" if "q \<in># contents t" for q
      using abs ht_abs_Some [OF inv, of k "pr_value q"] that by auto
    then have kd: "keys_distinct equals (contents ?u)"
      unfolding c keys_distinct_add [OF sym] using i(6) by (simp add: pair_create_def)
    have ps: "\<forall>p \<in> set (?p # ?ps). pr_hash p = hash (pr_key p) \<and> row_of t (pr_hash p) = ?r"
      using row by (simp only: list.set ball_simps pair_create_def pair.simps simp_thms)
    have ui: "ht_inv hash equals ?u"
      by (rule ht_inv_set_row [OF inv ps refl _ kd], unfold c) (simp add: i(7))
    have key: "pr_key ?p = k" "pr_value ?p = v" by (simp_all add: pair_create_def)
    have "put t k v = do {
        u' \<leftarrow> (if 4 * ht_count ?u \<ge> 3 * unat (ht_capacity ?u) then rehash ?u else Some ?u);
        Some (None, u') }"
      using None r i(2,3) by (simp add: put_def Let_def get_row_def set_row_def row_of_def)
    then show ?thesis unfolding abs using ui c key by blast
  next
    case (Some vps)
    then obtain w ps' where ps': "update_bucket equals k v ?ps = Some (w, ps')" by (cases vps) auto
    then obtain p M where p: "equals k (pr_key p)" "pr_value p = w" "mset ?ps = add_mset p M"
      "mset ps' = add_mset (p\<lparr>pr_value := v, pr_key := k\<rparr>) M"
      using update_bucket_Some by metis
    let ?p = "p\<lparr>pr_value := v, pr_key := k\<rparr>"
    let ?u = "t\<lparr>ht_table := (ht_table t)[?r := ps'], ht_count := ht_count t\<rparr>"
    have p_in: "p \<in> set ?ps" using p(3) by (metis set_mset_mset union_single_eq_member)
    then have p_cont: "p \<in># contents t" using r set_contents by blast
    have abs: "ht_abs t k = Some w" using ht_abs_Some [OF inv, of k w] p(1,2) p_cont by blast
    obtain N where N: "contents t = add_mset p N" using p_cont by (metis mset_add)
    have "contents (t\<lparr>ht_table := (ht_table t)[?r := ps']\<rparr>) + {#p#} = contents t + {#?p#}"
      by (rule contents_set_row [OF r]) (simp add: p(3,4))
    then have c: "contents ?u = add_mset ?p N" using N by (simp add: contents_def)
    have "\<not> equals k (pr_key q)" if "q \<in># N" for q
      using i(6) that p(1) sym trans unfolding N keys_distinct_add [OF sym] by (metis sympD transpD)
    then have kd: "keys_distinct equals (contents ?u)"
      using i(6) unfolding c N keys_distinct_add [OF sym] by simp
    have "hash k = hash (pr_key p)" using i(1) p(1) unfolding hash_ok_def by blast
    then have ps: "\<forall>q \<in> set ps'. pr_hash q = hash (pr_key q) \<and> row_of t (pr_hash q) = ?r"
    proof -
      have "set ps' \<subseteq> insert ?p (set ?ps)" using p(3,4)
        by (metis insert_mono set_mset_add_mset_insert set_mset_mset subset_insertI)
      moreover have "pr_hash ?p = hash (pr_key ?p)" "row_of t (pr_hash ?p) = ?r"
        using row p_in \<open>hash k = hash (pr_key p)\<close> by simp_all
      ultimately show ?thesis using row by blast
    qed
    have ui: "ht_inv hash equals ?u"
      by (rule ht_inv_set_row [OF inv ps refl _ kd], unfold c) (simp add: i(7) N)
    have key: "pr_key ?p = k" "pr_value ?p = v" by simp_all
    have "put t k v = do {
        u' \<leftarrow> (if 4 * ht_count ?u \<ge> 3 * unat (ht_capacity ?u) then rehash ?u else Some ?u);
        Some (Some w, u') }"
      using ps' r i(2,3) by (simp add: put_def Let_def get_row_def set_row_def row_of_def)
    then show ?thesis unfolding abs using ui c key N p(1) by blast
  qed
qed

lemma ht_abs_cong:
  assumes "ht_inv hash equals t" "ht_inv hash equals u" "contents u = contents t"
  shows "ht_abs u k = ht_abs t k"
proof -
  have "ht_abs u k = Some v \<longleftrightarrow> ht_abs t k = Some v" for v
    using ht_abs_Some [OF assms(1), of k v] ht_abs_Some [OF assms(2), of k v] assms(3) by simp
  then show ?thesis by (metis not_Some_eq)
qed

text \<open>The map after a pair was added, or replaced one with an equal key.\<close>

lemma ht_abs_update:
  assumes t: "ht_inv hash equals t" and u: "ht_inv hash equals u" and c: "contents u = add_mset p M"
    and old: "contents t = M \<or> (\<exists>q. contents t = add_mset q M \<and> equals (pr_key p) (pr_key q))"
  shows "ht_abs u k = (if equals k (pr_key p) then Some (pr_value p) else ht_abs t k)"
proof -
  have eq: "symp equals" "transp equals" "keys_distinct equals (contents u)"
    using u by (simp_all add: ht_inv_def hash_ok_def equivp_reflp_symp_transp)
  have fresh: "\<forall>q \<in># M. \<not> equals (pr_key p) (pr_key q)"
    using eq(3) unfolding c keys_distinct_add [OF eq(1)] by blast
  show ?thesis
  proof (cases "equals k (pr_key p)")
    case True
    then show ?thesis using ht_abs_Some [OF u, of k "pr_value p"] c by auto
  next
    case False
    have no: "\<not> equals k l" if "equals (pr_key p) l" for l
      using that False eq(1,2) by (meson sympD transpD)
    have "ht_abs u k = Some v \<longleftrightarrow> ht_abs t k = Some v" for v
      using ht_abs_Some [OF t, of k v] ht_abs_Some [OF u, of k v] c old False no by auto
    then show ?thesis using False by (metis not_Some_eq)
  qed
qed

lemma put_ok:
  assumes "ht_inv hash equals t"
  shows "\<exists>u. put t k v = Some (ht_abs t k, u) \<and> ht_inv hash equals u \<and>
    (\<forall>k'. ht_abs u k' = (if equals k' k then Some v else ht_abs t k'))"
proof -
  obtain w M p where w: "put t k v = do {
      u' \<leftarrow> (if 4 * ht_count w \<ge> 3 * unat (ht_capacity w) then rehash w else Some w);
      Some (ht_abs t k, u') }" "ht_inv hash equals w" "contents w = add_mset p M" "pr_key p = k"
    "pr_value p = v" "contents t = M \<or> (\<exists>q. contents t = add_mset q M \<and> equals k (pr_key q))"
    using put_stores [OF assms] by blast
  obtain u where u: "(if 4 * ht_count w \<ge> 3 * unat (ht_capacity w) then rehash w else Some w) = Some u"
    "ht_inv hash equals u" "contents u = contents w"
    using rehash_ok [OF w(2)] w(2) by (metis (full_types))
  have "ht_abs u k' = (if equals k' k then Some v else ht_abs t k')" for k'
    using ht_abs_cong [OF w(2) u(2,3)] ht_abs_update [OF assms w(2,3)] w(4-6) by metis
  with w(1) u(1,2) show ?thesis by simp
qed

lemma ht_abs_equal:
  assumes "ht_inv hash equals t" "equals k' k"
  shows "ht_abs t k' = ht_abs t k"
proof -
  have "symp equals" "transp equals"
    using assms(1) by (simp_all add: ht_inv_def hash_ok_def equivp_reflp_symp_transp)
  then have "equals k' l \<longleftrightarrow> equals k l" for l using assms(2) by (meson sympD transpD)
  then have "ht_abs t k' = Some v \<longleftrightarrow> ht_abs t k = Some v" for v
    using ht_abs_Some [OF assms(1), of k' v] ht_abs_Some [OF assms(1), of k v] by simp
  then show ?thesis by (metis not_Some_eq)
qed

lemma ht_inv_unlink:
  assumes inv: "ht_inv hash equals t" and r: "r < length (ht_table t)"
    and p: "mset (ht_table t ! r) = add_mset p (mset ps')"
    and u: "u = t\<lparr>ht_table := (ht_table t)[r := ps'], ht_count := ht_count t - 1\<rparr>"
  shows "contents t = add_mset p (contents u) \<and> ht_inv hash equals u \<and>
    (\<forall>q \<in># contents u. \<not> equals (pr_key p) (pr_key q))"
proof -
  have i: "ht_hash t = hash" "placed t" "keys_distinct equals (contents t)" "ht_count t = size (contents t)"
    and sym: "symp equals"
    using inv by (simp_all add: ht_inv_def hash_ok_def equivp_reflp_symp_transp)
  have "contents (t\<lparr>ht_table := (ht_table t)[r := ps']\<rparr>) + {#p#} = contents t + {#}"
    by (rule contents_set_row [OF r]) (simp add: p)
  then have c: "contents t = add_mset p (contents u)" by (simp add: contents_def u)
  have kd: "keys_distinct equals (contents u)" "\<forall>q \<in># contents u. \<not> equals (pr_key p) (pr_key q)"
    using i(3) unfolding c keys_distinct_add [OF sym] by simp_all
  have "set ps' \<subseteq> set (ht_table t ! r)"
    using p by (metis set_mset_add_mset_insert set_mset_mset subset_insertI)
  then have ps: "\<forall>q \<in> set ps'. pr_hash q = hash (pr_key q) \<and> row_of t (pr_hash q) = r"
    using i(1,2) r unfolding placed_def by blast
  have "size (contents t) = Suc (size (contents u))" unfolding c by (rule size_add_mset)
  then have "ht_count t - 1 = size (contents u)" using i(4) by linarith
  then have "ht_inv hash equals u" by (rule ht_inv_set_row [OF inv ps u _ kd(1)])
  with c kd(2) show ?thesis by blast
qed

lemma remove_ok:
  assumes inv: "ht_inv hash equals t"
  shows "\<exists>u. ht_remove t k = Some (ht_abs t k, u) \<and> ht_inv hash equals u \<and>
    (\<forall>k'. ht_abs u k' = (if equals k' k then None else ht_abs t k'))"
proof -
  have i: "ht_hash t = hash" "ht_equals t = equals" "sized t" using inv by (simp_all add: ht_inv_def)
  have sym: "symp equals" and trans: "transp equals"
    using inv by (simp_all add: ht_inv_def hash_ok_def equivp_reflp_symp_transp)
  let ?r = "row_of t (hash k)"
  let ?ps = "ht_table t ! ?r"
  have r: "?r < length (ht_table t)" using row_of_less [OF i(3)] .
  have run: "ht_remove t k = (case unlink_pair equals k ?ps of
       None \<Rightarrow> Some (None, t)
     | Some (v, ps') \<Rightarrow> Some (Some v, t\<lparr>ht_table := (ht_table t)[?r := ps'], ht_count := ht_count t - 1\<rparr>))"
    using r i(1,2) by (auto simp: ht_remove_def get_row_def set_row_def row_of_def Let_def
        split: option.splits)
  show ?thesis
  proof (cases "unlink_pair equals k ?ps")
    case None
    then have "ht_abs t k = None"
      using find_in_row [OF inv, of k] find_pair_None unlink_pair_None by metis
    moreover from this have "ht_abs t k' = None" if "equals k' k" for k'
      using ht_abs_equal [OF inv that] by simp
    moreover have "ht_remove t k = Some (None, t)" using None run by simp
    ultimately show ?thesis using inv by (intro exI [of _ t]) simp
  next
    case (Some vps)
    then obtain v ps' where ps': "unlink_pair equals k ?ps = Some (v, ps')" by (cases vps) auto
    then obtain p where p: "equals k (pr_key p)" "pr_value p = v" "mset ?ps = add_mset p (mset ps')"
      using unlink_pair_Some by metis
    let ?u = "t\<lparr>ht_table := (ht_table t)[?r := ps'], ht_count := ht_count t - 1\<rparr>"
    have c: "contents t = add_mset p (contents ?u)" and u: "ht_inv hash equals ?u"
      and fresh: "\<forall>q \<in># contents ?u. \<not> equals (pr_key p) (pr_key q)"
      using ht_inv_unlink [OF inv r p(3) refl] by blast+
    have "ht_abs t k = Some v" using ht_abs_Some [OF inv, of k v] c p(1,2) by auto
    moreover have "ht_abs ?u k' = (if equals k' k then None else ht_abs t k')" for k'
    proof (cases "equals k' k")
      case True
      have "\<not> equals k (pr_key q)" if "q \<in># contents ?u" for q
        using fresh that p(1) sym trans by (meson sympD transpD)
      then have "ht_abs ?u k \<noteq> Some w" for w using ht_abs_Some [OF u, of k w] by blast
      then have "ht_abs ?u k = None" by (metis not_Some_eq)
      then show ?thesis using ht_abs_equal [OF u True] True by simp
    next
      case False
      then have "\<not> equals k' (pr_key p)" using p(1) sym trans by (meson sympD transpD)
      then have "ht_abs ?u k' = Some w \<longleftrightarrow> ht_abs t k' = Some w" for w
        unfolding ht_abs_Some [OF u] ht_abs_Some [OF inv] c by simp
      then show ?thesis using False by (metis not_Some_eq)
    qed
    moreover have "ht_remove t k = Some (Some v, ?u)" using run ps' by simp
    ultimately show ?thesis using u by metis
  qed
qed


section \<open>The contract of a map\<close>

locale keyed_store =
  fixes pt :: "'s \<Rightarrow> 'k \<Rightarrow> 'v \<Rightarrow> ('v option \<times> 's) option"
    and gt :: "'s \<Rightarrow> 'k \<Rightarrow> 'v option option"
    and rm :: "'s \<Rightarrow> 'k \<Rightarrow> ('v option \<times> 's) option"
    and abs :: "'s \<Rightarrow> 'k \<Rightarrow> 'v option"
    and eq :: "'k \<Rightarrow> 'k \<Rightarrow> bool"
    and inv :: "'s \<Rightarrow> bool"
  assumes pt_law: "inv s \<Longrightarrow> \<exists>s'. pt s k v = Some (abs s k, s') \<and> inv s' \<and>
      (\<forall>k'. abs s' k' = (if eq k' k then Some v else abs s k'))"
    and gt_law: "inv s \<Longrightarrow> gt s k = Some (abs s k)"
    and rm_law: "inv s \<Longrightarrow> \<exists>s'. rm s k = Some (abs s k, s') \<and> inv s' \<and>
      (\<forall>k'. abs s' k' = (if eq k' k then None else abs s k'))"
begin

lemma run_simulates:
  "inv s \<Longrightarrow> \<exists>s'. run_map pt gt rm s ops = Some (spec_map eq (abs s) ops, s') \<and> inv s'"
proof (induction ops arbitrary: s)
  case (Cons op ops)
  show ?case
  proof (cases op)
    case (Put k v)
    obtain s' where s': "pt s k v = Some (abs s k, s')" "inv s'"
      "\<forall>k'. abs s' k' = (if eq k' k then Some v else abs s k')"
      using pt_law [OF Cons.prems] by blast
    then have "abs s' = (\<lambda>k'. if eq k' k then Some v else abs s k')" by blast
    with Cons.IH [OF s'(2)] s'(1) Put show ?thesis by auto
  next
    case (Lookup k)
    with Cons.IH [OF Cons.prems] show ?thesis by (auto simp: gt_law [OF Cons.prems])
  next
    case (Delete k)
    obtain s' where s': "rm s k = Some (abs s k, s')" "inv s'"
      "\<forall>k'. abs s' k' = (if eq k' k then None else abs s k')"
      using rm_law [OF Cons.prems] by blast
    then have "abs s' = (\<lambda>k'. if eq k' k then None else abs s k')" by blast
    with Cons.IH [OF s'(2)] s'(1) Delete show ?thesis by auto
  qed
qed simp

end

interpretation ht: keyed_store put ht_get ht_remove ht_abs equals "ht_inv hash equals" for hash equals
  by unfold_locales (rule put_ok ht_get_ok remove_ok, assumption)+

lemma hashtable_create_ok:
  assumes "hash_ok hash equals" and t: "t = hashtable_create hash equals cap"
  shows "ht_inv hash equals t \<and> ht_abs t = (\<lambda>_. None)"
proof -
  have c: "sized t" "placed t" "contents t = {#}" "ht_hash t = hash" "ht_equals t = equals" "ht_count t = 0"
    unfolding t hashtable_create_def by (simp_all add: init_hashtable_ok)
  then have i: "ht_inv hash equals t" using assms by (simp add: ht_inv_def keys_distinct_def)
  then have "ht_abs t k \<noteq> Some v" for k v using ht_abs_Some [OF i] c(3) by simp
  then have "ht_abs t k = None" for k by (metis not_Some_eq)
  with i show ?thesis by blast
qed

text \<open>
  C3. For every hash function that respects the equality function of the keys, every initial
  capacity and every sequence of insertions, lookups and removals, the table returns what a
  map from the classes of equal keys returns; it never accesses a row outside its array.
\<close>

theorem hashtable_simulates_map:
  assumes "equivp equals" "\<forall>k k'. equals k k' \<longrightarrow> hash k = hash k'"
  shows "\<exists>t. run_map put ht_get ht_remove (hashtable_create hash equals cap) ops =
    Some (spec_map equals (\<lambda>_. None) ops, t)"
proof -
  have "hash_ok hash equals" using assms by (simp add: hash_ok_def)
  note ok = hashtable_create_ok [OF this refl, of cap]
  from ht.run_simulates [OF conjunct1 [OF ok]] show ?thesis unfolding conjunct2 [OF ok] by blast
qed

theorem hashtable_simulates_map_witness:
  "equivp ((=) :: nat \<Rightarrow> nat \<Rightarrow> bool) \<and>
   (\<exists>t. run_map put ht_get ht_remove (hashtable_create (\<lambda>k. of_nat (k mod 2)) (=) 1)
      [Put 1 10, Put 3 30, Lookup 1, Delete 1, Lookup 1, Lookup (3 :: nat)] =
      Some ([None, None, Some 10, Some 10, None, Some (30 :: nat)], t))"
  using hashtable_simulates_map [of "(=) :: nat \<Rightarrow> nat \<Rightarrow> bool" "\<lambda>k. of_nat (k mod 2)" 1
      "[Put 1 10, Put 3 30, Lookup 1, Delete 1, Lookup 1, Lookup 3] :: (nat, nat) map_op list"]
  by (simp add: identity_equivp)


section \<open>Walking over the table\<close>

definition position :: "ht_enumerator \<Rightarrow> nat" where
  "position en = (case en_current en of None \<Rightarrow> 0 | Some i \<Rightarrow> i + 1)"

definition rest :: "('k, 'v) hashtable \<Rightarrow> ht_enumerator \<Rightarrow> ('k, 'v) pair list" where
  "rest t en =
     (if en_row en < length (ht_table t)
      then drop (position en) (ht_table t ! en_row en) @ concat (drop (en_row en + 1) (ht_table t))
      else [])"

lemma enumerate_None:
  "rest t en = [] \<Longrightarrow> en_count en = 0 \<Longrightarrow> ht_enumerate t en = Some (None, en)"
  by (subst ht_enumerate.simps) simp

text \<open>Each step of an enumerator delivers the next pair; it can then be removed.\<close>

lemma enumerate_Cons:
  assumes "sized t" "rest t en = p # ps" "en_count en = length (p # ps)"
  shows "\<exists>en' i. ht_enumerate t en = Some (Some (pr_key p, pr_value p), en') \<and> rest t en' = ps \<and>
    en_count en' = length ps \<and> en_row en' < length (ht_table t) \<and> en_current en' = Some i \<and>
    i < length (ht_table t ! en_row en') \<and> ht_table t ! en_row en' ! i = p \<and>
    en_prev en' = (if i = 0 then None else Some (i - 1))"
  using assms(2,3)
proof (induction "length (ht_table t) - en_row en" arbitrary: en rule: less_induct)
  case less
  let ?row = "ht_table t ! en_row en" and ?i = "position en"
  have r: "en_row en < length (ht_table t)" using less.prems(1) by (auto simp: rest_def split: if_splits)
  then have g: "get_row t (en_row en) = Some ?row" "en_row en < unat (ht_capacity t)"
    using assms(1) by (simp_all add: get_row_def sized_def)
  show ?case
  proof (cases "?i < length ?row")
    case True
    let ?en = "en\<lparr>en_prev := en_current en, en_current := Some ?i, en_count := en_count en - 1\<rparr>"
    have n: "next_position (en_current en) ?row = Some ?i"
      using True by (auto simp: next_position_def position_def Let_def)
    have p: "p = ?row ! ?i" "ps = drop (?i + 1) ?row @ concat (drop (en_row en + 1) (ht_table t))"
      using less.prems(1) True r by (auto simp: rest_def Cons_nth_drop_Suc [symmetric])
    have "ht_enumerate t en = Some (Some (pr_key p, pr_value p), ?en)"
      using g n p(1) less.prems(2) by (subst ht_enumerate.simps) simp
    moreover have "rest t ?en = ps" using p(2) r by (simp add: rest_def position_def)
    moreover have "en_current en = (if ?i = 0 then None else Some (?i - 1))"
      by (simp add: position_def split: option.splits)
    ultimately show ?thesis using True r p(1) less.prems(2)
      by (intro exI [of _ ?en] exI [of _ ?i]) simp
  next
    case False
    let ?en = "en\<lparr>en_prev := en_current en, en_current := None, en_row := en_row en + 1\<rparr>"
    have n: "next_position (en_current en) ?row = None"
      using False by (auto simp: next_position_def position_def Let_def split: option.splits)
    have e: "ht_enumerate t en = ht_enumerate t ?en"
      using g n less.prems(2) by (subst ht_enumerate.simps) simp
    have c: "concat (drop (en_row en + 1) (ht_table t)) = p # ps"
      using less.prems(1) False r by (simp add: rest_def)
    then have "en_row en + 1 < length (ht_table t)" by (cases "en_row en + 1 < length (ht_table t)") auto
    then have "rest t ?en = p # ps"
      using c by (simp add: rest_def position_def Cons_nth_drop_Suc [symmetric])
    then show ?thesis unfolding e using less.hyps [of ?en] less.prems(2) r by simp
  qed
qed

lemma ht_remove_at_rest:
  assumes "ht_inv hash equals t" "en_row en < length (ht_table t)" "en_current en = Some i"
    "i < length (ht_table t ! en_row en)" "en_prev en = (if i = 0 then None else Some (i - 1))"
  shows "\<exists>u en'. ht_remove_at t en = Some (u, en') \<and> ht_inv hash equals u \<and> rest u en' = rest t en \<and>
    en_count en' = en_count en \<and> contents t = add_mset (ht_table t ! en_row en ! i) (contents u)"
proof -
  let ?row = "ht_table t ! en_row en"
  let ?ps = "take i ?row @ drop (i + 1) ?row"
  let ?u = "t\<lparr>ht_table := (ht_table t)[en_row en := ?ps], ht_count := ht_count t - 1\<rparr>"
  let ?en = "en\<lparr>en_current := en_prev en\<rparr>"
  have run: "ht_remove_at t en = Some (?u, ?en)"
    using assms(2,3) by (simp add: ht_remove_at_def get_row_def set_row_def)
  have "?row = take i ?row @ ?row ! i # drop (i + 1) ?row" using assms(4) by (simp add: id_take_nth_drop)
  then have "mset ?row = add_mset (?row ! i) (mset ?ps)"
    by (metis mset.simps(2) mset_append union_mset_add_mset_right)
  then have u: "contents t = add_mset (?row ! i) (contents ?u)" "ht_inv hash equals ?u"
    using ht_inv_unlink [OF assms(1,2) _ refl] by blast+
  have "position ?en = i" using assms(5) by (simp add: position_def)
  moreover have "position en = i + 1" using assms(3) by (simp add: position_def)
  ultimately have "rest ?u ?en = rest t en" using assms(2,4) by (simp add: rest_def)
  with run u show ?thesis by (intro exI [of _ ?u] exI [of _ ?en]) simp
qed

lemma ht_walk_rest:
  assumes "ht_inv hash equals t" "en_count en = length (rest t en)" "length (rest t en) < n"
  shows "\<exists>u. ht_walk n P t en = Some (map (\<lambda>p. (pr_key p, pr_value p)) (rest t en), u) \<and>
    ht_inv hash equals u \<and>
    contents t = contents u + filter_mset (\<lambda>p. P (pr_key p) (pr_value p)) (mset (rest t en))"
  using assms
proof (induction n arbitrary: t en)
  case (Suc n)
  show ?case
  proof (cases "rest t en")
    case Nil
    with enumerate_None [OF Nil] Suc.prems(1,2) show ?thesis by simp
  next
    case (Cons p ps)
    have "sized t" "en_count en = length (p # ps)"
      using Suc.prems(1,2) Cons by (simp_all add: ht_inv_def)
    then obtain en' i where e: "ht_enumerate t en = Some (Some (pr_key p, pr_value p), en')"
      "rest t en' = ps" "en_count en' = length ps" "en_row en' < length (ht_table t)"
      "en_current en' = Some i" "i < length (ht_table t ! en_row en')"
      "ht_table t ! en_row en' ! i = p" "en_prev en' = (if i = 0 then None else Some (i - 1))"
      using enumerate_Cons [OF _ Cons] by blast
    show ?thesis
    proof (cases "P (pr_key p) (pr_value p)")
      case True
      obtain v en'' where v: "ht_remove_at t en' = Some (v, en'')" "ht_inv hash equals v" "rest v en'' = ps"
        "en_count en'' = length ps" "contents t = add_mset p (contents v)"
        using ht_remove_at_rest [OF Suc.prems(1) e(4,5,6,8)] e(2,3,7) by auto
      have "length ps < n" using Suc.prems(3) Cons by simp
      with Suc.IH [OF v(2), of en''] v(3,4) obtain u where
        "ht_walk n P v en'' = Some (map (\<lambda>p. (pr_key p, pr_value p)) ps, u)" "ht_inv hash equals u"
        "contents v = contents u + filter_mset (\<lambda>p. P (pr_key p) (pr_value p)) (mset ps)"
        by auto
      with e(1) v(1,5) True Cons show ?thesis by simp
    next
      case False
      have "length ps < n" using Suc.prems(3) Cons by simp
      with Suc.IH [OF Suc.prems(1), of en'] e(2,3) obtain u where
        "ht_walk n P t en' = Some (map (\<lambda>p. (pr_key p, pr_value p)) ps, u)" "ht_inv hash equals u"
        "contents t = contents u + filter_mset (\<lambda>p. P (pr_key p) (pr_value p)) (mset ps)"
        by auto
      with e(1) False Cons show ?thesis by simp
    qed
  qed
qed simp

text \<open>
  C13. Walking over a table with an enumerator, and removing some of the pairs on the way,
  terminates, visits every pair exactly once and removes exactly the chosen ones.
\<close>

theorem ht_walk_visits_all:
  assumes "ht_inv hash equals t"
  shows "\<exists>seen u. ht_walk (ht_count t + 1) P t (ht_create_enumerator t) = Some (seen, u) \<and>
    mset seen = image_mset (\<lambda>p. (pr_key p, pr_value p)) (contents t) \<and> ht_inv hash equals u \<and>
    contents u = filter_mset (\<lambda>p. \<not> P (pr_key p) (pr_value p)) (contents t)"
proof -
  let ?en = "ht_create_enumerator t"
  have "rest t ?en = concat (ht_table t)"
    by (cases "ht_table t") (auto simp: rest_def ht_create_enumerator_def position_def)
  then have r: "mset (rest t ?en) = contents t" "en_count ?en = length (rest t ?en)"
    using assms by (simp_all add: contents_def ht_inv_def ht_create_enumerator_def)
  have "length (rest t ?en) < ht_count t + 1" using r(2) by (simp add: ht_create_enumerator_def)
  with ht_walk_rest [OF assms r(2)] obtain u where
    u: "ht_walk (ht_count t + 1) P t ?en = Some (map (\<lambda>p. (pr_key p, pr_value p)) (rest t ?en), u)"
    "ht_inv hash equals u"
    "contents t = contents u + filter_mset (\<lambda>p. P (pr_key p) (pr_value p)) (contents t)"
    unfolding r(1) by blast
  have "contents t = filter_mset (\<lambda>p. \<not> P (pr_key p) (pr_value p)) (contents t) +
      filter_mset (\<lambda>p. P (pr_key p) (pr_value p)) (contents t)"
    by (metis add.commute multiset_partition)
  then have "contents u = filter_mset (\<lambda>p. \<not> P (pr_key p) (pr_value p)) (contents t)"
    using u(3) by (metis add_right_imp_eq)
  moreover have "mset (map (\<lambda>p. (pr_key p, pr_value p)) (rest t ?en)) =
      image_mset (\<lambda>p. (pr_key p, pr_value p)) (contents t)"
    unfolding mset_map r(1) ..
  ultimately show ?thesis using u(1,2) by blast
qed

theorem ht_walk_visits_all_witness:
  "\<exists>t seen u. put (hashtable_create (\<lambda>k. of_nat k) (=) 1) (4 :: nat) ''a'' = Some (None, t) \<and>
     ht_walk (ht_count t + 1) (\<lambda>k v. k = 4) t (ht_create_enumerator t) = Some (seen, u) \<and>
     contents u = filter_mset (\<lambda>p. pr_key p \<noteq> 4) (contents t)"
proof -
  let ?t = "hashtable_create (\<lambda>k. of_nat k) (=) 1 :: (nat, string) hashtable"
  have "hash_ok of_nat ((=) :: nat \<Rightarrow> nat \<Rightarrow> bool)" by (simp add: hash_ok_def identity_equivp)
  then have "ht_inv of_nat (=) ?t \<and> ht_abs ?t = (\<lambda>_. None)" by (rule hashtable_create_ok) (rule refl)
  then have "ht_inv of_nat (=) ?t" "ht_abs ?t 4 = None" by simp_all
  then obtain t where t: "put ?t 4 ''a'' = Some (None, t)" "ht_inv of_nat (=) t"
    using put_ok [of of_nat "(=)" ?t 4 "''a''"] by auto
  with ht_walk_visits_all [OF t(2), of "\<lambda>k v. k = 4"] show ?thesis by blast
qed

end
