(* ===== verification/Scheduler.thy ===== *)
theory Scheduler
  imports Prelude
begin

text \<open>
  The event queue of \<^verbatim>\<open>processing/scheduler.c\<close>: a binary heap of timed jobs in an
  array that is indexed from 1, kept as the source keeps it (bottom insertion and bubbling
  up, moving the bottom event to the top and seeping it down). An operation is
  \<open>None\<close> if it dereferences a cell that holds no event or leaves the array; the
  lemmas show that this does not happen, that the heap is a priority queue (the contract
  \<open>time_queue\<close>), and what the scheduler thread may fire and when.
\<close>

section \<open>Times and events\<close>

datatype timeval = Timeval (tv_sec: int) (tv_usec: int)

definition timeval_cmp :: "timeval \<Rightarrow> timeval \<Rightarrow> int" where
  "timeval_cmp a b =
     (if tv_sec a > tv_sec b then 1
      else if tv_sec a < tv_sec b then -1
      else if tv_usec a > tv_usec b then 1
      else if tv_usec a < tv_usec b then -1
      else 0)"

text \<open>The order that \<^verbatim>\<open>timeval_cmp\<close> decides.\<close>

instantiation timeval :: linorder
begin

definition less_eq_timeval :: "timeval \<Rightarrow> timeval \<Rightarrow> bool" where
  "a \<le> b \<longleftrightarrow> tv_sec a < tv_sec b \<or> tv_sec a = tv_sec b \<and> tv_usec a \<le> tv_usec b"

definition less_timeval :: "timeval \<Rightarrow> timeval \<Rightarrow> bool" where
  "a < b \<longleftrightarrow> tv_sec a < tv_sec b \<or> tv_sec a = tv_sec b \<and> tv_usec a < tv_usec b"

instance
  by standard (auto simp: less_eq_timeval_def less_timeval_def timeval.expand)

end

lemma timeval_cmp_order [simp]:
  "0 < timeval_cmp a b \<longleftrightarrow> b < a" "timeval_cmp a b < 0 \<longleftrightarrow> a < b"
  "0 \<le> timeval_cmp a b \<longleftrightarrow> b \<le> a" "timeval_cmp a b \<le> 0 \<longleftrightarrow> a \<le> b"
  by (auto simp: timeval_cmp_def less_timeval_def less_eq_timeval_def)

record 'j event =
  ev_time :: timeval
  ev_job :: 'j

record 'j scheduler =
  heap :: "'j event option list"  \<comment> \<open>\<open>heap_size + 1\<close> cells, cell 0 is not used\<close>
  heap_size :: nat
  event_count :: nat

section \<open>Operations\<close>

text \<open>Dereferencing a cell, and storing into one.\<close>

definition cell :: "'a option list \<Rightarrow> nat \<Rightarrow> 'a option" where
  "cell h i = (if i < length h then h ! i else None)"

definition set_cell :: "'a option list \<Rightarrow> nat \<Rightarrow> 'a \<Rightarrow> 'a option list option" where
  "set_cell h i e = (if i < length h then Some (h[i := Some e]) else None)"

definition peek_event :: "'j scheduler \<Rightarrow> 'j event option" where
  "peek_event s = (if event_count s > 0 then cell (heap s) 1 else None)"

text \<open>The child of \<open>position\<close> the loop of \<open>remove_event\<close> compares with.\<close>

definition smaller_child :: "'j event option list \<Rightarrow> nat \<Rightarrow> nat \<Rightarrow> nat option" where
  "smaller_child h cnt position =
     (if 2 * position + 1 \<le> cnt
      then do {
        right \<leftarrow> cell h (2 * position + 1);
        left \<leftarrow> cell h (2 * position);
        Some (if timeval_cmp (ev_time right) (ev_time left) < 0
              then 2 * position + 1 else 2 * position)
      }
      else Some (2 * position))"

text \<open>
  The loop of \<open>remove_event\<close>. It starts at position 1; at position 0 it would
  not move.
\<close>

function seep_down ::
  "'j event option list \<Rightarrow> 'j event \<Rightarrow> nat \<Rightarrow> nat \<Rightarrow> 'j event option list option" where
  "seep_down h topev cnt position =
     (if position = 0 then None
      else if 2 * position \<le> cnt
      then do {
        child \<leftarrow> smaller_child h cnt position;
        c \<leftarrow> cell h child;
        if timeval_cmp (ev_time topev) (ev_time c) \<le> 0 then set_cell h position topev
        else do {
          h' \<leftarrow> set_cell h position c;
          seep_down h' topev cnt child
        }
      }
      else set_cell h position topev)"
  by pat_completeness auto
termination
  by (relation "measure (\<lambda>(h, topev, cnt, position). Suc cnt - position)")
    (auto simp: smaller_child_def bind_eq_Some_conv split: if_splits)

declare seep_down.simps [simp del]

definition remove_event :: "'j scheduler \<Rightarrow> ('j event option \<times> 'j scheduler) option" where
  "remove_event s =
     (if event_count s = 0 then Some (None, s)
      else do {
        event \<leftarrow> cell (heap s) 1;
        topev \<leftarrow> cell (heap s) (event_count s);
        h \<leftarrow> set_cell (heap s) 1 topev;
        let cnt = event_count s - 1;
        h \<leftarrow> (if cnt > 1 then seep_down h topev cnt 1 else Some h);
        Some (Some event, s\<lparr>heap := h, event_count := cnt\<rparr>)
      })"

text \<open>The loop of \<open>schedule_job_tv\<close>.\<close>

function bubble_up ::
  "'j event option list \<Rightarrow> 'j event \<Rightarrow> nat \<Rightarrow> 'j event option list option" where
  "bubble_up h event position =
     (if position > 1
      then do {
        parent \<leftarrow> cell h (position div 2);
        if timeval_cmp (ev_time parent) (ev_time event) > 0
        then do {
          h' \<leftarrow> set_cell h position parent;
          bubble_up h' event (position div 2)
        }
        else set_cell h position event
      }
      else set_cell h position event)"
  by pat_completeness auto
termination
  by (relation "measure (\<lambda>(h, event, position). position)") auto

declare bubble_up.simps [simp del]

definition schedule_job_tv :: "'j scheduler \<Rightarrow> 'j \<Rightarrow> timeval \<Rightarrow> 'j scheduler option" where
  "schedule_job_tv s job tv =
     (let event = \<lparr>ev_time = tv, ev_job = job\<rparr>;
          s1 = s\<lparr>event_count := event_count s + 1\<rparr>;
          s2 = (if event_count s1 > heap_size s1
                then s1\<lparr>heap_size := 2 * heap_size s1,
                       heap := heap s1 @ replicate (2 * heap_size s1 + 1 - length (heap s1)) None\<rparr>
                else s1)
      in do {
        h \<leftarrow> bubble_up (heap s2) event (event_count s2);
        Some (s2\<lparr>heap := h\<rparr>)
      })"

text \<open>\<^verbatim>\<open>time_monotonic(&tv)\<close> is the argument \<open>now\<close>.\<close>

definition schedule_job :: "timeval \<Rightarrow> 'j scheduler \<Rightarrow> 'j \<Rightarrow> u32 \<Rightarrow> 'j scheduler option" where
  "schedule_job now s job sec =
     schedule_job_tv s job (Timeval (tv_sec now + uint sec) (tv_usec now))"

text \<open>\<^verbatim>\<open>timeradd(3)\<close> of the C library.\<close>

definition timeradd :: "timeval \<Rightarrow> timeval \<Rightarrow> timeval" where
  "timeradd a b =
     (let sec = tv_sec a + tv_sec b; usec = tv_usec a + tv_usec b
      in if usec \<ge> 1000000 then Timeval (sec + 1) (usec - 1000000) else Timeval sec usec)"

definition schedule_job_ms :: "timeval \<Rightarrow> 'j scheduler \<Rightarrow> 'j \<Rightarrow> u32 \<Rightarrow> 'j scheduler option" where
  "schedule_job_ms now s job ms =
     schedule_job_tv s job
       (timeradd now (Timeval (uint (ms div 1000)) (uint ((ms mod 1000) * 1000))))"

text \<open>
  One run of the scheduler's job: it hands a due job to the processor, or waits until the
  next event or until it is signalled.
\<close>

datatype 'j action = Queue_job 'j | Wait_until timeval | Wait_signal

definition schedule :: "timeval \<Rightarrow> 'j scheduler \<Rightarrow> ('j action \<times> 'j scheduler) option" where
  "schedule now s =
     (case peek_event s of
        Some event \<Rightarrow>
          if timeval_cmp now (ev_time event) \<ge> 0
          then do {
            (_, s') \<leftarrow> remove_event s;
            Some (Queue_job (ev_job event), s')
          }
          else Some (Wait_until (ev_time event), s)
      | None \<Rightarrow> Some (Wait_signal, s))"

definition get_job_load :: "'j scheduler \<Rightarrow> nat" where
  "get_job_load s = event_count s"

text \<open>
  The loop of \<open>flush\<close>: remove events until there is none, here as the list of the
  events it destroys. \<open>event_count + 1\<close> rounds are enough.
\<close>

fun drain :: "('q \<Rightarrow> ('e option \<times> 'q) option) \<Rightarrow> nat \<Rightarrow> 'q \<Rightarrow> ('e list \<times> 'q) option" where
  "drain remove 0 q = None"
| "drain remove (Suc fuel) q = do {
     (event, q') \<leftarrow> remove q;
     case event of
       None \<Rightarrow> Some ([], q')
     | Some e \<Rightarrow> do {
         (es, q'') \<leftarrow> drain remove fuel q';
         Some (e # es, q'')
       }
   }"

definition flush :: "'j scheduler \<Rightarrow> ('j event list \<times> 'j scheduler) option" where
  "flush s = drain remove_event (Suc (event_count s)) s"

definition scheduler_create :: "'j scheduler" where
  "scheduler_create = \<lparr>heap = replicate (64 + 1) None, heap_size = 64, event_count = 0\<rparr>"


section \<open>The heap invariant\<close>

definition full :: "'j event option list \<Rightarrow> nat \<Rightarrow> bool" where
  "full h n \<longleftrightarrow> n < length h \<and> (\<forall>i. 1 \<le> i \<longrightarrow> i \<le> n \<longrightarrow> h ! i \<noteq> None)"

text \<open>The time of the event in a cell, and the events in the cells 1 to \<open>n\<close>.\<close>

definition tm :: "'j event option list \<Rightarrow> nat \<Rightarrow> timeval" where
  "tm h i = ev_time (the (h ! i))"

definition evs :: "'j event option list \<Rightarrow> nat \<Rightarrow> 'j event list" where
  "evs h n = map the (take n (drop 1 h))"

definition heap_ok :: "'j event option list \<Rightarrow> nat \<Rightarrow> bool" where
  "heap_ok h n \<longleftrightarrow> (\<forall>i. 2 \<le> i \<longrightarrow> i \<le> n \<longrightarrow> tm h (i div 2) \<le> tm h i)"

lemma tm_update [simp]:
  "tm (h[i := Some e]) j = (if i = j \<and> i < length h then ev_time e else tm h j)"
  by (cases "i < length h") (auto simp: tm_def nth_list_update list_update_beyond)

lemma full_update [simp]: "full h n \<Longrightarrow> full (h[i := Some e]) n"
  by (cases "i < length h") (auto simp: full_def nth_list_update list_update_beyond)

lemma full_cell: "full h n \<Longrightarrow> 1 \<le> i \<Longrightarrow> i \<le> n \<Longrightarrow> cell h i = Some (the (h ! i))"
  by (auto simp: full_def cell_def)

lemma set_cell_full: "full h n \<Longrightarrow> i \<le> n \<Longrightarrow> set_cell h i e = Some (h[i := Some e])"
  by (simp add: full_def set_cell_def)

lemma full_other_value: "full (h[i := Some a]) n \<Longrightarrow> full (h[i := Some b]) n"
  using full_update [of "h[i := Some a]" n i b] by simp

lemma length_evs: "n < length h \<Longrightarrow> length (evs h n) = n"
  by (auto simp: evs_def)

lemma nth_evs: "n < length h \<Longrightarrow> i < n \<Longrightarrow> evs h n ! i = the (h ! Suc i)"
  by (auto simp: evs_def)

lemma evs_update:
  "1 \<le> i \<Longrightarrow> evs (h[i := Some e]) n = (evs h n)[i - 1 := e]"
  by (simp add: evs_def drop_update_swap take_update_swap map_update)

text \<open>Moving the hole of the sifting loops is a swap of two events.\<close>

lemma mset_evs_swap:
  assumes "n < length h" "1 \<le> i" "i \<le> n" "1 \<le> j" "j \<le> n" "i \<noteq> j"
  shows "mset (evs (h[i := Some (the (h ! j)), j := Some e]) n) = mset (evs (h[i := Some e]) n)"
proof -
  let ?xs = "evs (h[i := Some e]) n"
  have len: "length ?xs = n" using assms(1) by (intro length_evs) simp
  have "?xs ! (i - 1) = e"
    using assms len by (simp add: evs_update length_evs)
  moreover have "?xs ! (j - 1) = the (h ! j)"
    using assms nth_evs [of n "h[i := Some e]" "j - 1"] by simp
  moreover have "mset (?xs[i - 1 := ?xs ! (j - 1), j - 1 := ?xs ! (i - 1)]) = mset ?xs"
    using assms len by (intro mset_swap) simp_all
  ultimately show ?thesis
    using assms by (simp add: evs_update)
qed

lemma heap_ok_root:
  assumes "heap_ok h n" "1 \<le> i" "i \<le> n"
  shows "tm h 1 \<le> tm h i"
  using assms(2,3)
proof (induction i rule: less_induct)
  case (less i)
  show ?case
  proof (cases "i = 1")
    case False
    with less.prems have "1 \<le> i div 2" "i div 2 \<le> n" "i div 2 < i" "2 \<le> i" by auto
    with less.IH [of "i div 2"] have "tm h 1 \<le> tm h (i div 2)" by simp
    also have "\<dots> \<le> tm h i"
      using assms(1) \<open>2 \<le> i\<close> less.prems(2) by (simp add: heap_ok_def)
    finally show ?thesis .
  qed simp
qed

section \<open>Seeping down\<close>

lemma child_cases: "i div 2 = p \<Longrightarrow> i = 2 * p \<or> i = 2 * p + 1" for i p :: nat
  by auto

lemma smaller_child_full:
  assumes "full h n" "1 \<le> p" "2 * p \<le> n"
  shows "\<exists>c. smaller_child h n p = Some c \<and> (c = 2 * p \<or> c = 2 * p + 1) \<and> c \<le> n \<and>
    (\<forall>i. 2 \<le> i \<longrightarrow> i \<le> n \<longrightarrow> i div 2 = p \<longrightarrow> tm h c \<le> tm h i)"
proof (cases "2 * p + 1 \<le> n")
  case False
  have "tm h (2 * p) \<le> tm h i" if "i \<le> n" "i div 2 = p" for i
    using False child_cases [OF that(2)] that(1) by auto
  with False assms show ?thesis by (simp add: smaller_child_def)
next
  case True
  let ?c = "if tm h (2 * p + 1) < tm h (2 * p) then 2 * p + 1 else 2 * p"
  have "smaller_child h n p = Some ?c"
    using True assms by (simp add: smaller_child_def full_cell tm_def)
  moreover have "tm h ?c \<le> tm h i" if "i div 2 = p" for i
    using child_cases [OF that] by auto
  moreover have "?c \<le> n" using True by simp
  ultimately show ?thesis by (intro exI [of _ ?c]) simp
qed

text \<open>
  \<open>ordered_but_below h n p\<close>: the heap order holds except between \<open>p\<close> and its
  children, and the parent of \<open>p\<close> fires before the children of \<open>p\<close>.
\<close>

definition ordered_but_below :: "'j event option list \<Rightarrow> nat \<Rightarrow> nat \<Rightarrow> bool" where
  "ordered_but_below h n p \<longleftrightarrow>
     (\<forall>i. 2 \<le> i \<longrightarrow> i \<le> n \<longrightarrow> i div 2 \<noteq> p \<longrightarrow> tm h (i div 2) \<le> tm h i) \<and>
     (\<forall>i. 2 \<le> i \<longrightarrow> i \<le> n \<longrightarrow> i div 2 = p \<longrightarrow> 2 \<le> p \<longrightarrow> tm h (p div 2) \<le> tm h i)"

lemma seep_step_ordered:
  assumes ord: "ordered_but_below (h[p := Some t]) n p"
    and full: "full h n" and p: "1 \<le> p" "p \<le> n"
    and c: "c = 2 * p \<or> c = 2 * p + 1" "c \<le> n"
    and least: "\<And>i. 2 \<le> i \<Longrightarrow> i \<le> n \<Longrightarrow> i div 2 = p \<Longrightarrow> tm h c \<le> tm h i"
    and later: "tm h c < ev_time t"
  shows "ordered_but_below (h[p := Some (the (h ! c)), c := Some t]) n c"
proof -
  have len: "p < length h" "c < length h" using full p c by (simp_all add: full_def)
  have cdiv: "c div 2 = p" "c \<noteq> p" "2 \<le> c" using c p by auto
  have tmc: "ev_time (the (h ! c)) = tm h c" by (simp add: tm_def)
  let ?H = "h[p := Some (the (h ! c)), c := Some t]"
  have up: "tm h (p div 2) \<le> tm h c" if "2 \<le> p"
  proof -
    have "tm (h[p := Some t]) (p div 2) \<le> tm (h[p := Some t]) c"
      using ord that c(2) cdiv unfolding ordered_but_below_def by blast
    moreover have "p \<noteq> p div 2" using that by auto
    ultimately show ?thesis using cdiv by simp
  qed
  have order: "tm h (i div 2) \<le> tm h i" if "2 \<le> i" "i \<le> n" "i div 2 \<noteq> p" "i \<noteq> p" for i
  proof -
    have "tm (h[p := Some t]) (i div 2) \<le> tm (h[p := Some t]) i"
      using ord that unfolding ordered_but_below_def by blast
    with that show ?thesis by simp
  qed
  have "tm ?H (i div 2) \<le> tm ?H i" if i: "2 \<le> i" "i \<le> n" "i div 2 \<noteq> c" for i
  proof -
    consider "i div 2 = p" "i = c" | "i div 2 = p" "i \<noteq> c" | "i div 2 \<noteq> p" "i = p"
      | "i div 2 \<noteq> p" "i \<noteq> p" by blast
    then show ?thesis
    proof cases
      case 1
      then show ?thesis using later len cdiv tmc by simp
    next
      case 2
      then have "p \<noteq> i" using i p by auto
      with 2 show ?thesis using least [of i] i len tmc cdiv by simp
    next
      case 3
      then show ?thesis using up i(1) len tmc cdiv i(3) by simp
    next
      case 4
      then have "i \<noteq> c" using cdiv by auto
      with 4 show ?thesis using order [of i] i by simp
    qed
  qed
  moreover have "tm ?H (c div 2) \<le> tm ?H i" if i: "2 \<le> i" "i \<le> n" "i div 2 = c" for i
  proof -
    have "i \<noteq> c" "i \<noteq> p" "i div 2 \<noteq> p" using i cdiv p by auto
    then show ?thesis using order [of i] i len cdiv tmc by simp
  qed
  ultimately show ?thesis by (auto simp: ordered_but_below_def)
qed

lemma ordered_stop:
  assumes ord: "ordered_but_below (h[p := Some t]) n p" and full: "full h n" "p \<le> n" "1 \<le> p"
    and stop: "\<And>i. 2 \<le> i \<Longrightarrow> i \<le> n \<Longrightarrow> i div 2 = p \<Longrightarrow> ev_time t \<le> tm h i"
  shows "heap_ok (h[p := Some t]) n"
  unfolding heap_ok_def
proof (intro allI impI)
  fix i assume i: "2 \<le> i" "i \<le> n"
  show "tm (h[p := Some t]) (i div 2) \<le> tm (h[p := Some t]) i"
  proof (cases "i div 2 = p")
    case True
    then have "i \<noteq> p" using i full(3) by auto
    then show ?thesis using True stop [OF i] full by (simp add: full_def)
  next
    case False
    then show ?thesis using ord i by (simp add: ordered_but_below_def)
  qed
qed

lemma seep_down_correct:
  assumes "full h n" "1 \<le> p" "p \<le> n" "ordered_but_below (h[p := Some t]) n p"
  shows "\<exists>h'. seep_down h t n p = Some h' \<and> length h' = length h \<and> full h' n \<and> heap_ok h' n \<and>
    mset (evs h' n) = mset (evs (h[p := Some t]) n)"
  using assms
proof (induction h t n p rule: seep_down.induct)
  case (1 h t n p)
  note full = "1.prems"(1) and p = "1.prems"(2,3) and ord = "1.prems"(4)
  show ?case
  proof (cases "2 * p \<le> n")
    case False
    have "heap_ok (h[p := Some t]) n"
      using ord full p(2,1) by (rule ordered_stop) (use False in auto)
    with False p full show ?thesis
      by (subst seep_down.simps) (simp add: set_cell_full)
  next
    case True
    obtain c where c: "smaller_child h n p = Some c" "c = 2 * p \<or> c = 2 * p + 1" "c \<le> n"
      and least: "\<And>i. 2 \<le> i \<Longrightarrow> i \<le> n \<Longrightarrow> i div 2 = p \<Longrightarrow> tm h c \<le> tm h i"
      using smaller_child_full [OF full p(1) True] by blast
    have c1: "1 \<le> c" "p \<noteq> c" using c(2) p by auto
    have cell: "cell h c = Some (the (h ! c))" using full c1 c(3) by (simp add: full_cell)
    show ?thesis
    proof (cases "ev_time t \<le> tm h c")
      case stop: True
      have "heap_ok (h[p := Some t]) n"
        using ord full p(2,1) by (rule ordered_stop) (rule order_trans [OF stop least])
      with True p full c(1) cell stop show ?thesis
        by (subst seep_down.simps) (simp add: set_cell_full tm_def)
    next
      case False
      let ?h = "h[p := Some (the (h ! c))]"
      from False have later: "tm h c < ev_time t" by simp
      have "ordered_but_below (?h[c := Some t]) n c"
        by (rule seep_step_ordered [OF ord full p c(2,3) least later])
      moreover have eq: "seep_down h t n p = seep_down ?h t n c"
        using True p full c(1) cell False
        by (subst seep_down.simps) (simp add: set_cell_full tm_def)
      moreover have "set_cell h p (the (h ! c)) = Some ?h"
        using full p(2) by (rule set_cell_full)
      ultimately have "\<exists>h'. seep_down ?h t n c = Some h' \<and> length h' = length ?h \<and> full h' n \<and>
          heap_ok h' n \<and> mset (evs h' n) = mset (evs (?h[c := Some t]) n)"
        using p True c1 c(1,3) cell False full
        by (intro "1.IH" [of c "the (h ! c)" ?h]) (simp_all add: tm_def)
      with eq mset_evs_swap [OF _ p c1(1) c(3) c1(2)] full show ?thesis by (auto simp: full_def)
    qed
  qed
qed


section \<open>Bubbling up\<close>

text \<open>
  \<open>ordered_but_above h n p\<close>: the heap order holds except between \<open>p\<close> and its
  parent, and the parent of \<open>p\<close> fires before the children of \<open>p\<close>.
\<close>

definition ordered_but_above :: "'j event option list \<Rightarrow> nat \<Rightarrow> nat \<Rightarrow> bool" where
  "ordered_but_above h n p \<longleftrightarrow>
     (\<forall>i. 2 \<le> i \<longrightarrow> i \<le> n \<longrightarrow> i \<noteq> p \<longrightarrow> tm h (i div 2) \<le> tm h i) \<and>
     (\<forall>i. 2 \<le> i \<longrightarrow> i \<le> n \<longrightarrow> i div 2 = p \<longrightarrow> 2 \<le> p \<longrightarrow> tm h (p div 2) \<le> tm h i)"

lemma bubble_step_ordered:
  assumes ord: "ordered_but_above (h[p := Some t]) n p"
    and n: "n < length h" and p: "2 \<le> p" "p \<le> n"
    and later: "ev_time t < tm h (p div 2)"
  shows "ordered_but_above (h[p := Some (the (h ! (p div 2))), p div 2 := Some t]) n (p div 2)"
proof -
  let ?q = "p div 2"
  let ?H = "h[p := Some (the (h ! ?q)), ?q := Some t]"
  have q: "1 \<le> ?q" "?q < p" "?q \<noteq> p" using p by auto
  have len: "p < length h" "?q < length h" using n p q by linarith+
  have tmq: "ev_time (the (h ! ?q)) = tm h ?q" by (simp add: tm_def)
  have order: "tm h (i div 2) \<le> tm h i" if "2 \<le> i" "i \<le> n" "i \<noteq> p" "i div 2 \<noteq> p" for i
  proof -
    have "tm (h[p := Some t]) (i div 2) \<le> tm (h[p := Some t]) i"
      using ord that unfolding ordered_but_above_def by blast
    with that show ?thesis by simp
  qed
  have below: "tm h ?q \<le> tm h i" if "2 \<le> i" "i \<le> n" "i div 2 = p" for i
  proof -
    have "tm (h[p := Some t]) ?q \<le> tm (h[p := Some t]) i"
      using ord that p unfolding ordered_but_above_def by blast
    moreover have "i \<noteq> p" "p \<noteq> ?q" using that q by auto
    ultimately show ?thesis by simp
  qed
  have "tm ?H (i div 2) \<le> tm ?H i" if i: "2 \<le> i" "i \<le> n" "i \<noteq> ?q" for i
  proof -
    consider "i = p" | "i \<noteq> p" "i div 2 = p" | "i \<noteq> p" "i div 2 = ?q"
      | "i \<noteq> p" "i div 2 \<noteq> p" "i div 2 \<noteq> ?q" by blast
    then show ?thesis
    proof cases
      case 1
      then show ?thesis using q by (simp add: len tmq less_imp_le [OF later])
    next
      case 2
      then show ?thesis using below [of i] i q by (simp add: len tmq)
    next
      case 3
      then have "tm h ?q \<le> tm h i" using order [of i] i by simp
      then have "ev_time t \<le> tm h i" using later by simp
      with 3 show ?thesis using i q by (simp add: len)
    next
      case 4
      then show ?thesis using order [of i] i by simp
    qed
  qed
  moreover have "tm ?H (?q div 2) \<le> tm ?H i" if i: "2 \<le> i" "i \<le> n" "i div 2 = ?q" "2 \<le> ?q" for i
  proof -
    have up: "tm h (?q div 2) \<le> tm h ?q" using order [of ?q] i(4) q p by auto
    have ne: "?q div 2 \<noteq> ?q" "?q div 2 \<noteq> p" "i \<noteq> ?q" using i q by auto
    show ?thesis
    proof (cases "i = p")
      case True
      then show ?thesis using up ne q by (simp add: len tmq)
    next
      case False
      then have "tm h ?q \<le> tm h i" using order [of i] i q by simp
      with up ne False show ?thesis by simp
    qed
  qed
  ultimately show ?thesis by (auto simp: ordered_but_above_def)
qed

lemma bubble_up_correct:
  assumes "full (h[p := Some t]) n" "1 \<le> p" "p \<le> n" "ordered_but_above (h[p := Some t]) n p"
    "\<And>i. 1 \<le> i \<Longrightarrow> i < p \<Longrightarrow> h ! i \<noteq> None"
  shows "\<exists>h'. bubble_up h t p = Some h' \<and> length h' = length h \<and> full h' n \<and> heap_ok h' n \<and>
    mset (evs h' n) = mset (evs (h[p := Some t]) n)"
  using assms
proof (induction h t p rule: bubble_up.induct)
  case (1 h t p)
  let ?H = "h[p := Some t]" and ?q = "p div 2"
  note full = "1.prems"(1) and p = "1.prems"(2,3) and ord = "1.prems"(4)
  have len: "n < length h" using full by (simp add: full_def)
  have set: "set_cell h p x = Some (h[p := Some x])" for x
    using len p by (simp add: set_cell_def)
  show ?case
  proof (cases "2 \<le> p \<and> ev_time t < tm h ?q")
    case False
    have "heap_ok ?H n"
      unfolding heap_ok_def
    proof (intro allI impI)
      fix i assume i: "2 \<le> i" "i \<le> n"
      show "tm ?H (i div 2) \<le> tm ?H i"
      proof (cases "i = p")
        case True
        then show ?thesis using False i len p by auto
      next
        case False
        then show ?thesis using ord i by (simp add: ordered_but_above_def)
      qed
    qed
    moreover have "bubble_up h t p = Some ?H"
    proof (cases "2 \<le> p")
      case True
      then have "1 \<le> ?q" "?q < p" by auto
      then have "h ! ?q \<noteq> None" using "1.prems"(5) [of ?q] by simp
      then have "cell h ?q = Some (the (h ! ?q))" using len p \<open>?q < p\<close> by (simp add: cell_def)
      with True False show ?thesis
        by (subst bubble_up.simps) (simp add: set tm_def)
    next
      case False
      then show ?thesis by (subst bubble_up.simps) (simp add: set)
    qed
    ultimately show ?thesis using full by auto
  next
    case True
    then have q: "1 \<le> ?q" "?q < p" "?q \<noteq> p" by auto
    then have hq: "h ! ?q \<noteq> None" using "1.prems"(5) [of ?q] by simp
    moreover have "?q < length h" using len p q by linarith
    ultimately have cell: "cell h ?q = Some (the (h ! ?q))" by (simp add: cell_def)
    let ?h = "h[p := Some (the (h ! ?q))]"
    have "\<exists>h'. bubble_up ?h t ?q = Some h' \<and> length h' = length ?h \<and> full h' n \<and> heap_ok h' n \<and>
        mset (evs h' n) = mset (evs (?h[?q := Some t]) n)"
    proof (rule "1.IH" [of "the (h ! ?q)" ?h])
      show "1 < p" "0 < timeval_cmp (ev_time (the (h ! ?q))) (ev_time t)"
        using True by (simp_all add: tm_def)
      show "full (?h[?q := Some t]) n"
        using full_other_value [OF full] by simp
      show "ordered_but_above (?h[?q := Some t]) n ?q"
        using ord len p True by (intro bubble_step_ordered) simp_all
      show "?h ! i \<noteq> None" if "1 \<le> i" "i < ?q" for i
        using that q "1.prems"(5) [of i] by simp
    qed (use cell set q p in simp_all)
    moreover have "bubble_up h t p = bubble_up ?h t ?q"
      using True cell by (subst bubble_up.simps) (simp add: set tm_def)
    moreover have "mset (evs (?h[?q := Some t]) n) = mset (evs ?H n)"
      using len p q by (intro mset_evs_swap) simp_all
    ultimately show ?thesis by simp
  qed
qed


section \<open>The contract of an event queue\<close>

text \<open>
  \<open>content\<close> are the queued events, ordered by \<open>key\<close>: adding never fails,
  removing yields an event with the least key, or none exactly if the queue is empty.
\<close>

locale time_queue =
  fixes add :: "'e \<Rightarrow> 'q \<Rightarrow> 'q option"
    and remove :: "'q \<Rightarrow> ('e option \<times> 'q) option"
    and ok :: "'q \<Rightarrow> bool"
    and content :: "'q \<Rightarrow> 'e multiset"
    and key :: "'e \<Rightarrow> 'k::linorder"
  assumes add_ok: "ok q \<Longrightarrow> \<exists>q'. add e q = Some q' \<and> ok q' \<and> content q' = add_mset e (content q)"
    and remove_empty: "ok q \<Longrightarrow> content q = {#} \<Longrightarrow> remove q = Some (None, q)"
    and remove_least: "ok q \<Longrightarrow> content q \<noteq> {#} \<Longrightarrow>
      \<exists>e q'. remove q = Some (Some e, q') \<and> ok q' \<and> content q = add_mset e (content q') \<and>
        (\<forall>x \<in># content q. key e \<le> key x)"
begin

lemma drain_sorted:
  assumes "ok q" "size (content q) < fuel"
  shows "\<exists>es q'. drain remove fuel q = Some (es, q') \<and> ok q' \<and> content q' = {#} \<and>
    mset es = content q \<and> sorted (map key es)"
  using assms
proof (induction fuel arbitrary: q)
  case (Suc fuel)
  show ?case
  proof (cases "content q = {#}")
    case True
    with Suc.prems show ?thesis by (simp add: remove_empty)
  next
    case False
    obtain e q' where rem: "remove q = Some (Some e, q')" "ok q'"
      "content q = add_mset e (content q')" "\<forall>x \<in># content q. key e \<le> key x"
      using remove_least [OF Suc.prems(1) False] by blast
    with Suc.prems(2) have "size (content q') < fuel" by simp
    from Suc.IH [OF rem(2) this] obtain es q'' where es: "drain remove fuel q' = Some (es, q'')"
      "ok q''" "content q'' = {#}" "mset es = content q'" "sorted (map key es)" by blast
    have "x \<in># content q" if "x \<in> set es" for x
      using es(4) rem(3) that by (metis insert_iff set_mset_add_mset_insert set_mset_mset)
    with rem es show ?thesis by auto
  qed
qed simp

end


section \<open>The heap implements the contract\<close>

definition scheduler_inv :: "'j scheduler \<Rightarrow> bool" where
  "scheduler_inv s \<longleftrightarrow> 1 \<le> heap_size s \<and> length (heap s) = heap_size s + 1 \<and>
     event_count s \<le> heap_size s \<and> full (heap s) (event_count s) \<and> heap_ok (heap s) (event_count s)"

definition pending :: "'j scheduler \<Rightarrow> 'j event multiset" where
  "pending s = mset (evs (heap s) (event_count s))"

lemma scheduler_inv_create [simp]: "scheduler_inv scheduler_create"
  by (simp add: scheduler_inv_def scheduler_create_def full_def heap_ok_def)

lemma pending_create [simp]: "pending scheduler_create = {#}"
  by (simp add: pending_def scheduler_create_def evs_def)

lemma size_pending: "scheduler_inv s \<Longrightarrow> size (pending s) = event_count s"
  by (simp add: scheduler_inv_def pending_def full_def length_evs)

lemma evs_Suc: "Suc n < length h \<Longrightarrow> evs h (Suc n) = evs h n @ [the (h ! Suc n)]"
  by (simp add: evs_def take_Suc_conv_app_nth)

lemma evs_append: "n < length h \<Longrightarrow> evs (h @ h') n = evs h n"
  by (simp add: evs_def)

lemma heap_ok_cong:
  assumes "\<And>i. 1 \<le> i \<Longrightarrow> i \<le> n \<Longrightarrow> tm h i = tm h' i"
  shows "heap_ok h n = heap_ok h' n"
proof -
  have "tm h (i div 2) = tm h' (i div 2)" "tm h i = tm h' i" if "2 \<le> i" "i \<le> n" for i
    using that assms [of "i div 2"] assms [of i] by auto
  then show ?thesis by (auto simp: heap_ok_def)
qed

lemma schedule_job_tv_ok:
  assumes "scheduler_inv s"
  shows "\<exists>s'. schedule_job_tv s job tv = Some s' \<and> scheduler_inv s' \<and>
    pending s' = add_mset \<lparr>ev_time = tv, ev_job = job\<rparr> (pending s)"
proof -
  let ?n = "Suc (event_count s)" and ?e = "\<lparr>ev_time = tv, ev_job = job\<rparr>"
  let ?size = "if ?n > heap_size s then 2 * heap_size s else heap_size s"
  let ?h = "if ?n > heap_size s then heap s @ replicate (heap_size s) None else heap s"
  let ?H = "?h[?n := Some ?e]"
  note inv = assms [unfolded scheduler_inv_def]
  have len: "length ?h = ?size + 1" "?n \<le> ?size" using inv by auto
  have nth: "?h ! i = heap s ! i" if "i < ?n" for i
    using that inv by (auto simp: nth_append)
  have full: "full ?H ?n"
    using inv len nth by (auto simp: full_def nth_list_update le_Suc_eq)
  have tm: "tm ?H i = tm (heap s) i" if "i < ?n" for i
    using that nth by (auto simp: tm_def)
  have "ordered_but_above ?H ?n ?n"
    unfolding ordered_but_above_def
  proof (intro conjI allI impI)
    fix i assume i: "2 \<le> i" "i \<le> ?n" "i \<noteq> ?n"
    then have lt: "i div 2 < ?n" "i < ?n" by auto
    show "tm ?H (i div 2) \<le> tm ?H i"
      unfolding tm [OF lt(1)] tm [OF lt(2)] using inv i by (simp add: heap_ok_def)
  qed auto
  with full obtain h' where h': "bubble_up ?h ?e ?n = Some h'" "length h' = length ?h"
    "full h' ?n" "heap_ok h' ?n" "mset (evs h' ?n) = mset (evs ?H ?n)"
    using bubble_up_correct [of ?h ?n ?e ?n] nth inv by (auto simp: full_def)
  let ?s = "s\<lparr>event_count := ?n, heap_size := ?size, heap := h'\<rparr>"
  have "schedule_job_tv s job tv = Some ?s"
    using h' inv by (auto simp: schedule_job_tv_def Let_def)
  moreover have "scheduler_inv ?s" using h' len inv by (simp add: scheduler_inv_def)
  moreover have "evs ?H ?n = evs (heap s) (event_count s) @ [?e]"
    using len inv by (simp add: evs_Suc evs_update length_evs evs_append list_update_beyond)
  ultimately show ?thesis using h'(5) by (simp add: pending_def)
qed


lemma heap_root_least:
  assumes "full h n" "heap_ok h n" "x \<in> set (evs h n)"
  shows "ev_time (the (h ! 1)) \<le> ev_time x"
proof -
  obtain i where i: "i < n" "x = evs h n ! i"
    using assms(1,3) by (metis full_def in_set_conv_nth length_evs)
  with assms(1) have "x = the (h ! Suc i)" by (simp add: nth_evs full_def)
  with heap_ok_root [OF assms(2), of "Suc i"] i show ?thesis by (simp add: tm_def)
qed

lemma remove_event_empty:
  assumes "scheduler_inv s" "pending s = {#}"
  shows "remove_event s = Some (None, s)"
  using size_pending [OF assms(1)] assms(2) by (simp add: remove_event_def)

text \<open>Moving the bottom event to the top leaves the heap order broken below the top only.\<close>

lemma top_replaced_ordered:
  assumes "heap_ok h n" "2 < n"
  shows "ordered_but_below (h[1 := Some e]) (n - 1) 1"
  using assms by (auto simp: ordered_but_below_def heap_ok_def)

lemma evs_remove_root:
  assumes "n < length h" "0 < n"
  shows "mset (evs h n) = add_mset (the (h ! 1)) (mset (evs (h[1 := Some (the (h ! n))]) (n - 1)))"
proof (cases "n = 1")
  case True
  with assms show ?thesis by (simp add: evs_Suc [of 0]) (simp add: evs_def)
next
  case False
  with assms obtain m where n: "n = Suc (Suc m)" by (metis One_nat_def gr0_implies_Suc not0_implies_Suc)
  have d: "drop 1 g = g ! 1 # drop 2 g" if "length g = length h" for g :: "'a event option list"
    using that assms n by (simp add: Cons_nth_drop_Suc numeral_2_eq_2)
  have t: "take (Suc m) (drop 2 h) = take m (drop 2 h) @ [h ! n]"
    using assms n by (simp add: take_Suc_conv_app_nth)
  have "evs h n = the (h ! 1) # map the (take m (drop 2 h)) @ [the (h ! n)]"
    using n t by (simp add: evs_def d del: One_nat_def)
  moreover have "evs (h[1 := Some (the (h ! n))]) (n - 1) =
      the (h ! n) # map the (take m (drop 2 h))"
    using assms n by (simp add: evs_def d del: One_nat_def)
  ultimately show ?thesis by simp
qed

lemma remove_event_least:
  assumes inv: "scheduler_inv s" and ne: "pending s \<noteq> {#}"
  shows "\<exists>s'. remove_event s = Some (Some (the (heap s ! 1)), s') \<and> scheduler_inv s' \<and>
    pending s = add_mset (the (heap s ! 1)) (pending s') \<and>
    (\<forall>x \<in># pending s. ev_time (the (heap s ! 1)) \<le> ev_time x)"
proof -
  let ?n = "event_count s" and ?h = "heap s"
  note i = inv [unfolded scheduler_inv_def]
  have n: "0 < ?n" using size_pending [OF inv] ne by (metis nonempty_has_size)
  let ?h1 = "?h[1 := Some (the (?h ! ?n))]"
  have cells: "cell ?h 1 = Some (the (?h ! 1))" "cell ?h ?n = Some (the (?h ! ?n))"
    "set_cell ?h 1 (the (?h ! ?n)) = Some ?h1"
    using i n full_cell [of ?h ?n 1] full_cell [of ?h ?n ?n] set_cell_full [of ?h ?n 1]
    by simp_all
  have full1: "full ?h1 (?n - 1)" using i by (auto simp: full_def nth_list_update)
  obtain h' where h': "(if ?n - 1 > 1 then seep_down ?h1 (the (?h ! ?n)) (?n - 1) 1 else Some ?h1)
      = Some h'" "length h' = length ?h" "full h' (?n - 1)" "heap_ok h' (?n - 1)"
    "mset (evs h' (?n - 1)) = mset (evs ?h1 (?n - 1))"
  proof (cases "?n - 1 > 1")
    case True
    have "ordered_but_below (?h1[1 := Some (the (?h ! ?n))]) (?n - 1) 1"
      using top_replaced_ordered [of ?h ?n] i True by simp
    from seep_down_correct [OF full1 _ _ this] True obtain h'
      where "seep_down ?h1 (the (?h ! ?n)) (?n - 1) 1 = Some h'" "length h' = length ?h1"
        "full h' (?n - 1)" "heap_ok h' (?n - 1)"
        "mset (evs h' (?n - 1)) = mset (evs (?h1[1 := Some (the (?h ! ?n))]) (?n - 1))"
      by auto
    with True show ?thesis by (intro that [of h']) simp_all
  next
    case False
    with full1 show ?thesis by (intro that [of ?h1]) (simp_all add: heap_ok_def)
  qed
  let ?s = "s\<lparr>heap := h', event_count := ?n - 1\<rparr>"
  have "remove_event s = Some (Some (the (?h ! 1)), ?s)"
    using n cells h'(1) by (simp add: remove_event_def Let_def del: One_nat_def)
  moreover have "scheduler_inv ?s" using i h'(2-4) by (auto simp: scheduler_inv_def)
  moreover have "pending s = add_mset (the (?h ! 1)) (pending ?s)"
    using evs_remove_root [of ?n ?h] i n h'(5) by (simp add: pending_def)
  moreover have "\<forall>x \<in># pending s. ev_time (the (?h ! 1)) \<le> ev_time x"
    using heap_root_least [of ?h ?n] i by (simp add: pending_def)
  ultimately show ?thesis by blast
qed

interpretation sq: time_queue "\<lambda>e s. schedule_job_tv s (ev_job e) (ev_time e)" remove_event
    scheduler_inv pending ev_time
proof
  fix q :: "'a scheduler" and e :: "'a event"
  assume q: "scheduler_inv q"
  show "\<exists>q'. schedule_job_tv q (ev_job e) (ev_time e) = Some q' \<and> scheduler_inv q' \<and>
      pending q' = add_mset e (pending q)"
    using schedule_job_tv_ok [OF q, of "ev_job e" "ev_time e"] by (cases e) simp
  show "remove_event q = Some (None, q)" if "pending q = {#}"
    using q that by (rule remove_event_empty)
  show "\<exists>e q'. remove_event q = Some (Some e, q') \<and> scheduler_inv q' \<and>
      pending q = add_mset e (pending q') \<and> (\<forall>x \<in># pending q. ev_time e \<le> ev_time x)"
    if "pending q \<noteq> {#}"
    using remove_event_least [OF q that] by blast
qed



section \<open>What the scheduler does\<close>

lemma peek_event_inv:
  assumes "scheduler_inv s"
  shows "peek_event s = (if pending s = {#} then None else Some (the (heap s ! 1)))"
proof (cases "event_count s = 0")
  case True
  with size_pending [OF assms] show ?thesis by (simp add: peek_event_def)
next
  case False
  with size_pending [OF assms] assms full_cell [of "heap s" "event_count s" 1] show ?thesis
    by (auto simp: peek_event_def scheduler_inv_def)
qed

text \<open>
  C12. Scheduling a job always succeeds, also when the heap has to grow, and adds exactly this
  one event to the pending ones.
\<close>

theorem schedule_job_tv_adds:
  assumes "scheduler_inv s"
  shows "\<exists>s'. schedule_job_tv s job tv = Some s' \<and> scheduler_inv s' \<and>
    pending s' = add_mset \<lparr>ev_time = tv, ev_job = job\<rparr> (pending s) \<and>
    get_job_load s' = get_job_load s + 1"
proof -
  obtain s' where "schedule_job_tv s job tv = Some s'" "scheduler_inv s'"
    "pending s' = add_mset \<lparr>ev_time = tv, ev_job = job\<rparr> (pending s)"
    using schedule_job_tv_ok [OF assms] by blast
  then show ?thesis
    using size_pending [of s'] size_pending [OF assms] by (simp add: get_job_load_def)
qed

theorem schedule_job_tv_adds_witness:
  "\<exists>s'. schedule_job_tv scheduler_create (7 :: nat) (Timeval 3 5) = Some s' \<and>
     pending s' = {#\<lparr>ev_time = Timeval 3 5, ev_job = 7\<rparr>#}"
  using schedule_job_tv_adds [OF scheduler_inv_create, of "7 :: nat" "Timeval 3 5"] by auto

lemma schedule_inv_cases:
  assumes "scheduler_inv s"
  shows "\<exists>a s'. schedule now s = Some (a, s') \<and> scheduler_inv s' \<and>
    (case a of
       Queue_job j \<Rightarrow> \<exists>tv. tv \<le> now \<and> (\<forall>x \<in># pending s. tv \<le> ev_time x) \<and>
         pending s = add_mset \<lparr>ev_time = tv, ev_job = j\<rparr> (pending s')
     | Wait_until tv \<Rightarrow> s' = s \<and> now < tv \<and> (\<forall>x \<in># pending s. tv \<le> ev_time x)
     | Wait_signal \<Rightarrow> s' = s \<and> pending s = {#})"
proof (cases "pending s = {#}")
  case True
  with assms show ?thesis by (simp add: schedule_def peek_event_inv)
next
  case False
  let ?e = "the (heap s ! 1)"
  obtain s' where s': "remove_event s = Some (Some ?e, s')" "scheduler_inv s'"
    "pending s = add_mset ?e (pending s')" "\<forall>x \<in># pending s. ev_time ?e \<le> ev_time x"
    using remove_event_least [OF assms False] by blast
  have peek: "peek_event s = Some ?e" using assms False by (simp add: peek_event_inv)
  have e: "?e = \<lparr>ev_time = ev_time ?e, ev_job = ev_job ?e\<rparr>" by (cases ?e) simp
  show ?thesis
  proof (cases "ev_time ?e \<le> now")
    case True
    then have "schedule now s = Some (Queue_job (ev_job ?e), s')"
      using peek s'(1) by (simp add: schedule_def)
    with s' e True show ?thesis by auto
  next
    case False
    then have "schedule now s = Some (Wait_until (ev_time ?e), s)"
      using peek by (simp add: schedule_def)
    with assms False s'(4) show ?thesis by auto
  qed
qed

text \<open>
  C9. Flushing terminates, takes out every pending event exactly once, in the order of their
  times, and leaves an empty queue.
\<close>

theorem flush_empties_in_order:
  assumes "scheduler_inv s"
  shows "\<exists>es s'. flush s = Some (es, s') \<and> scheduler_inv s' \<and> pending s' = {#} \<and>
    mset es = pending s \<and> sorted (map ev_time es)"
  using sq.drain_sorted [OF assms, of "Suc (event_count s)"] size_pending [OF assms]
  by (simp add: flush_def)

theorem flush_empties_in_order_witness:
  "\<exists>es s'. flush (scheduler_create :: nat scheduler) = Some (es, s') \<and> mset es = {#}"
  using flush_empties_in_order [OF scheduler_inv_create] by auto


section \<open>Whole executions\<close>

text \<open>
  Threads schedule jobs while the scheduler's job runs; every interleaving of these steps is a
  run. \<open>sched\<close> collects what was scheduled, \<open>log\<close> what was handed to the
  processor and when.
\<close>

inductive sched_run :: "'j scheduler \<Rightarrow> 'j event multiset \<Rightarrow> (timeval \<times> 'j) list \<Rightarrow> bool" where
  create: "sched_run scheduler_create {#} []"
| add: "sched_run s sched log \<Longrightarrow> schedule_job_tv s job tv = Some s' \<Longrightarrow>
    sched_run s' (add_mset \<lparr>ev_time = tv, ev_job = job\<rparr> sched) log"
| fire: "sched_run s sched log \<Longrightarrow> schedule now s = Some (Queue_job j, s') \<Longrightarrow>
    sched_run s' sched ((now, j) # log)"
| wait_until: "sched_run s sched log \<Longrightarrow> schedule now s = Some (Wait_until tv, s') \<Longrightarrow>
    sched_run s' sched log"
| wait_signal: "sched_run s sched log \<Longrightarrow> schedule now s = Some (Wait_signal, s') \<Longrightarrow>
    sched_run s' sched log"



lemma schedule_invD:
  assumes "scheduler_inv s" "schedule now s = Some (a, s')"
  shows "scheduler_inv s'"
    and "a = Queue_job j \<Longrightarrow>
      \<exists>tv \<le> now. pending s = add_mset \<lparr>ev_time = tv, ev_job = j\<rparr> (pending s')"
    and "\<not> (\<exists>j. a = Queue_job j) \<Longrightarrow> s' = s"
  using schedule_inv_cases [OF assms(1), of now] assms(2)
  by (auto split: action.splits)

lemma sched_run_inv: "sched_run s sched log \<Longrightarrow> scheduler_inv s"
proof (induction rule: sched_run.induct)
  case (add s sched log job tv s')
  with schedule_job_tv_ok [of s job tv] show ?case by auto
qed (use schedule_invD(1) in \<open>auto intro: scheduler_inv_create\<close>)



text \<open>
  C6. No event is lost, duplicated or fired early: in every run, what was scheduled is what is
  still pending together with what was handed over, and each job was handed over at or after
  the time it was scheduled for.
\<close>

theorem sched_run_conserves:
  assumes "sched_run s sched log"
  shows "\<exists>tvs. list_all2 (\<lambda>tv (now, j). tv \<le> now) tvs log \<and>
    sched = pending s + mset (map2 (\<lambda>tv (now, j). \<lparr>ev_time = tv, ev_job = j\<rparr>) tvs log)"
  using assms
proof (induction rule: sched_run.induct)
  case create
  show ?case by simp
next
  case (add s sched log job tv s')
  then show ?case using schedule_job_tv_ok [OF sched_run_inv [OF add(1)], of job tv] by auto
next
  case (fire s sched log now j s')
  then obtain tv where "tv \<le> now"
    "pending s = add_mset \<lparr>ev_time = tv, ev_job = j\<rparr> (pending s')"
    using schedule_invD(2) [OF sched_run_inv [OF fire(1)] fire(2)] by blast
  moreover obtain tvs where "list_all2 (\<lambda>tv (now, j). tv \<le> now) tvs log"
    "sched = pending s + mset (map2 (\<lambda>tv (now, j). \<lparr>ev_time = tv, ev_job = j\<rparr>) tvs log)"
    using fire(3) by blast
  ultimately show ?case by (intro exI [of _ "tv # tvs"]) simp
next
  case (wait_until s sched log now tv s')
  then show ?case using schedule_invD(3) [OF sched_run_inv [OF wait_until(1)] wait_until(2)] by simp
next
  case (wait_signal s sched log now s')
  then show ?case using schedule_invD(3) [OF sched_run_inv [OF wait_signal(1)] wait_signal(2)] by simp
qed

lemma sched_run_example:
  "\<exists>s s'. sched_run s {#\<lparr>ev_time = Timeval 2 0, ev_job = (7 :: nat)\<rparr>#} [] \<and>
     schedule (Timeval 3 0) s = Some (Queue_job 7, s')"
proof -
  let ?e = "\<lparr>ev_time = Timeval 2 0, ev_job = 7 :: nat\<rparr>"
  obtain s where s: "schedule_job_tv scheduler_create (7 :: nat) (Timeval 2 0) = Some s"
    "scheduler_inv s" "pending s = {#?e#}"
    using schedule_job_tv_ok [OF scheduler_inv_create, of "7 :: nat" "Timeval 2 0"]
    by auto
  have run: "sched_run s {#?e#} []" using sched_run.add [OF sched_run.create s(1)] by simp
  have due: "\<not> (\<exists>tv. Timeval 3 0 < tv \<and> tv \<le> Timeval 2 0)"
    by (auto simp: less_timeval_def less_eq_timeval_def)
  obtain a s' where "schedule (Timeval 3 0) s = Some (a, s')" "a = Queue_job 7"
    using schedule_inv_cases [OF s(2), of "Timeval 3 0"] s(3) due
    by (auto split: action.splits) (metis action.exhaust)
  with run show ?thesis by blast
qed

theorem sched_run_conserves_witness:
  "\<exists>s tv. sched_run s {#\<lparr>ev_time = Timeval 2 0, ev_job = 7 :: nat\<rparr>#} [(Timeval 3 0, 7)] \<and>
     tv \<le> Timeval 3 0 \<and>
     {#\<lparr>ev_time = Timeval 2 0, ev_job = 7\<rparr>#} = pending s + {#\<lparr>ev_time = tv, ev_job = 7\<rparr>#}"
proof -
  obtain s s' where "sched_run s {#\<lparr>ev_time = Timeval 2 0, ev_job = 7 :: nat\<rparr>#} []"
    "schedule (Timeval 3 0) s = Some (Queue_job 7, s')" using sched_run_example by blast
  then have run: "sched_run s' {#\<lparr>ev_time = Timeval 2 0, ev_job = 7 :: nat\<rparr>#} [(Timeval 3 0, 7)]"
    by (rule sched_run.fire)
  from sched_run_conserves [OF this] show ?thesis
    by (auto simp: list_all2_Cons2 intro!: exI [of _ s'] run)
qed

end
