(* ===== verification/IvGen.thy ===== *)
theory IvGen
  imports Prelude
begin

text \<open>
  The encryption algorithm identifiers of \<^verbatim>\<open>crypto/crypters/crypter.h\<close> and the
  generators for initialization vectors of \<^verbatim>\<open>crypto/iv\<close>: the random, the sequential and
  the empty one, and the choice between them. The random number generators are provided by
  plugins: an RNG is a value of the type parameter \<open>'r\<close>, used through the two
  functions of \<open>rng_ops\<close>.
\<close>

section \<open>Algorithms\<close>

datatype encryption_algorithm =
    ENCR_DES_IV64 | ENCR_DES | ENCR_3DES | ENCR_RC5 | ENCR_IDEA | ENCR_CAST | ENCR_BLOWFISH
  | ENCR_3IDEA | ENCR_DES_IV32 | ENCR_NULL | ENCR_AES_CBC | ENCR_AES_CTR | ENCR_AES_CCM_ICV8
  | ENCR_AES_CCM_ICV12 | ENCR_AES_CCM_ICV16 | ENCR_AES_GCM_ICV8 | ENCR_AES_GCM_ICV12
  | ENCR_AES_GCM_ICV16 | ENCR_NULL_AUTH_AES_GMAC | ENCR_CAMELLIA_CBC | ENCR_CAMELLIA_CTR
  | ENCR_CAMELLIA_CCM_ICV8 | ENCR_CAMELLIA_CCM_ICV12 | ENCR_CAMELLIA_CCM_ICV16
  | ENCR_CHACHA20_POLY1305 | ENCR_UNDEFINED | ENCR_DES_ECB | ENCR_SERPENT_CBC
  | ENCR_TWOFISH_CBC | ENCR_RC2_CBC

definition encryption_algorithm_is_aead :: "encryption_algorithm \<Rightarrow> bool" where
  "encryption_algorithm_is_aead alg \<longleftrightarrow>
     alg \<in> {ENCR_AES_CCM_ICV8, ENCR_AES_CCM_ICV12, ENCR_AES_CCM_ICV16, ENCR_AES_GCM_ICV8,
       ENCR_AES_GCM_ICV12, ENCR_AES_GCM_ICV16, ENCR_NULL_AUTH_AES_GMAC, ENCR_CAMELLIA_CCM_ICV8,
       ENCR_CAMELLIA_CCM_ICV12, ENCR_CAMELLIA_CCM_ICV16, ENCR_CHACHA20_POLY1305}"


section \<open>The sequential generator\<close>

record iv_gen_seq =
  prevl :: u64
  prevh :: u64
  salt :: "bytes option"

definition SEQ_IV_INIT_STATE :: u64 where
  "SEQ_IV_INIT_STATE = NOT 0"

definition SEQ_IV_HIGH_MASK :: u64 where
  "SEQ_IV_HIGH_MASK = push_bit 63 1"

definition get_iv_seq :: "iv_gen_seq \<Rightarrow> u64 \<Rightarrow> nat \<Rightarrow> bytes option \<times> iv_gen_seq" where
  "get_iv_seq this seq sz =
     (case salt this of
        None \<Rightarrow> (None, this)
      | Some sa \<Rightarrow>
          if sz < 8 then (None, this)
          else
            let below = (prevl this \<noteq> SEQ_IV_INIT_STATE \<and> seq \<le> prevl this);
                seq = (if below then seq OR SEQ_IV_HIGH_MASK else seq)
            in if below \<and> prevh this \<noteq> SEQ_IV_INIT_STATE \<and> seq \<le> prevh this then (None, this)
               else if seq OR SEQ_IV_HIGH_MASK = SEQ_IV_INIT_STATE then (None, this)
               else
                 let this' = (if seq AND SEQ_IV_HIGH_MASK \<noteq> 0 then this\<lparr>prevh := seq\<rparr>
                              else this\<lparr>prevl := seq\<rparr>)
                 in (Some (replicate (sz - 8) 0 @ xor_bytes (htoun64 seq) sa), this'))"

text \<open>\<open>get_bytes\<close> is the RNG's answer to the request for a salt.\<close>

definition iv_gen_seq_create :: "bytes option \<Rightarrow> iv_gen_seq" where
  "iv_gen_seq_create get_bytes =
     \<lparr>prevl = SEQ_IV_INIT_STATE, prevh = SEQ_IV_INIT_STATE, salt = get_bytes\<rparr>"


section \<open>All generators\<close>

datatype rng_quality = RNG_WEAK | RNG_STRONG | RNG_TRUE

record 'r rng_ops =
  create_rng :: "rng_quality \<Rightarrow> 'r option"
  rng_get_bytes :: "'r \<Rightarrow> nat \<Rightarrow> (bytes \<times> 'r) option"

datatype 'r iv_gen = Iv_gen_rand "'r option" | Iv_gen_seq iv_gen_seq | Iv_gen_null

definition get_iv_rand :: "'r rng_ops \<Rightarrow> 'r option \<Rightarrow> nat \<Rightarrow> bytes option \<times> 'r option" where
  "get_iv_rand ops rng sz =
     (case rng of
        None \<Rightarrow> (None, None)
      | Some r \<Rightarrow>
          (case rng_get_bytes ops r sz of
             None \<Rightarrow> (None, Some r)
           | Some (bs, r') \<Rightarrow> (Some bs, Some r')))"

definition get_iv_null :: "nat \<Rightarrow> bytes option" where
  "get_iv_null sz = (if sz = 0 then Some [] else None)"

fun get_iv :: "'r rng_ops \<Rightarrow> 'r iv_gen \<Rightarrow> u64 \<Rightarrow> nat \<Rightarrow> bytes option \<times> 'r iv_gen" where
  "get_iv ops (Iv_gen_rand rng) seq sz =
     (let (r, rng') = get_iv_rand ops rng sz in (r, Iv_gen_rand rng'))"
| "get_iv ops (Iv_gen_seq g) seq sz = (let (r, g') = get_iv_seq g seq sz in (r, Iv_gen_seq g'))"
| "get_iv ops Iv_gen_null seq sz = (get_iv_null sz, Iv_gen_null)"

definition iv_gen_create_for_alg :: "'r rng_ops \<Rightarrow> encryption_algorithm \<Rightarrow> 'r iv_gen option" where
  "iv_gen_create_for_alg ops alg =
     (if alg \<in> {ENCR_DES, ENCR_3DES, ENCR_RC5, ENCR_IDEA, ENCR_CAST, ENCR_BLOWFISH, ENCR_3IDEA,
        ENCR_AES_CBC, ENCR_CAMELLIA_CBC, ENCR_SERPENT_CBC, ENCR_TWOFISH_CBC, ENCR_RC2_CBC}
      then Some (Iv_gen_rand (create_rng ops RNG_WEAK))
      else if alg \<in> {ENCR_AES_CTR, ENCR_AES_CCM_ICV8, ENCR_AES_CCM_ICV12, ENCR_AES_CCM_ICV16,
        ENCR_AES_GCM_ICV8, ENCR_AES_GCM_ICV12, ENCR_AES_GCM_ICV16, ENCR_CAMELLIA_CTR,
        ENCR_CAMELLIA_CCM_ICV8, ENCR_CAMELLIA_CCM_ICV12, ENCR_CAMELLIA_CCM_ICV16,
        ENCR_CHACHA20_POLY1305, ENCR_NULL_AUTH_AES_GMAC}
      then Some (Iv_gen_seq (iv_gen_seq_create
             (case create_rng ops RNG_STRONG of
                None \<Rightarrow> None
              | Some rng \<Rightarrow> map_option fst (rng_get_bytes ops rng 8))))
      else if alg = ENCR_NULL then Some Iv_gen_null
      else None)"

text \<open>The IVs a sequence of calls hands out.\<close>

fun get_ivs :: "'r rng_ops \<Rightarrow> 'r iv_gen \<Rightarrow> u64 list \<Rightarrow> nat \<Rightarrow> bytes list" where
  "get_ivs ops g [] sz = []"
| "get_ivs ops g (seq # seqs) sz =
     (case get_iv ops g seq sz of
        (None, g') \<Rightarrow> get_ivs ops g' seqs sz
      | (Some iv, g') \<Rightarrow> iv # get_ivs ops g' seqs sz)"


section \<open>Sequential IVs are unique\<close>

lemma high_mask_bit: "(seq :: u64) AND SEQ_IV_HIGH_MASK \<noteq> 0 \<longleftrightarrow> bit seq 63"
  unfolding SEQ_IV_HIGH_MASK_def push_bit_of_1 by (rule word_and_bit_ne_0)

lemma init_state_bit: "bit SEQ_IV_INIT_STATE n \<longleftrightarrow> n < 64"
  by (simp add: SEQ_IV_INIT_STATE_def bit_simps)

text \<open>
  The counter values used so far are below the last one of their half of the number space.
\<close>

definition seq_inv :: "iv_gen_seq \<Rightarrow> u64 set \<Rightarrow> bool" where
  "seq_inv g used \<longleftrightarrow>
     (\<forall>s \<in> used. if bit s 63 then prevh g \<noteq> SEQ_IV_INIT_STATE \<and> s \<le> prevh g
                  else prevl g \<noteq> SEQ_IV_INIT_STATE \<and> s \<le> prevl g)"

lemma htoun64_inj: "htoun64 a = htoun64 b \<longleftrightarrow> a = b"
  by (metis untoh64_htoun64)

text \<open>What a successful call has done, with the counter value \<open>s\<close> it used.\<close>

lemma get_iv_seq_Some:
  assumes "get_iv_seq g seq sz = (Some iv, g')" "\<not> bit seq 63"
  shows "\<exists>s sa. salt g = Some sa \<and> iv = replicate (sz - 8) 0 @ xor_bytes (htoun64 s) sa \<and>
    s \<noteq> SEQ_IV_INIT_STATE \<and>
    (if bit s 63 then (prevh g = SEQ_IV_INIT_STATE \<or> prevh g < s) \<and> g' = g\<lparr>prevh := s\<rparr>
     else (prevl g = SEQ_IV_INIT_STATE \<or> prevl g < s) \<and> g' = g\<lparr>prevl := s\<rparr>)"
proof -
  define below where "below \<longleftrightarrow> prevl g \<noteq> SEQ_IV_INIT_STATE \<and> seq \<le> prevl g"
  define s where "s = (if below then seq OR SEQ_IV_HIGH_MASK else seq)"
  have bit_s: "bit s 63 \<longleftrightarrow> below"
    using assms(2) by (simp add: s_def SEQ_IV_HIGH_MASK_def bit_simps)
  have "\<exists>sa. salt g = Some sa \<and> \<not> (below \<and> prevh g \<noteq> SEQ_IV_INIT_STATE \<and> s \<le> prevh g) \<and>
      s OR SEQ_IV_HIGH_MASK \<noteq> SEQ_IV_INIT_STATE \<and>
      iv = replicate (sz - 8) 0 @ xor_bytes (htoun64 s) sa \<and>
      g' = (if bit s 63 then g\<lparr>prevh := s\<rparr> else g\<lparr>prevl := s\<rparr>)"
    using assms(1) unfolding get_iv_seq_def Let_def below_def [symmetric] s_def [symmetric]
      high_mask_bit
    by (auto split: option.splits if_splits)
  moreover have "s OR SEQ_IV_HIGH_MASK \<noteq> SEQ_IV_INIT_STATE \<Longrightarrow> s \<noteq> SEQ_IV_INIT_STATE"
    by (auto simp: SEQ_IV_INIT_STATE_def)
  moreover have "\<not> below \<Longrightarrow> prevl g = SEQ_IV_INIT_STATE \<or> prevl g < s"
    by (auto simp: below_def s_def)
  ultimately show ?thesis using bit_s by (intro exI [of _ s]) (auto simp: not_le)
qed

lemma get_iv_seq_None: "get_iv_seq g seq sz = (None, g') \<Longrightarrow> g' = g"
  by (auto simp: get_iv_seq_def Let_def split: option.splits if_splits)

lemma seq_inv_new:
  assumes "seq_inv g used" "s \<noteq> SEQ_IV_INIT_STATE"
    "if bit s 63 then (prevh g = SEQ_IV_INIT_STATE \<or> prevh g < s) \<and> g' = g\<lparr>prevh := s\<rparr>
     else (prevl g = SEQ_IV_INIT_STATE \<or> prevl g < s) \<and> g' = g\<lparr>prevl := s\<rparr>"
  shows "s \<notin> used \<and> seq_inv g' (insert s used) \<and> salt g' = salt g"
proof (cases "bit s 63")
  case True
  with assms have g': "prevh g = SEQ_IV_INIT_STATE \<or> prevh g < s" "g' = g\<lparr>prevh := s\<rparr>" by auto
  have used: "prevh g \<noteq> SEQ_IV_INIT_STATE \<and> t \<le> prevh g" if "t \<in> used" "bit t 63" for t
    using assms(1) that by (auto simp: seq_inv_def)
  have "s \<notin> used" using used [of s] True g'(1) by auto
  moreover have "t \<le> s" if "t \<in> used" "bit t 63" for t
    using used [OF that] g'(1) by auto
  ultimately show ?thesis using assms(1,2) True g'(2) by (auto simp: seq_inv_def)
next
  case False
  with assms have g': "prevl g = SEQ_IV_INIT_STATE \<or> prevl g < s" "g' = g\<lparr>prevl := s\<rparr>" by auto
  have used: "prevl g \<noteq> SEQ_IV_INIT_STATE \<and> t \<le> prevl g" if "t \<in> used" "\<not> bit t 63" for t
    using assms(1) that by (auto simp: seq_inv_def)
  have "s \<notin> used" using used [of s] False g'(1) by auto
  moreover have "t \<le> s" if "t \<in> used" "\<not> bit t 63" for t
    using used [OF that] g'(1) by auto
  ultimately show ?thesis using assms(1,2) False g'(2) by (auto simp: seq_inv_def)
qed

lemma xor_bytes_inj:
  assumes "xor_bytes a c = xor_bytes b c" "length a = length c" "length b = length c"
  shows "a = b"
  using assms by (metis xor_bytes_cancel)

lemma get_ivs_seq_unique:
  assumes "seq_inv g used" "\<forall>s \<in> set seqs. \<not> bit s 63" "\<forall>sa. salt g = Some sa \<longrightarrow> length sa = 8"
  shows "distinct (get_ivs ops (Iv_gen_seq g) seqs sz) \<and>
    (\<forall>iv \<in> set (get_ivs ops (Iv_gen_seq g) seqs sz). \<exists>s sa. s \<notin> used \<and> salt g = Some sa \<and>
       iv = replicate (sz - 8) 0 @ xor_bytes (htoun64 s) sa)"
  using assms
proof (induction seqs arbitrary: g used)
  case (Cons seq seqs)
  obtain r g' where run: "get_iv_seq g seq sz = (r, g')" by fastforce
  show ?case
  proof (cases r)
    case None
    then have "g' = g" using run get_iv_seq_None by blast
    then have "get_ivs ops (Iv_gen_seq g) (seq # seqs) sz = get_ivs ops (Iv_gen_seq g) seqs sz"
      using run None by simp
    then show ?thesis using Cons.IH [OF Cons.prems(1) _ Cons.prems(3)] Cons.prems(2) by auto
  next
    case (Some iv)
    have "\<not> bit seq 63" using Cons.prems(2) by simp
    then obtain s sa where s: "salt g = Some sa" "iv = replicate (sz - 8) 0 @ xor_bytes (htoun64 s) sa"
      "s \<notin> used" "seq_inv g' (insert s used)" "salt g' = salt g"
      using get_iv_seq_Some [of g seq sz iv g'] run Some seq_inv_new [OF Cons.prems(1)] by metis
    let ?rest = "get_ivs ops (Iv_gen_seq g') seqs sz"
    have IH: "distinct ?rest" "\<forall>iv \<in> set ?rest. \<exists>t sa. t \<notin> insert s used \<and> salt g = Some sa \<and>
        iv = replicate (sz - 8) 0 @ xor_bytes (htoun64 t) sa"
      using Cons.IH [OF s(4)] Cons.prems(2,3) s(5) by auto
    have "iv \<notin> set ?rest"
    proof
      assume "iv \<in> set ?rest"
      then obtain t where "t \<noteq> s" "xor_bytes (htoun64 s) sa = xor_bytes (htoun64 t) sa"
        using IH(2) s(1,2) by auto
      with Cons.prems(3) s(1) show False by (metis xor_bytes_inj htoun64_inj length_htoun(3))
    qed
    moreover have "get_ivs ops (Iv_gen_seq g) (seq # seqs) sz = iv # ?rest" using run Some by simp
    ultimately show ?thesis using IH s(1-3) by auto
  qed
qed simp

lemma iv_gen_create_seq:
  assumes "iv_gen_create_for_alg ops alg = Some (Iv_gen_seq g)"
  shows "g = iv_gen_seq_create (case create_rng ops RNG_STRONG of
      None \<Rightarrow> None | Some rng \<Rightarrow> map_option fst (rng_get_bytes ops rng 8))"
  using assms unfolding iv_gen_create_for_alg_def
  by (simp del: insert_iff split: if_split_asm)

lemma not_bit_63:
  fixes s :: u64
  assumes "s < 2 ^ 63"
  shows "\<not> bit s 63"
proof
  assume "bit s 63"
  then have "bit (unat s) 63" by (simp add: bit_unsigned_iff)
  moreover have "unat s < 2 ^ 63" using assms by (simp add: word_less_nat_alt)
  ultimately show False by (simp add: bit_iff_odd)
qed

text \<open>
  C5. The IVs a sequential generator hands out for sequence numbers below \<open>2\<^sup>6\<^sup>3\<close> are
  pairwise different, in whatever order the sequence numbers come and however often they
  repeat.
\<close>

theorem sequential_ivs_unique:
  assumes "iv_gen_create_for_alg ops alg = Some (Iv_gen_seq g)"
    and "\<forall>rng n bs rng'. rng_get_bytes ops rng n = Some (bs, rng') \<longrightarrow> length bs = n"
    and "\<forall>s \<in> set seqs. s < 2 ^ 63"
  shows "distinct (get_ivs ops (Iv_gen_seq g) seqs sz)"
proof -
  have "seq_inv g {}" "\<forall>sa. salt g = Some sa \<longrightarrow> length sa = 8"
    using iv_gen_create_seq [OF assms(1)] assms(2)
    by (auto simp: seq_inv_def iv_gen_seq_create_def split: option.splits)
  then show ?thesis using get_ivs_seq_unique not_bit_63 assms(3) by blast
qed

theorem sequential_ivs_unique_witness:
  "let ops = \<lparr>create_rng = \<lambda>q. Some (), rng_get_bytes = \<lambda>r n. Some (replicate n 7, ())\<rparr>;
       g = iv_gen_seq_create (Some (replicate 8 7))
   in iv_gen_create_for_alg ops ENCR_AES_GCM_ICV16 = Some (Iv_gen_seq g) \<and>
      length (get_ivs ops (Iv_gen_seq g) [5, 5, 7] 8) = 3 \<and>
      distinct (get_ivs ops (Iv_gen_seq g) [5, 5, 7] 8)"
proof -
  let ?ops = "\<lparr>create_rng = \<lambda>q. Some (), rng_get_bytes = \<lambda>r n. Some (replicate n 7, ())\<rparr>"
  let ?g = "iv_gen_seq_create (Some (replicate 8 7))"
  have c: "iv_gen_create_for_alg ?ops ENCR_AES_GCM_ICV16 = Some (Iv_gen_seq ?g)"
    by (simp add: iv_gen_create_for_alg_def)
  then have "distinct (get_ivs ?ops (Iv_gen_seq ?g) [5, 5, 7] 8)"
    by (rule sequential_ivs_unique) simp_all
  moreover have "length (get_ivs ?ops (Iv_gen_seq ?g) [5, 5, 7] 8) = 3"
    by (simp add: get_iv_seq_def iv_gen_seq_create_def SEQ_IV_INIT_STATE_def SEQ_IV_HIGH_MASK_def)
  ultimately show ?thesis using c by (simp add: Let_def)
qed


end
