(* ===== verification/EspContext.thy ===== *)
theory EspContext
  imports Prelude
begin

text \<open>
  The ESP context of \<^verbatim>\<open>libipsec/esp_context.c\<close>: sequence numbers of an outbound SA
  and the anti-replay window of an inbound one. The window is the ring of bits the source
  keeps in a byte buffer; \<open>window_spec\<close> is the anti-replay service of RFC 4303 it
  implements, on the set of authenticated sequence numbers. The AEAD the context holds is
  the type parameter of the record.
\<close>

section \<open>The context\<close>

record 'a esp_context =
  ec_aead :: "'a option"
  ec_last_seqno :: u32
  ec_seqno_index :: u32
  ec_window_size :: u32
  ec_window :: bytes
  ec_inbound :: bool

definition ESP_DEFAULT_WINDOW_SIZE :: u32 where
  "ESP_DEFAULT_WINDOW_SIZE = 128"

definition set_window_bit :: "'a esp_context \<Rightarrow> u32 \<Rightarrow> bool \<Rightarrow> 'a esp_context option" where
  "set_window_bit this index b =
     (let i = unat (index div 8); w = ec_window this; m = push_bit (unat (index mod 8)) 1
      in if i < length w
         then Some (this\<lparr>ec_window := w[i := (if b then w ! i OR m else w ! i AND NOT m)]\<rparr>)
         else None)"

definition get_window_bit :: "'a esp_context \<Rightarrow> u32 \<Rightarrow> bool option" where
  "get_window_bit this index =
     (let i = unat (index div 8); w = ec_window this
      in if i < length w
         then Some (w ! i AND push_bit (unat (index mod 8)) 1 \<noteq> 0)
         else None)"

definition check_window :: "'a esp_context \<Rightarrow> u32 \<Rightarrow> bool option" where
  "check_window this seqno =
     (let offset = ec_last_seqno this - seqno;
          offset = (ec_seqno_index this - offset) mod ec_window_size this
      in map_option Not (get_window_bit this offset))"

definition verify_seqno :: "'a esp_context \<Rightarrow> u32 \<Rightarrow> bool option" where
  "verify_seqno this seqno =
     (if \<not> ec_inbound this then Some False
      else if seqno > ec_last_seqno this then Some True
      else if seqno > 0 \<and> ec_window_size this > ec_last_seqno this - seqno
      then check_window this seqno
      else Some False)"

text \<open>The loop of \<open>set_authenticated_seqno\<close>, with the iterations left.\<close>

primrec shift_window :: "nat \<Rightarrow> 'a esp_context \<Rightarrow> 'a esp_context option" where
  "shift_window 0 this = Some this"
| "shift_window (Suc n) this =
     (let this = this\<lparr>ec_seqno_index := (ec_seqno_index this + 1) mod ec_window_size this\<rparr>
      in do {
        this \<leftarrow> set_window_bit this (ec_seqno_index this) False;
        shift_window n this
      })"

definition set_authenticated_seqno :: "'a esp_context \<Rightarrow> u32 \<Rightarrow> 'a esp_context option" where
  "set_authenticated_seqno this seqno =
     (if \<not> ec_inbound this then Some this
      else if seqno > ec_last_seqno this
      then let shift = seqno - ec_last_seqno this;
               shift = (if shift < ec_window_size this then shift else ec_window_size this)
           in do {
             this \<leftarrow> shift_window (unat shift) this;
             this \<leftarrow> set_window_bit this (ec_seqno_index this) True;
             Some (this\<lparr>ec_last_seqno := seqno\<rparr>)
           }
      else let i = ec_last_seqno this - seqno
           in set_window_bit this ((ec_seqno_index this - i) mod ec_window_size this) True)"

definition get_seqno :: "'a esp_context \<Rightarrow> u32" where
  "get_seqno this = ec_last_seqno this"

definition next_seqno :: "'a esp_context \<Rightarrow> u32 option \<times> 'a esp_context" where
  "next_seqno this =
     (if ec_inbound this \<or> ec_last_seqno this = 0xFFFFFFFF then (None, this)
      else let last = ec_last_seqno this + 1 in (Some last, this\<lparr>ec_last_seqno := last\<rparr>))"


text \<open>
  The context a successful \<^verbatim>\<open>esp_context_create\<close> returns around the AEAD it has
  created; only an inbound context has a window.
\<close>

definition esp_context_init :: "'a \<Rightarrow> bool \<Rightarrow> 'a esp_context" where
  "esp_context_init aead inbound =
     \<lparr>ec_aead = Some aead, ec_last_seqno = 0, ec_seqno_index = 0,
      ec_window_size = ESP_DEFAULT_WINDOW_SIZE,
      ec_window = (if inbound then replicate (unat (ESP_DEFAULT_WINDOW_SIZE div 8 + 1)) 0 else []),
      ec_inbound = inbound\<rparr>"

text \<open>
  What the receiving path does with a packet's sequence number: it is verified, the packet
  is checked and decrypted, and only then is the number marked. \<open>authentic\<close> is the
  outcome of the middle step.
\<close>

fun receive_seqno :: "'a esp_context \<Rightarrow> u32 \<times> bool \<Rightarrow> (bool \<times> 'a esp_context) option" where
  "receive_seqno c (seqno, authentic) = do {
     ok \<leftarrow> verify_seqno c seqno;
     if ok \<and> authentic
     then do { c' \<leftarrow> set_authenticated_seqno c seqno; Some (True, c') }
     else Some (False, c)
   }"

primrec receive_seqnos :: "'a esp_context \<Rightarrow> (u32 \<times> bool) list \<Rightarrow> (u32 list \<times> 'a esp_context) option" where
  "receive_seqnos c [] = Some ([], c)"
| "receive_seqnos c (p # ps) = do {
     (ok, c') \<leftarrow> receive_seqno c p;
     (acc, c'') \<leftarrow> receive_seqnos c' ps;
     Some (if ok then fst p # acc else acc, c'')
   }"

text \<open>
  The anti-replay service of RFC 4303, section 3.4.3, on the highest authenticated number
  and the set of all authenticated ones.
\<close>

definition window_spec :: "nat \<Rightarrow> nat set \<Rightarrow> nat \<Rightarrow> bool" where
  "window_spec h seen n \<longleftrightarrow> n > h \<or> 0 < n \<and> h - n < 128 \<and> n \<notin> seen"

fun replay_spec :: "nat \<Rightarrow> nat set \<Rightarrow> (u32 \<times> bool) list \<Rightarrow> u32 list" where
  "replay_spec h seen [] = []"
| "replay_spec h seen ((n, authentic) # ps) =
     (if authentic \<and> window_spec h seen (unat n)
      then n # replay_spec (max h (unat n)) (insert (unat n) seen) ps
      else replay_spec h seen ps)"

fun next_seqnos :: "nat \<Rightarrow> 'a esp_context \<Rightarrow> u32 list" where
  "next_seqnos 0 c = []"
| "next_seqnos (Suc n) c =
     (case next_seqno c of (None, _) \<Rightarrow> [] | (Some s, c') \<Rightarrow> s # next_seqnos n c')"


section \<open>The ring of window bits\<close>

definition window_bit :: "'a esp_context \<Rightarrow> nat \<Rightarrow> bool" where
  "window_bit c k = bit (ec_window c ! (k div 8)) (k mod 8)"

definition window_inv :: "'a esp_context \<Rightarrow> bool" where
  "window_inv c \<longleftrightarrow> ec_inbound c \<and> ec_window_size c = 128 \<and> length (ec_window c) = 17 \<and>
     ec_seqno_index c < 128"

lemma get_window_bit_eq:
  assumes "window_inv c" "index < 128"
  shows "get_window_bit c index = Some (window_bit c (unat index))"
proof -
  have "unat index < 128" using assms(2) by (simp add: word_less_nat_alt)
  then show ?thesis using assms(1)
    by (auto simp: get_window_bit_def window_inv_def window_bit_def Let_def word_and_bit_ne_0
        unat_div unat_mod)
qed

lemma set_window_bit_eq:
  assumes "window_inv c" "index < 128"
  shows "\<exists>c'. set_window_bit c index b = Some c' \<and> window_inv c' \<and>
    ec_last_seqno c' = ec_last_seqno c \<and> ec_seqno_index c' = ec_seqno_index c \<and>
    (\<forall>k < 128. window_bit c' k = (if k = unat index then b else window_bit c k))"
proof -
  let ?n = "unat index"
  have n: "?n < 128" using assms(2) by (simp add: word_less_nat_alt)
  have eq: "k = ?n" if "?n div 8 = k div 8" "k mod 8 = ?n mod 8" for k
    using that by (metis div_mult_mod_eq)
  show ?thesis using assms(1) n
    by (auto simp: set_window_bit_def window_inv_def window_bit_def Let_def unat_div unat_mod
        nth_list_update bit_simps dest!: eq)
qed

lemma mod_128_less: "(x :: u32) mod 128 < 128"
  by (simp add: word_less_nat_alt unat_mod)

text \<open>128 divides the range of the indices, so that the ring survives their wrap-around.\<close>

lemma ring_sub: "uint ((a - b :: u32) mod 128) = (uint a - uint b) mod 128"
proof -
  have "(uint a - uint b) mod 2 ^ 32 mod 128 = (uint a - uint b) mod 128"
    by (rule mod_mod_cancel) simp
  then show ?thesis by (simp add: uint_word_ariths uint_mod)
qed

lemma ring_add: "uint ((a + 1 :: u32) mod 128) = (uint a + 1) mod 128"
proof -
  have "(uint a + 1) mod 2 ^ 32 mod 128 = (uint a + 1) mod 128"
    by (rule mod_mod_cancel) simp
  then show ?thesis by (simp add: uint_word_ariths uint_mod)
qed

text \<open>The ring positions the loop clears, as offsets from the index.\<close>

definition in_ring :: "int \<Rightarrow> nat \<Rightarrow> nat \<Rightarrow> bool" where
  "in_ring x n k \<longleftrightarrow> (\<exists>i. 1 \<le> i \<and> i \<le> int n \<and> int k = (x + i) mod 128)"

lemma in_ring_0 [simp]: "\<not> in_ring x 0 k"
  by (simp add: in_ring_def)

lemma in_ring_Suc:
  "in_ring x (Suc n) k \<longleftrightarrow> int k = (x + 1) mod 128 \<or> in_ring ((x + 1) mod 128) n k"
proof
  assume "in_ring x (Suc n) k"
  then obtain i where i: "1 \<le> i" "i \<le> int (Suc n)" "int k = (x + i) mod 128"
    by (auto simp: in_ring_def)
  show "int k = (x + 1) mod 128 \<or> in_ring ((x + 1) mod 128) n k"
  proof (cases "i = 1")
    case False
    then have "1 \<le> i - 1 \<and> i - 1 \<le> int n \<and> int k = ((x + 1) mod 128 + (i - 1)) mod 128"
      using i by (simp add: mod_add_left_eq)
    then show ?thesis unfolding in_ring_def by blast
  qed (use i in simp)
next
  assume "int k = (x + 1) mod 128 \<or> in_ring ((x + 1) mod 128) n k"
  then show "in_ring x (Suc n) k"
  proof
    assume "int k = (x + 1) mod 128"
    then show ?thesis unfolding in_ring_def by (intro exI [of _ 1]) simp
  next
    assume "in_ring ((x + 1) mod 128) n k"
    then obtain i where "1 \<le> i" "i \<le> int n" "int k = ((x + 1) mod 128 + i) mod 128"
      by (auto simp: in_ring_def)
    then show ?thesis unfolding in_ring_def
      by (intro exI [of _ "i + 1"]) (simp add: mod_simps algebra_simps)
  qed
qed

lemma index_less: "window_inv c \<Longrightarrow> uint (ec_seqno_index c) < 128"
  by (simp add: window_inv_def word_less_def)

lemma shift_window_eq:
  assumes "window_inv c"
  shows "\<exists>c'. shift_window n c = Some c' \<and> window_inv c' \<and>
    ec_last_seqno c' = ec_last_seqno c \<and>
    uint (ec_seqno_index c') = (uint (ec_seqno_index c) + int n) mod 128 \<and>
    (\<forall>k < 128. window_bit c' k \<longleftrightarrow>
      window_bit c k \<and> \<not> in_ring (uint (ec_seqno_index c)) n k)"
  using assms
proof (induction n arbitrary: c)
  case 0
  then show ?case using index_less [OF 0] by simp
next
  case (Suc n)
  let ?j = "(ec_seqno_index c + 1) mod 128"
  let ?d = "c\<lparr>ec_seqno_index := ?j\<rparr>"
  have d: "window_inv ?d" using Suc.prems by (simp add: window_inv_def mod_128_less)
  obtain e where e: "set_window_bit ?d ?j False = Some e" "window_inv e"
    "ec_last_seqno e = ec_last_seqno c" "ec_seqno_index e = ?j"
    "\<forall>k < 128. window_bit e k = (if k = unat ?j then False else window_bit ?d k)"
    using set_window_bit_eq [OF d mod_128_less, of _ False] by auto
  obtain c' where c': "shift_window n e = Some c'" "window_inv c'"
    "ec_last_seqno c' = ec_last_seqno e"
    "uint (ec_seqno_index c') = (uint ?j + int n) mod 128"
    "\<forall>k < 128. window_bit c' k \<longleftrightarrow> window_bit e k \<and> \<not> in_ring (uint ?j) n k"
    using Suc.IH [OF e(2)] unfolding e(4) by blast
  have run: "shift_window (Suc n) c = Some c'"
    using Suc.prems e(1) c'(1) by (simp add: window_inv_def Let_def)
  have "k = unat ?j \<longleftrightarrow> int k = uint ?j" for k by (metis nat_int uint_nat)
  then have bits: "window_bit c' k \<longleftrightarrow>
      window_bit c k \<and> \<not> in_ring (uint (ec_seqno_index c)) (Suc n) k" if "k < 128" for k
    using c'(5) e(5) that unfolding in_ring_Suc ring_add by (auto simp: window_bit_def)
  have "uint (ec_seqno_index c') = (uint (ec_seqno_index c) + int (Suc n)) mod 128"
    unfolding c'(4) ring_add by (simp add: mod_simps algebra_simps)
  with run c'(2,3) e(3) bits show ?case by simp
qed


section \<open>The window implements the anti-replay service\<close>

definition ring_pos :: "'a esp_context \<Rightarrow> nat \<Rightarrow> nat" where
  "ring_pos c n = nat ((uint (ec_seqno_index c) - (uint (ec_last_seqno c) - int n)) mod 128)"

definition tracks :: "'a esp_context \<Rightarrow> nat set \<Rightarrow> bool" where
  "tracks c seen \<longleftrightarrow> window_inv c \<and>
     (\<forall>n \<in> seen. 0 < n \<and> n \<le> unat (ec_last_seqno c)) \<and>
     (\<forall>n. 0 < n \<and> n \<le> unat (ec_last_seqno c) \<and> unat (ec_last_seqno c) - n < 128 \<longrightarrow>
       (window_bit c (ring_pos c n) \<longleftrightarrow> n \<in> seen))"

lemma window_bit_update: "window_bit (c\<lparr>ec_last_seqno := s\<rparr>) k = window_bit c k"
  by (simp add: window_bit_def)

lemma ring_pos_less: "ring_pos c n < 128"
  by (simp add: ring_pos_def nat_less_iff)

lemma ring_pos_word:
  assumes "window_inv c" "s \<le> ec_last_seqno c"
  shows "unat ((ec_seqno_index c - (ec_last_seqno c - s)) mod 128) = ring_pos c (unat s)"
proof -
  have "uint (ec_last_seqno c - s) = uint (ec_last_seqno c) - uint s"
    using assms(2) by (simp add: uint_minus_simple_alt word_le_def)
  then show ?thesis
    unfolding unat_eq_nat_uint ring_pos_def ring_sub by simp
qed

lemma unat_diff_less:
  fixes l s :: u32
  assumes "s \<le> l"
  shows "l - s < 128 \<longleftrightarrow> unat l - unat s < 128"
  using assms by (simp add: word_less_nat_alt unat_sub)

lemma verify_seqno_spec:
  assumes "tracks c seen"
  shows "verify_seqno c s = Some (window_spec (unat (ec_last_seqno c)) seen (unat s))"
proof -
  have inv: "window_inv c" using assms by (simp add: tracks_def)
  then have c: "ec_inbound c" "ec_window_size c = 128" by (auto simp: window_inv_def)
  consider (new) "ec_last_seqno c < s" | (inside) "s \<le> ec_last_seqno c" "0 < s" "ec_last_seqno c - s < 128"
    | (old) "s \<le> ec_last_seqno c" "\<not> (0 < s \<and> ec_last_seqno c - s < 128)" by fastforce
  then show ?thesis
  proof cases
    case new
    with c show ?thesis by (simp add: verify_seqno_def window_spec_def word_less_nat_alt)
  next
    case inside
    then have "check_window c s = Some (\<not> window_bit c (ring_pos c (unat s)))"
      using get_window_bit_eq [OF inv mod_128_less] ring_pos_word [OF inv inside(1)] c
      by (simp add: check_window_def Let_def)
    moreover have "window_bit c (ring_pos c (unat s)) \<longleftrightarrow> unat s \<in> seen"
      using assms inside unat_diff_less [OF inside(1)]
      by (auto simp: tracks_def word_le_nat_alt word_less_nat_alt)
    ultimately show ?thesis using c inside unat_diff_less [OF inside(1)]
      by (auto simp: verify_seqno_def window_spec_def word_less_nat_alt word_le_nat_alt)
  next
    case old
    with c unat_diff_less [OF old(1)] show ?thesis
      by (auto simp: verify_seqno_def window_spec_def word_less_nat_alt word_le_nat_alt)
  qed
qed

text \<open>Two numbers less than 128 apart do not share a ring position.\<close>

lemma ring_eq_iff:
  fixes a b :: int
  assumes "\<bar>a - b\<bar> < 128"
  shows "(x + a) mod 128 = (x + b) mod 128 \<longleftrightarrow> a = b"
proof
  assume "(x + a) mod 128 = (x + b) mod 128"
  then have "128 dvd a - b" by (simp add: mod_eq_dvd_iff algebra_simps)
  with assms show "a = b" by (meson dvd_imp_le_int eq_iff_diff_eq_0 linorder_not_le abs_of_nonneg zdvd_not_zless abs_ge_zero dvd_abs_iff zero_less_abs_iff)
qed simp

lemma ring_pos_alt:
  "ring_pos c n = nat ((uint (ec_seqno_index c) - uint (ec_last_seqno c) + int n) mod 128)"
  by (simp add: ring_pos_def algebra_simps)

lemma ring_pos_inj:
  assumes "\<bar>int n - int m\<bar> < 128"
  shows "ring_pos c n = ring_pos c m \<longleftrightarrow> n = m"
  using ring_eq_iff [OF assms, of "uint (ec_seqno_index c) - uint (ec_last_seqno c)"]
  by (simp add: ring_pos_alt eq_nat_nat_iff)

lemma set_authenticated_inside:
  assumes t: "tracks c seen" and s: "s \<le> ec_last_seqno c" "0 < s" "ec_last_seqno c - s < 128"
  shows "\<exists>c'. set_authenticated_seqno c s = Some c' \<and> tracks c' (insert (unat s) seen) \<and>
    ec_last_seqno c' = ec_last_seqno c"
proof -
  have inv: "window_inv c" using t by (simp add: tracks_def)
  let ?i = "(ec_seqno_index c - (ec_last_seqno c - s)) mod 128"
  obtain c' where c': "set_window_bit c ?i True = Some c'" "window_inv c'"
    "ec_last_seqno c' = ec_last_seqno c" "ec_seqno_index c' = ec_seqno_index c"
    "\<forall>k < 128. window_bit c' k = (if k = ring_pos c (unat s) then True else window_bit c k)"
    using set_window_bit_eq [OF inv mod_128_less, of _ True] ring_pos_word [OF inv s(1)] by metis
  have "set_authenticated_seqno c s = Some c'"
    using inv s(1) c'(1) by (auto simp: set_authenticated_seqno_def window_inv_def Let_def)
  moreover have pos: "ring_pos c' n = ring_pos c n" for n using c'(3,4) by (simp add: ring_pos_def)
  have l: "unat s \<le> unat (ec_last_seqno c)" "unat (ec_last_seqno c) - unat s < 128" "0 < unat s"
    using s unat_diff_less [OF s(1)] by (auto simp: word_le_nat_alt word_less_nat_alt)
  have "window_bit c' (ring_pos c n) \<longleftrightarrow> n \<in> insert (unat s) seen"
    if n: "0 < n" "n \<le> unat (ec_last_seqno c)" "unat (ec_last_seqno c) - n < 128" for n
  proof -
    have "ring_pos c n = ring_pos c (unat s) \<longleftrightarrow> n = unat s"
      using n l by (intro ring_pos_inj) linarith
    then show ?thesis using c'(5) ring_pos_less [of c n] t n by (auto simp: tracks_def)
  qed
  with c'(2,3) l t pos have "tracks c' (insert (unat s) seen)" by (simp add: tracks_def)
  ultimately show ?thesis using c'(3) by blast
qed

lemma in_ring_all:
  assumes "128 \<le> n" "k < 128"
  shows "in_ring x n k"
proof -
  let ?i = "(int k - x - 1) mod 128 + 1"
  have "(x + ?i) mod 128 = (x + 1 + (int k - x - 1) mod 128) mod 128" by (simp add: algebra_simps)
  also have "\<dots> = int k" using assms(2) by (simp add: mod_add_right_eq)
  finally have "1 \<le> ?i \<and> ?i \<le> int n \<and> int k = (x + ?i) mod 128"
    using assms(1) pos_mod_bound [of 128 "int k - x - 1"] pos_mod_sign [of 128 "int k - x - 1"]
    by linarith
  then show ?thesis unfolding in_ring_def by blast
qed

text \<open>
  What the loop leaves of the window, at the positions the numbers below the new highest
  one \<open>h'\<close> will have.
\<close>

lemma shifted_bits:
  assumes n: "n < h'" "h' - n < 128" and h: "h < h'" and k: "k = min (h' - h) 128"
  shows "in_ring x k (nat ((x + int k - (int h' - int n)) mod 128)) \<longleftrightarrow> h < n"
    and "n \<le> h \<Longrightarrow> (x + int k - (int h' - int n)) mod 128 = (x - (int h - int n)) mod 128"
proof -
  let ?p = "nat ((x + int k - (int h' - int n)) mod 128)"
  show eq: "(x + int k - (int h' - int n)) mod 128 = (x - (int h - int n)) mod 128" if "n \<le> h"
  proof -
    have "int k = int h' - int h" using n h k that by simp
    then have "x + int k - (int h' - int n) = x - (int h - int n)" by linarith
    then show ?thesis by (simp only:)
  qed
  show "in_ring x k ?p \<longleftrightarrow> h < n"
  proof (cases "h < n")
    case False
    have "\<not> in_ring x k ?p"
    proof
      assume "in_ring x k ?p"
      then obtain i where i: "1 \<le> i" "i \<le> int k" "(x + (int n - int h)) mod 128 = (x + i) mod 128"
        using eq False by (auto simp: in_ring_def algebra_simps)
      have "int k \<le> int h' - int h" "int h' - int n < 128" using k h n by auto
      then have "\<bar>int n - int h - i\<bar> < 128" using i False by linarith
      then have "int n - int h = i" using ring_eq_iff [of "int n - int h" i x] i(3) by simp
      then show False using False i(1) by simp
    qed
    with False show ?thesis by simp
  next
    case True
    show ?thesis
    proof (cases "128 \<le> h' - h")
      case True
      then show ?thesis using in_ring_all [of k ?p x] k \<open>h < n\<close> by (simp add: nat_less_iff)
    next
      case False
      then have "int k = int h' - int h" using h k by simp
      then have "x + int k - (int h' - int n) = x + (int n - int h)" by linarith
      then have "?p = nat ((x + (int n - int h)) mod 128)" by (simp only:)
      then have "int ?p = (x + (int n - int h)) mod 128" by simp
      moreover have "int n - int h \<le> int k" using \<open>int k = _\<close> n(1) by simp
      ultimately show ?thesis using True unfolding in_ring_def
        by (intro iffI exI [of _ "int n - int h"]) auto
    qed
  qed
qed

lemma set_authenticated_new:
  assumes t: "tracks c seen" and s: "ec_last_seqno c < s"
  shows "\<exists>c'. set_authenticated_seqno c s = Some c' \<and> tracks c' (insert (unat s) seen) \<and>
    ec_last_seqno c' = s"
proof -
  let ?h = "unat (ec_last_seqno c)" and ?h' = "unat s" and ?x = "uint (ec_seqno_index c)"
  let ?k = "min (?h' - ?h) 128"
  have inv: "window_inv c" using t by (simp add: tracks_def)
  have h: "?h < ?h'" using s by (simp add: word_less_nat_alt)
  obtain d where d: "shift_window ?k c = Some d" "window_inv d"
    "uint (ec_seqno_index d) = (?x + int ?k) mod 128"
    "\<forall>k < 128. window_bit d k \<longleftrightarrow> window_bit c k \<and> \<not> in_ring ?x ?k k"
    using shift_window_eq [OF inv] by metis
  obtain e where e: "set_window_bit d (ec_seqno_index d) True = Some e" "window_inv e"
    "ec_seqno_index e = ec_seqno_index d"
    "\<forall>k < 128. window_bit e k = (if k = unat (ec_seqno_index d) then True else window_bit d k)"
    using set_window_bit_eq [OF d(2), of "ec_seqno_index d" True] d(2)
    by (auto simp: window_inv_def)
  let ?c = "e\<lparr>ec_last_seqno := s\<rparr>"
  have c: "ec_inbound c" "ec_window_size c = 128" using inv by (auto simp: window_inv_def)
  have "unat (if s - ec_last_seqno c < ec_window_size c then s - ec_last_seqno c
      else ec_window_size c) = ?k"
    using s unfolding c by (auto simp: unat_sub word_less_nat_alt word_le_nat_alt min_def)
  then have run: "set_authenticated_seqno c s = Some ?c"
    using c(1) s d(1) e(1)
    by (simp add: set_authenticated_seqno_def Let_def split del: if_split)
  have pos: "ring_pos ?c n = nat ((?x + int ?k - (int ?h' - int n)) mod 128)" for n
    by (simp add: ring_pos_def e(3) d(3) mod_diff_left_eq)
  have idx: "unat (ec_seqno_index d) = ring_pos ?c ?h'"
    unfolding unat_eq_nat_uint d(3) pos by (simp only: diff_self diff_zero)
  have "window_bit ?c (ring_pos ?c n) \<longleftrightarrow> n \<in> insert ?h' seen"
    if n: "0 < n" "n \<le> ?h'" "?h' - n < 128" for n
  proof (cases "n = ?h'")
    case True
    then have "ring_pos ?c n = unat (ec_seqno_index d)" using idx by simp
    then show ?thesis using e(4) ring_pos_less [of ?c n] True by (simp add: window_bit_def)
  next
    case False
    then have lt: "n < ?h'" using n by simp
    have "ring_pos ?c n \<noteq> ring_pos ?c ?h'"
      using ring_pos_inj [of n ?h' ?c] n False by linarith
    then have "window_bit ?c (ring_pos ?c n) \<longleftrightarrow> window_bit d (ring_pos ?c n)"
      using e(4) [rule_format, OF ring_pos_less [of ?c n]] unfolding idx
      by (simp only: window_bit_update if_False)
    also have "\<dots> \<longleftrightarrow> window_bit c (ring_pos ?c n) \<and> \<not> ?h < n"
      using d(4) [rule_format, OF ring_pos_less [of ?c n]]
        shifted_bits(1) [OF lt n(3) h refl, of ?x] unfolding pos by (simp only:)
    finally have "window_bit ?c (ring_pos ?c n) \<longleftrightarrow> window_bit c (ring_pos ?c n) \<and> \<not> ?h < n" .
    moreover have "n \<le> ?h \<Longrightarrow> ring_pos ?c n = ring_pos c n"
      using shifted_bits(2) [OF lt n(3) h refl, of ?x] unfolding pos
      by (simp only: ring_pos_def uint_nat)
    moreover have "n \<le> ?h \<Longrightarrow> window_bit c (ring_pos c n) \<longleftrightarrow> n \<in> seen" "n \<in> seen \<Longrightarrow> n \<le> ?h"
      using t n h unfolding tracks_def by auto
    ultimately show ?thesis using False by (metis insert_iff not_le)
  qed
  with e(2) t h have "tracks ?c (insert ?h' seen)"
    by (auto simp: tracks_def window_inv_def)
  with run show ?thesis by auto
qed

lemma set_authenticated_spec:
  assumes "tracks c seen" "window_spec (unat (ec_last_seqno c)) seen (unat s)"
  shows "\<exists>c'. set_authenticated_seqno c s = Some c' \<and> tracks c' (insert (unat s) seen) \<and>
    unat (ec_last_seqno c') = max (unat (ec_last_seqno c)) (unat s)"
proof (cases "ec_last_seqno c < s")
  case True
  then show ?thesis using set_authenticated_new [OF assms(1)]
    by (metis max.absorb4 word_less_nat_alt)
next
  case False
  then have s: "s \<le> ec_last_seqno c" "0 < s" "ec_last_seqno c - s < 128"
    using assms(2) unat_diff_less [of s "ec_last_seqno c"]
    by (auto simp: window_spec_def word_less_nat_alt word_le_nat_alt)
  then show ?thesis using set_authenticated_inside [OF assms(1) s]
    by (metis max.absorb1 word_le_nat_alt)
qed

lemma receive_seqnos_spec:
  assumes "tracks c seen"
  shows "\<exists>c'. receive_seqnos c ps = Some (replay_spec (unat (ec_last_seqno c)) seen ps, c')"
  using assms
proof (induction ps arbitrary: c seen)
  case (Cons p ps)
  obtain n a where p: "p = (n, a)" by (cases p)
  show ?case
  proof (cases "a \<and> window_spec (unat (ec_last_seqno c)) seen (unat n)")
    case True
    then obtain d where "set_authenticated_seqno c n = Some d" "tracks d (insert (unat n) seen)"
      "unat (ec_last_seqno d) = max (unat (ec_last_seqno c)) (unat n)"
      using set_authenticated_spec [OF Cons.prems] by blast
    with Cons.IH [of d "insert (unat n) seen"] True p show ?thesis
      by (auto simp: verify_seqno_spec [OF Cons.prems])
  next
    case False
    with Cons.IH [OF Cons.prems] p show ?thesis
      by (auto simp: verify_seqno_spec [OF Cons.prems])
  qed
qed simp

lemma tracks_init: "tracks (esp_context_init aead True) {}"
proof -
  have "ESP_DEFAULT_WINDOW_SIZE div 8 + 1 = 17" by (simp add: ESP_DEFAULT_WINDOW_SIZE_def)
  then show ?thesis
    by (simp add: tracks_def window_inv_def esp_context_init_def ESP_DEFAULT_WINDOW_SIZE_def)
qed

lemma replay_spec_fresh:
  "set (replay_spec h seen ps) \<inter> {n. unat n \<in> seen} = {} \<and> distinct (replay_spec h seen ps)"
  if "\<forall>n \<in> seen. n \<le> h" for seen
  using that
proof (induction h seen ps rule: replay_spec.induct)
  case (2 h seen n authentic ps)
  show ?case
  proof (cases "authentic \<and> window_spec h seen (unat n)")
    case True
    then have "unat n \<notin> seen" using 2(3) by (auto simp: window_spec_def)
    moreover have "\<forall>m \<in> insert (unat n) seen. m \<le> max h (unat n)" using 2(3) by auto
    then have "set (replay_spec (max h (unat n)) (insert (unat n) seen) ps) \<inter>
        {m. unat m \<in> insert (unat n) seen} = {}"
      "distinct (replay_spec (max h (unat n)) (insert (unat n) seen) ps)"
      using 2(1) [OF True] by auto
    ultimately show ?thesis using True by (auto simp del: replay_spec.simps(1))
  qed (use 2 in auto)
qed simp

text \<open>
  C2. The window of bits accepts exactly the packets the anti-replay service on the set of
  all sequence numbers ever authenticated accepts, over every sequence of packets, and never
  accesses memory outside the window.
\<close>

theorem window_refines_replay_spec:
  "\<exists>c'. receive_seqnos (esp_context_init aead True) ps = Some (replay_spec 0 {} ps, c')"
  using receive_seqnos_spec [OF tracks_init, of aead ps] by (simp add: esp_context_init_def)

text \<open>
  C1. No sequence number is accepted twice, however the packets are replayed, reordered or
  forged; zero is never accepted.
\<close>

theorem no_seqno_accepted_twice:
  assumes "receive_seqnos (esp_context_init aead True) ps = Some (acc, c')"
  shows "distinct acc \<and> 0 \<notin> set acc"
proof -
  have acc: "acc = replay_spec 0 {} ps"
    using assms receive_seqnos_spec [OF tracks_init, of aead ps] by (simp add: esp_context_init_def)
  have "0 \<notin> set (replay_spec h seen ps)" for h seen
    by (induction h seen ps rule: replay_spec.induct) (auto simp: window_spec_def)
  with acc replay_spec_fresh [of "{}"] show ?thesis by simp
qed

theorem no_seqno_accepted_twice_witness:
  "\<exists>c'. receive_seqnos (esp_context_init () True) [(5, True), (3, True), (5, True), (200, False),
       (3, True), (4, True)] = Some ([5, 3, 4], c') \<and> distinct [5, 3, 4 :: u32]"
proof -
  let ?ps = "[(5, True), (3, True), (5, True), (200, False), (3, True), (4, True)] :: (u32 \<times> bool) list"
  have "replay_spec 0 {} ?ps = [5, 3, 4]" by (simp add: window_spec_def)
  then obtain c' where "receive_seqnos (esp_context_init () True) ?ps = Some ([5, 3, 4], c')"
    using receive_seqnos_spec [OF tracks_init, of "()" ?ps] by (auto simp: esp_context_init_def)
  with no_seqno_accepted_twice [OF this] show ?thesis by blast
qed

lemma next_seqnos_eq:
  assumes "\<not> ec_inbound c"
  shows "map unat (next_seqnos k c) =
    [Suc (unat (ec_last_seqno c)) ..< Suc (min (unat (ec_last_seqno c) + k) (2 ^ 32 - 1))]"
  using assms
proof (induction k arbitrary: c)
  case 0
  have "unat (ec_last_seqno c) < 2 ^ 32" using unsigned_less [where ?'a = nat, of "ec_last_seqno c"] by simp
  then show ?case by (simp add: min_def)
next
  case (Suc k)
  show ?case
  proof (cases "ec_last_seqno c = 0xFFFFFFFF")
    case True
    then show ?thesis using Suc.prems by (simp add: next_seqno_def)
  next
    case False
    let ?c = "c\<lparr>ec_last_seqno := ec_last_seqno c + 1\<rparr>"
    have "ec_last_seqno c + 1 \<noteq> 0"
    proof
      assume "ec_last_seqno c + 1 = 0"
      then have "ec_last_seqno c = - 1" by (simp add: eq_neg_iff_add_eq_0)
      with False show False by simp
    qed
    then have s: "unat (ec_last_seqno c + 1) = Suc (unat (ec_last_seqno c))"
      by (simp add: unatSuc add.commute)
    have lt: "Suc (unat (ec_last_seqno c)) < 2 ^ 32" using unsigned_less [where ?'a = nat, of "ec_last_seqno c + 1"] s by simp
    have "map unat (next_seqnos k ?c) =
      [Suc (Suc (unat (ec_last_seqno c))) ..< Suc (min (Suc (unat (ec_last_seqno c)) + k) (2 ^ 32 - 1))]"
      using Suc.IH [of ?c] Suc.prems s by simp
    then show ?thesis using Suc.prems False lt s
      by (simp add: next_seqno_def Let_def upt_conv_Cons [of "Suc (unat (ec_last_seqno c))"]
          del: upt_Suc)
  qed
qed

text \<open>
  C15. An outbound context numbers its packets 1, 2, 3 and so on and refuses to number more
  than \<open>2\<^sup>3\<^sup>2 - 1\<close> of them: no sequence number is ever used twice.
\<close>

theorem outbound_seqnos_never_repeat:
  "map unat (next_seqnos k (esp_context_init aead False)) = [1 ..< Suc (min k (2 ^ 32 - 1))] \<and>
   distinct (next_seqnos k (esp_context_init aead False))"
proof -
  let ?l = "next_seqnos k (esp_context_init aead False)"
  have eq: "map unat ?l = [1 ..< Suc (min k (2 ^ 32 - 1))]"
    using next_seqnos_eq [of "esp_context_init aead False" k]
    by (simp add: esp_context_init_def del: upt_Suc)
  then have "distinct (map unat ?l)" by (simp only: distinct_upt)
  then have "distinct ?l" by (simp only: distinct_map)
  with eq show ?thesis by blast
qed

end
