(* ===== verification/Host.thy ===== *)
theory Host
  imports Prelude
begin

text \<open>
  Network addresses, \<^verbatim>\<open>networking/host.c\<close>: construction from raw bytes, strings,
  ranges and prefix lengths, comparison, ports. \<^verbatim>\<open>inet_pton\<close> and the DNS resolver are
  parameters. The first two sections hold what is shared by everything that works on
  addresses: \<^verbatim>\<open>memcmp\<close> and the view of an address as a string of bits.
\<close>

section \<open>Definitions\<close>

subsection \<open>memcmp, strchr and atoi\<close>

text \<open>
  \<^verbatim>\<open>memcmp\<close> over two blocks of the same length; only the sign of its result is
  specified by C, here it is the difference of the first bytes that differ.
\<close>

fun memcmp :: "bytes \<Rightarrow> bytes \<Rightarrow> int" where
  "memcmp (a # as) (b # bs) = (if a = b then memcmp as bs else uint a - uint b)"
| "memcmp _ _ = 0"

text \<open>\<^verbatim>\<open>strchr\<close>, as the offset of the character.\<close>

fun strchr :: "string \<Rightarrow> char \<Rightarrow> nat option" where
  "strchr [] c = None"
| "strchr (x # xs) c = (if x = c then Some 0 else map_option Suc (strchr xs c))"

definition is_digit :: "char \<Rightarrow> bool" where
  "is_digit c \<longleftrightarrow> 48 \<le> (of_char c :: nat) \<and> (of_char c :: nat) \<le> 57"

definition is_space :: "char \<Rightarrow> bool" where
  "is_space c \<longleftrightarrow> (of_char c :: nat) = 32 \<or> 9 \<le> (of_char c :: nat) \<and> (of_char c :: nat) \<le> 13"

definition digits_val :: "string \<Rightarrow> int" where
  "digits_val s = foldl (\<lambda>acc c. 10 * acc + (of_char c - 48)) 0 (takeWhile is_digit s)"

definition atoi :: "string \<Rightarrow> int" where
  "atoi s = (case dropWhile is_space s of
       [] \<Rightarrow> 0
     | c # cs \<Rightarrow> if c = CHR ''-'' then - digits_val cs
                else if c = CHR ''+'' then digits_val cs
                else digits_val (c # cs))"


subsection \<open>Addresses as bit strings\<close>

text \<open>The bits of an address, the most significant first, and the number they denote.\<close>

definition byte_bits :: "u8 \<Rightarrow> bool list" where
  "byte_bits w = map (bit w) [7, 6, 5, 4, 3, 2, 1, 0]"

definition addr_bits :: "bytes \<Rightarrow> bool list" where
  "addr_bits bs = concat (map byte_bits bs)"

primrec bits_val :: "bool list \<Rightarrow> nat" where
  "bits_val [] = 0"
| "bits_val (b # bs) = of_bool b * 2 ^ length bs + bits_val bs"

definition addr_val :: "bytes \<Rightarrow> nat" where
  "addr_val bs = bits_val (addr_bits bs)"


subsection \<open>host.c\<close>

text \<open>
  \<^verbatim>\<open>sa_family\<close> is an \<^verbatim>\<open>int\<close> with two values the code knows and
  \<^verbatim>\<open>AF_UNSPEC\<close>, which is zero.
\<close>

datatype family = AF_UNSPEC | AF_INET | AF_INET6 | AF_other int

text \<open>
  \<^verbatim>\<open>private_host_t\<close>: the address is the member of the union the family selects, the
  port is kept in network order.
\<close>

record host =
  sa_family :: family
  sin_addr :: bytes
  sin_port :: bytes
  socklen :: nat

definition IPV4_LEN :: nat where [simp]: "IPV4_LEN = 4"
definition IPV6_LEN :: nat where [simp]: "IPV6_LEN = 16"
definition sizeof_sockaddr_in :: nat where "sizeof_sockaddr_in = 16"
definition sizeof_sockaddr_in6 :: nat where "sizeof_sockaddr_in6 = 28"

definition is_anyaddr :: "host \<Rightarrow> bool" where
  "is_anyaddr this = (case sa_family this of
       AF_INET \<Rightarrow> sin_addr this = replicate IPV4_LEN 0
     | AF_INET6 \<Rightarrow> sin_addr this = replicate IPV6_LEN 0
     | _ \<Rightarrow> False)"

definition get_address :: "host \<Rightarrow> bytes" where
  "get_address this = (case sa_family this of
       AF_INET \<Rightarrow> sin_addr this | AF_INET6 \<Rightarrow> sin_addr this | _ \<Rightarrow> [])"

definition get_family :: "host \<Rightarrow> family" where
  "get_family this = sa_family this"

definition get_port :: "host \<Rightarrow> u16" where
  "get_port this = (case sa_family this of
       AF_INET \<Rightarrow> untoh16 (sin_port this) | AF_INET6 \<Rightarrow> untoh16 (sin_port this) | _ \<Rightarrow> 0)"

definition set_port :: "host \<Rightarrow> u16 \<Rightarrow> host" where
  "set_port this port = (case sa_family this of
       AF_INET \<Rightarrow> this\<lparr>sin_port := htoun16 port\<rparr>
     | AF_INET6 \<Rightarrow> this\<lparr>sin_port := htoun16 port\<rparr>
     | _ \<Rightarrow> this)"

definition ip_equals :: "host \<Rightarrow> host \<Rightarrow> bool" where
  "ip_equals this other =
     (if sa_family this \<noteq> sa_family other
      then is_anyaddr this \<and> is_anyaddr other
      else (case sa_family this of
              AF_INET \<Rightarrow> sin_addr this = sin_addr other
            | AF_INET6 \<Rightarrow> sin_addr this = sin_addr other
            | _ \<Rightarrow> False))"

definition host_equals :: "host \<Rightarrow> host \<Rightarrow> bool" where
  "host_equals this other =
     (if \<not> ip_equals this other then False
      else (case sa_family this of
              AF_INET \<Rightarrow> sin_port this = sin_port other
            | AF_INET6 \<Rightarrow> sin_port this = sin_port other
            | _ \<Rightarrow> False))"

text \<open>\<^verbatim>\<open>host_create_any\<close> returns \<^verbatim>\<open>NULL\<close> for a family it does not know.\<close>

definition host_create_any :: "family \<Rightarrow> host option" where
  "host_create_any family = (case family of
       AF_INET \<Rightarrow> Some \<lparr>sa_family = AF_INET, sin_addr = replicate IPV4_LEN 0,
                        sin_port = [0, 0], socklen = sizeof_sockaddr_in\<rparr>
     | AF_INET6 \<Rightarrow> Some \<lparr>sa_family = AF_INET6, sin_addr = replicate IPV6_LEN 0,
                         sin_port = [0, 0], socklen = sizeof_sockaddr_in6\<rparr>
     | _ \<Rightarrow> None)"

text \<open>
  \<^verbatim>\<open>host_create_any_port\<close> calls a method of the object without a check for
  \<^verbatim>\<open>NULL\<close>: the outer \<open>None\<close>, here and below, is that access.
\<close>

definition host_create_any_port :: "family \<Rightarrow> u16 \<Rightarrow> host option option" where
  "host_create_any_port family port = (case host_create_any family of
       None \<Rightarrow> None
     | Some this \<Rightarrow> Some (Some (set_port this port)))"

definition host_create_from_sockaddr :: "family \<Rightarrow> bytes \<Rightarrow> bytes \<Rightarrow> host option" where
  "host_create_from_sockaddr family addr port = (case family of
       AF_INET \<Rightarrow> Some \<lparr>sa_family = AF_INET, sin_addr = addr,
                        sin_port = port, socklen = sizeof_sockaddr_in\<rparr>
     | AF_INET6 \<Rightarrow> Some \<lparr>sa_family = AF_INET6, sin_addr = addr,
                         sin_port = port, socklen = sizeof_sockaddr_in6\<rparr>
     | _ \<Rightarrow> None)"

text \<open>
  \<^verbatim>\<open>inet_pton\<close> of the C library is a parameter: the parsed bytes, or \<open>None\<close>
  where it does not return 1.
\<close>

type_synonym pton = "family \<Rightarrow> string \<Rightarrow> bytes option"

definition parse_addr :: "pton \<Rightarrow> family \<Rightarrow> string \<Rightarrow> u16 \<Rightarrow> host option" where
  "parse_addr inet_pton family string port = (case inet_pton family string of
       None \<Rightarrow> None
     | Some addr \<Rightarrow> host_create_from_sockaddr family addr (htoun16 port))"

definition host_create_from_string_and_family ::
  "pton \<Rightarrow> string option \<Rightarrow> family \<Rightarrow> u16 \<Rightarrow> host option option" where
  "host_create_from_string_and_family inet_pton str family port = (case str of
       None \<Rightarrow> Some None
     | Some string \<Rightarrow>
         if string = ''%any''
         then host_create_any_port (if family \<noteq> AF_UNSPEC then family else AF_INET) port
         else if (family = AF_UNSPEC \<or> family = AF_INET) \<and>
                 (string = ''%any4'' \<or> string = ''0.0.0.0'')
         then host_create_any_port AF_INET port
         else if (family = AF_UNSPEC \<or> family = AF_INET6) \<and>
                 (string = ''%any6'' \<or> string = ''::'')
         then host_create_any_port AF_INET6 port
         else Some (case family of
                AF_UNSPEC \<Rightarrow>
                  if strchr string (CHR ''.'') \<noteq> None
                  then parse_addr inet_pton AF_INET string port
                  else parse_addr inet_pton AF_INET6 string port
              | AF_INET6 \<Rightarrow> parse_addr inet_pton AF_INET6 string port
              | AF_INET \<Rightarrow>
                  if strchr string (CHR '':'') \<noteq> None then None
                  else parse_addr inet_pton AF_INET string port
              | _ \<Rightarrow> None))"

definition host_create_from_string :: "pton \<Rightarrow> string option \<Rightarrow> u16 \<Rightarrow> host option option" where
  "host_create_from_string inet_pton str port =
     host_create_from_string_and_family inet_pton str AF_UNSPEC port"

text \<open>The resolver, \<^verbatim>\<open>lib->hosts->resolve\<close>, is a parameter.\<close>

definition host_create_from_dns ::
  "pton \<Rightarrow> (string option \<Rightarrow> family \<Rightarrow> host option) \<Rightarrow> string option \<Rightarrow> family \<Rightarrow> u16 \<Rightarrow>
   host option option" where
  "host_create_from_dns inet_pton resolve str af port = do {
     parsed \<leftarrow> host_create_from_string_and_family inet_pton str af port;
     let this = (case parsed of None \<Rightarrow> resolve str af | Some h \<Rightarrow> Some h);
     Some (map_option (\<lambda>h. set_port h port) this)
   }"

definition host_create_from_chunk :: "family \<Rightarrow> bytes \<Rightarrow> u16 \<Rightarrow> host option" where
  "host_create_from_chunk family address port = do {
     (family, address) \<leftarrow>
       (case family of
          AF_INET \<Rightarrow> if length address < IPV4_LEN then None
                     else Some (AF_INET, take IPV4_LEN address)
        | AF_INET6 \<Rightarrow> if length address < IPV6_LEN then None
                      else Some (AF_INET6, take IPV6_LEN address)
        | AF_UNSPEC \<Rightarrow> if length address = IPV4_LEN then Some (AF_INET, address)
                       else if length address = IPV6_LEN then Some (AF_INET6, address)
                       else None
        | _ \<Rightarrow> None);
     Some \<lparr>sa_family = family, sin_addr = address, sin_port = htoun16 port,
           socklen = (if family = AF_INET then sizeof_sockaddr_in else sizeof_sockaddr_in6)\<rparr>
   }"

text \<open>
  \<^verbatim>\<open>host_create_from_range\<close>: the two output arguments are the result, \<open>Some None\<close>
  is \<^verbatim>\<open>FALSE\<close>. Blanks around the separator are skipped on both sides; a blank that
  is the very first character of the string is not.
\<close>

fun trim_behind :: "string \<Rightarrow> nat \<Rightarrow> nat" where
  "trim_behind string 0 = 0"
| "trim_behind string (Suc n) =
     (if n > 0 \<and> string ! n = CHR '' '' then trim_behind string n else Suc n)"

definition host_create_from_range :: "pton \<Rightarrow> string \<Rightarrow> (host \<times> host) option option" where
  "host_create_from_range inet_pton string = (case strchr string (CHR ''-'') of
       None \<Rightarrow> Some None
     | Some sep \<Rightarrow> do {
         to \<leftarrow> host_create_from_string inet_pton
                (Some (dropWhile (\<lambda>c. c = CHR '' '') (drop (sep + 1) string))) 0;
         (case to of
            None \<Rightarrow> Some None
          | Some to \<Rightarrow> do {
              from \<leftarrow> host_create_from_string_and_family inet_pton
                       (Some (take (trim_behind string sep) string)) (get_family to) 0;
              Some (case from of None \<Rightarrow> None | Some from \<Rightarrow> Some (from, to))
            })
       })"

text \<open>
  \<^verbatim>\<open>host_create_from_subnet\<close>: the host and the prefix length behind the slash, which
  is not checked here.
\<close>

definition host_create_from_subnet :: "pton \<Rightarrow> string \<Rightarrow> (host \<times> int) option option" where
  "host_create_from_subnet inet_pton string = (case strchr string (CHR ''/'') of
       Some pos \<Rightarrow>
         if pos \<ge> 64 then Some None
         else do {
           net \<leftarrow> host_create_from_string inet_pton (Some (take pos string)) 0;
           Some (map_option (\<lambda>net. (net, atoi (drop (pos + 1) string))) net)
         }
     | None \<Rightarrow> do {
         net \<leftarrow> host_create_from_string inet_pton (Some string) 0;
         Some (map_option (\<lambda>net. (net, if get_family net = AF_INET then 32 else 128)) net)
       })"

definition netmask_bytes :: "nat \<Rightarrow> nat \<Rightarrow> bytes" where
  "netmask_bytes len netbits =
     (let bytes = netbits div 8; bits = 8 - netbits mod 8;
          target = replicate bytes 0xff @ replicate (len - bytes) 0
      in if bytes < len then target[bytes := ucast (push_bit bits (0xff :: 32 word))] else target)"

definition host_create_netmask :: "family \<Rightarrow> int \<Rightarrow> host option" where
  "host_create_netmask family netbits = (case family of
       AF_INET \<Rightarrow>
         if netbits < 0 \<or> netbits > 32 then None
         else Some \<lparr>sa_family = AF_INET, sin_addr = netmask_bytes 4 (nat netbits),
                    sin_port = [0, 0], socklen = sizeof_sockaddr_in\<rparr>
     | AF_INET6 \<Rightarrow>
         if netbits < 0 \<or> netbits > 128 then None
         else Some \<lparr>sa_family = AF_INET6, sin_addr = netmask_bytes 16 (nat netbits),
                    sin_port = [0, 0], socklen = sizeof_sockaddr_in6\<rparr>
     | _ \<Rightarrow> None)"

text \<open>The well-formed hosts: the address has the length of its family.\<close>

definition host_wf :: "host \<Rightarrow> bool" where
  "host_wf h = (case sa_family h of
       AF_INET \<Rightarrow> length (sin_addr h) = 4
     | AF_INET6 \<Rightarrow> length (sin_addr h) = 16
     | _ \<Rightarrow> False)"

text \<open>
  What the code relies on of \<^verbatim>\<open>inet_pton\<close>: it stores an \<^verbatim>\<open>in_addr\<close> or an
  \<^verbatim>\<open>in6_addr\<close>. And of the resolver: it returns hosts.
\<close>

definition pton_stores :: "pton \<Rightarrow> bool" where
  "pton_stores inet_pton \<longleftrightarrow>
     (\<forall>s a. inet_pton AF_INET s = Some a \<longrightarrow> length a = 4) \<and>
     (\<forall>s a. inet_pton AF_INET6 s = Some a \<longrightarrow> length a = 16)"

text \<open>
  The outcome of a constructor: it does not crash, and if it returns an object the object
  is well-formed.
\<close>

definition makes :: "('a \<Rightarrow> bool) \<Rightarrow> 'a option option \<Rightarrow> bool" where
  "makes P r = (case r of None \<Rightarrow> False | Some None \<Rightarrow> True | Some (Some h) \<Rightarrow> P h)"


section \<open>memcmp orders addresses by their value\<close>

lemma length_byte_bits [simp, length_simps]: "length (byte_bits w) = 8"
  by (simp add: byte_bits_def)

lemma length_addr_bits [simp, length_simps]: "length (addr_bits bs) = 8 * length bs"
  by (induction bs) (simp_all add: addr_bits_def)

lemma addr_bits_Cons: "addr_bits (b # bs) = byte_bits b @ addr_bits bs"
  by (simp add: addr_bits_def)

lemma addr_bits_append: "addr_bits (as @ bs) = addr_bits as @ addr_bits bs"
  by (simp add: addr_bits_def)

lemma addr_bits_Nil [simp]: "addr_bits [] = []"
  by (simp add: addr_bits_def)

lemma nth_byte_bits: "j < 8 \<Longrightarrow> byte_bits w ! j = bit w (7 - j)"
proof -
  assume "j < 8"
  then consider "j = 0" | "j = 1" | "j = 2" | "j = 3" | "j = 4" | "j = 5" | "j = 6" | "j = 7"
    by linarith
  then show ?thesis by cases (simp_all add: byte_bits_def)
qed

lemma nth_addr_bits:
  "k < 8 * length bs \<Longrightarrow> addr_bits bs ! k = bit (bs ! (k div 8)) (7 - k mod 8)"
proof (induction bs arbitrary: k)
  case (Cons b bs)
  show ?case
  proof (cases "k < 8")
    case True
    then show ?thesis by (simp add: addr_bits_Cons nth_append nth_byte_bits)
  next
    case False
    then have "addr_bits (b # bs) ! k = addr_bits bs ! (k - 8)"
      by (simp add: addr_bits_Cons nth_append)
    moreover have "k div 8 = Suc ((k - 8) div 8)" "k mod 8 = (k - 8) mod 8"
      using False by (simp_all add: le_div_geq le_mod_geq)
    ultimately show ?thesis using Cons.IH [of "k - 8"] Cons.prems False by simp
  qed
qed simp

lemma bits_val_append: "bits_val (a @ b) = bits_val a * 2 ^ length b + bits_val b"
  by (induction a) (simp_all add: algebra_simps power_add)

lemma bits_val_less: "bits_val a < 2 ^ length a"
  by (induction a) auto

lemma bits_val_replicate [simp]:
  "bits_val (replicate n False) = 0" "Suc (bits_val (replicate n True)) = 2 ^ n"
  by (induction n) simp_all

lemma bits_val_inj: "length a = length b \<Longrightarrow> bits_val a = bits_val b \<longleftrightarrow> a = b"
proof (induction a b rule: list_induct2)
  case (Cons x xs y ys)
  have "bits_val xs < 2 ^ length ys" "bits_val ys < 2 ^ length ys"
    using bits_val_less [of xs] bits_val_less [of ys] Cons.hyps by auto
  then show ?case using Cons by (cases x; cases y) auto
qed simp

lemma bits_val_horner: "bits_val xs = horner_sum of_bool 2 (rev xs)"
  by (induction xs) (simp_all add: horner_sum_append)

lemma byte_bits_rev: "rev (byte_bits w) = map (bit w) [0..<8]"
  by (simp add: byte_bits_def upt_rec numeral_eq_Suc)

lemma bits_val_byte_bits: "bits_val (byte_bits w) = unat w"
proof -
  have "map (bit w) [0..<8] = map (bit (unat w)) [0..<8]"
    by (simp add: bit_unsigned_iff)
  then have "bits_val (byte_bits w) = take_bit 8 (unat w)"
    by (simp only: bits_val_horner byte_bits_rev horner_sum_bit_eq_take_bit)
  then show ?thesis
    using unsigned_less [where ?'a = nat, of w] by (simp add: take_bit_nat_eq_self)
qed

lemma byte_bits_inj: "byte_bits v = byte_bits w \<longleftrightarrow> v = w"
  by (metis bits_val_byte_bits word_unat_eq_iff)

lemma addr_bits_inj: "length a = length b \<Longrightarrow> addr_bits a = addr_bits b \<longleftrightarrow> a = b"
  by (induction a b rule: list_induct2) (simp_all add: addr_bits_Cons byte_bits_inj)

lemma addr_val_Cons: "addr_val (b # bs) = unat b * 256 ^ length bs + addr_val bs"
  by (simp add: addr_val_def addr_bits_Cons bits_val_append bits_val_byte_bits power_mult)

lemma addr_val_Nil [simp]: "addr_val [] = 0"
  by (simp add: addr_val_def)

lemma addr_val_less: "addr_val bs < 256 ^ length bs"
  using bits_val_less [of "addr_bits bs"] by (simp add: addr_val_def power_mult)

lemma addr_val_inj: "length a = length b \<Longrightarrow> addr_val a = addr_val b \<longleftrightarrow> a = b"
  by (simp add: addr_val_def bits_val_inj addr_bits_inj)

lemma less_by_leading:
  fixes a b c d m :: nat
  assumes "a < b" "c < m"
  shows "a * m + c < b * m + d"
proof -
  have "a * m + c < (a + 1) * m" using assms by (simp add: algebra_simps)
  also have "\<dots> \<le> b * m" using assms by (intro mult_right_mono) auto
  finally show ?thesis by simp
qed

text \<open>On blocks of one length the sign of \<^const>\<open>memcmp\<close> compares the numbers they denote.\<close>

lemma memcmp_val:
  "length a = length b \<Longrightarrow>
   (memcmp a b < 0 \<longleftrightarrow> addr_val a < addr_val b) \<and> (memcmp a b > 0 \<longleftrightarrow> addr_val b < addr_val a)"
proof (induction a b rule: list_induct2)
  case (Cons x xs y ys)
  have *: "addr_val xs < 256 ^ length xs" "addr_val ys < 256 ^ length xs"
    using addr_val_less [of xs] addr_val_less [of ys] Cons.hyps by auto
  consider "x = y" | "unat x < unat y" | "unat y < unat x"
    by (metis linorder_less_linear word_unat_eq_iff)
  then show ?case
  proof cases
    case 1
    then show ?thesis using Cons by (simp add: addr_val_Cons)
  next
    case 2
    have "addr_val (x # xs) < addr_val (y # ys)"
      using less_by_leading [OF 2 *(1)] Cons.hyps by (simp add: addr_val_Cons)
    moreover have "memcmp (x # xs) (y # ys) < 0"
      using 2 by (auto simp flip: word_less_nat_alt simp: word_less_def)
    ultimately show ?thesis by simp
  next
    case 3
    have "addr_val (y # ys) < addr_val (x # xs)"
      using less_by_leading [OF 3 *(2)] Cons.hyps by (simp add: addr_val_Cons)
    moreover have "memcmp (x # xs) (y # ys) > 0"
      using 3 by (auto simp flip: word_less_nat_alt simp: word_less_def)
    ultimately show ?thesis by simp
  qed
qed simp

lemma memcmp_less: "length a = length b \<Longrightarrow> memcmp a b < 0 \<longleftrightarrow> addr_val a < addr_val b"
  and memcmp_greater: "length a = length b \<Longrightarrow> memcmp a b > 0 \<longleftrightarrow> addr_val b < addr_val a"
  and memcmp_le: "length a = length b \<Longrightarrow> memcmp a b \<le> 0 \<longleftrightarrow> addr_val a \<le> addr_val b"
  and memcmp_ge: "length a = length b \<Longrightarrow> memcmp a b \<ge> 0 \<longleftrightarrow> addr_val b \<le> addr_val a"
  using memcmp_val [of a b] by (auto simp: not_less [symmetric])

lemma memcmp_eq_0: "length a = length b \<Longrightarrow> memcmp a b = 0 \<longleftrightarrow> a = b"
  using memcmp_val [of a b] addr_val_inj [of a b] by force

text \<open>
  The addresses between a prefix filled up with zeroes and the same prefix filled up with
  ones are those that have the prefix.
\<close>

lemma between_prefix:
  assumes "length x = length p + n"
  shows "bits_val (p @ replicate n False) \<le> bits_val x \<and> bits_val x \<le> bits_val (p @ replicate n True)
    \<longleftrightarrow> take (length p) x = p"
proof -
  define q r where "q = take (length p) x" and "r = drop (length p) x"
  have x: "x = q @ r" and len: "length q = length p" "length r = n"
    using assms by (auto simp: q_def r_def)
  have r: "bits_val r < 2 ^ n" using bits_val_less [of r] len by simp
  have t: "bits_val (replicate n True) < 2 ^ n" using bits_val_replicate(2) [of n] by linarith
  have "bits_val r \<le> bits_val (replicate n True)"
    using r bits_val_replicate(2) [of n] by linarith
  moreover have "q = p" if le: "bits_val p * 2 ^ n \<le> bits_val q * 2 ^ n + bits_val r"
    "bits_val q * 2 ^ n + bits_val r \<le> bits_val p * 2 ^ n + bits_val (replicate n True)"
  proof -
    have "\<not> bits_val q < bits_val p"
      using less_by_leading [of "bits_val q" "bits_val p" "bits_val r" "2 ^ n" 0] r le by linarith
    moreover have "\<not> bits_val p < bits_val q"
      using less_by_leading [of "bits_val p" "bits_val q" "bits_val (replicate n True)" "2 ^ n"
          "bits_val r"] t le by linarith
    ultimately show "q = p" using bits_val_inj [OF len(1)] by simp
  qed
  ultimately show ?thesis
    unfolding q_def [symmetric] by (auto simp: x bits_val_append len)
qed


section \<open>Hosts\<close>

lemma makes_simps [simp]:
  "makes P (Some None)" "makes P (Some (Some h)) \<longleftrightarrow> P h" "\<not> makes P None"
  by (simp_all add: makes_def)

lemma makes_bind:
  assumes "makes P r" "makes Q (g None)" "\<And>h. P h \<Longrightarrow> makes Q (g (Some h))"
  shows "makes Q (Option.bind r g)"
  using assms by (cases r) (auto simp: makes_def [of P] split: option.splits)

lemma makes_map: "makes P (Some (map_option f r)) \<longleftrightarrow> (\<forall>h. r = Some h \<longrightarrow> P (f h))"
  by (cases r) simp_all

lemma host_wf_set_port [simp]: "host_wf (set_port h p) = host_wf h"
  by (simp add: host_wf_def set_port_def split: family.splits)

lemma host_wf_create_any: "host_create_any f = Some h \<Longrightarrow> host_wf h"
  by (auto simp: host_create_any_def host_wf_def split: family.splits)

lemma any_port_makes: "f = AF_INET \<or> f = AF_INET6 \<Longrightarrow> makes host_wf (host_create_any_port f port)"
  by (auto simp: host_create_any_port_def host_create_any_def host_wf_def set_port_def)

lemma host_wf_parse_addr:
  assumes "pton_stores inet_pton" "parse_addr inet_pton f s port = Some h"
  shows "host_wf h"
  using assms
  by (auto simp: parse_addr_def host_create_from_sockaddr_def host_wf_def pton_stores_def
      split: option.splits family.splits)

lemma from_string_and_family_makes:
  assumes "pton_stores inet_pton" "\<forall>n. f \<noteq> AF_other n"
  shows "makes host_wf (host_create_from_string_and_family inet_pton s f port)"
proof -
  have parse: "makes host_wf (Some (parse_addr inet_pton f' s' port))" for f' s'
    using host_wf_parse_addr [OF assms(1), of f' s' port] by (auto simp: makes_def split: option.splits)
  have any: "makes host_wf (host_create_any_port AF_INET port)"
    "makes host_wf (host_create_any_port AF_INET6 port)"
    by (simp_all add: any_port_makes)
  show ?thesis
    using assms(2) unfolding host_create_from_string_and_family_def
    by (cases s; cases f;
        simp only: option.case family.case family.distinct if_True if_False simp_thms makes_simps
          parse any split: if_split)
qed

lemma from_string_makes:
  "pton_stores inet_pton \<Longrightarrow> makes host_wf (host_create_from_string inet_pton s port)"
  unfolding host_create_from_string_def by (rule from_string_and_family_makes) auto

lemma host_wf_family: "host_wf h \<Longrightarrow> get_family h = AF_INET \<or> get_family h = AF_INET6"
  by (auto simp: host_wf_def get_family_def split: family.splits)

lemma from_string_family:
  assumes "host_create_from_string_and_family inet_pton s f port = Some (Some h)" "f \<noteq> AF_UNSPEC"
  shows "get_family h = f"
  using assms
  by (auto simp: host_create_from_string_and_family_def host_create_any_port_def
      host_create_any_def parse_addr_def host_create_from_sockaddr_def set_port_def get_family_def
      split: option.splits if_splits family.splits)

lemma from_range_makes:
  assumes "pton_stores inet_pton"
  shows "makes (\<lambda>(from, to). host_wf from \<and> host_wf to \<and> get_family from = get_family to)
           (host_create_from_range inet_pton s)"
proof -
  let ?P = "\<lambda>(from, to). host_wf from \<and> host_wf to \<and> get_family from = get_family to"
  have *: "makes ?P (do { from \<leftarrow> host_create_from_string_and_family inet_pton t (get_family to) 0;
      Some (case from of None \<Rightarrow> None | Some from \<Rightarrow> Some (from, to)) })"
    if "host_wf to" for t to
  proof -
    have "makes (\<lambda>h. host_wf h \<and> get_family h = get_family to)
        (host_create_from_string_and_family inet_pton t (get_family to) 0)"
      using from_string_and_family_makes [OF assms, of "get_family to" t 0] host_wf_family [OF that]
        from_string_family [of inet_pton t "get_family to" 0]
      by (auto simp: makes_def split: option.splits)
    then show ?thesis by (rule makes_bind) (use that in auto)
  qed
  show ?thesis
    unfolding host_create_from_range_def
    by (auto split: option.split intro!: makes_bind [OF from_string_makes [OF assms]] *)
qed

lemma from_subnet_makes:
  assumes "pton_stores inet_pton"
  shows "makes (\<lambda>(net, bits). host_wf net) (host_create_from_subnet inet_pton s)"
  unfolding host_create_from_subnet_def
  by (auto split: option.split intro!: makes_bind [OF from_string_makes [OF assms]])

lemma host_wf_from_chunk: "host_create_from_chunk f a port = Some h \<Longrightarrow> host_wf h"
  by (auto simp: host_create_from_chunk_def host_wf_def split: family.splits if_splits)

lemma length_netmask_bytes [simp, length_simps]:
  "n \<le> 8 * len \<Longrightarrow> length (netmask_bytes len n) = len"
  by (auto simp: netmask_bytes_def Let_def)

lemma host_wf_netmask: "host_create_netmask f n = Some h \<Longrightarrow> host_wf h"
  by (auto simp: host_create_netmask_def host_wf_def split: family.splits if_splits)

lemma bit_ff: "bit (0xff :: int) j \<longleftrightarrow> j < 8"
proof -
  have "(0xff :: int) = mask 8" by (simp add: mask_eq_exp_minus_1)
  then show ?thesis by (simp only: bit_mask_iff) simp
qed

lemma bit_partial_byte:
  "i < 8 \<Longrightarrow> j < 8 \<Longrightarrow> bit (ucast (push_bit (8 - i) (0xff :: 32 word)) :: u8) (7 - j) \<longleftrightarrow> j < i"
  by (auto simp: bit_simps bit_ff)

lemma nth_netmask_bytes:
  assumes "n \<le> 8 * len" "k < len"
  shows "netmask_bytes len n ! k =
    (if k < n div 8 then 0xff
     else if k = n div 8 then ucast (push_bit (8 - n mod 8) (0xff :: 32 word)) else 0)"
  using assms by (auto simp: netmask_bytes_def Let_def nth_append)

lemma addr_bits_netmask:
  assumes "n \<le> 8 * len"
  shows "addr_bits (netmask_bytes len n) = replicate n True @ replicate (8 * len - n) False"
proof (rule nth_equalityI)
  fix k assume "k < length (addr_bits (netmask_bytes len n))"
  then have k: "k < 8 * len" using assms by simp
  then have byte: "k div 8 < len" by (simp add: less_mult_imp_div_less mult.commute)
  have split: "k = 8 * (k div 8) + k mod 8" "n = 8 * (n div 8) + n mod 8" by simp_all
  have mods: "k mod 8 < 8" "n mod 8 < 8" by simp_all
  have "addr_bits (netmask_bytes len n) ! k \<longleftrightarrow> bit (netmask_bytes len n ! (k div 8)) (7 - k mod 8)"
    using k assms by (simp add: nth_addr_bits)
  also have "\<dots> \<longleftrightarrow> k < n"
  proof -
    consider "k div 8 < n div 8" | "k div 8 = n div 8" | "k div 8 > n div 8" by linarith
    then show ?thesis
    proof cases
      case 1
      then have "k < n" using split mods by linarith
      then show ?thesis using 1 nth_netmask_bytes [OF assms byte] by (simp add: bit_ff)
    next
      case 2
      then have "k < n \<longleftrightarrow> k mod 8 < n mod 8" using split mods by linarith
      then show ?thesis
        using 2 nth_netmask_bytes [OF assms byte] bit_partial_byte [OF mods(2,1)] by simp
    next
      case 3
      then have "\<not> k < n" using split mods by linarith
      then show ?thesis using 3 nth_netmask_bytes [OF assms byte] by simp
    qed
  qed
  also have "\<dots> \<longleftrightarrow> (replicate n True @ replicate (8 * len - n) False) ! k"
    using k assms by (auto simp: nth_append)
  finally show "addr_bits (netmask_bytes len n) ! k =
    (replicate n True @ replicate (8 * len - n) False) ! k" .
qed (use assms in simp)

lemma ip_equals_sym: "ip_equals a b = ip_equals b a"
  by (auto simp: ip_equals_def split: family.splits)

lemma ip_equals_trans: "ip_equals a b \<Longrightarrow> ip_equals b c \<Longrightarrow> ip_equals a c"
  by (auto simp: ip_equals_def is_anyaddr_def split: family.splits if_splits)


section \<open>Properties\<close>


text \<open>The parser of the witness knows one address per family.\<close>

definition toy_pton :: pton where
  "toy_pton f s = (if f = AF_INET \<and> s = ''10.0.0.1'' then Some [10, 0, 0, 1]
                   else if f = AF_INET6 \<and> s = ''::1'' then Some (replicate 15 0 @ [1]) else None)"


text \<open>
  C26. \<^verbatim>\<open>host_create_netmask\<close> succeeds exactly for the prefix lengths of the family, and
  the mask it returns has that many leading ones and only zeroes behind them.
\<close>

theorem netmask_leading_ones:
  assumes "family = AF_INET \<and> len = 32 \<or> family = AF_INET6 \<and> len = 128"
  shows "(case host_create_netmask family netbits of
            None \<Rightarrow> netbits < 0 \<or> netbits > int len
          | Some h \<Rightarrow> 0 \<le> netbits \<and> netbits \<le> int len \<and> get_family h = family \<and>
              addr_bits (get_address h) =
                replicate (nat netbits) True @ replicate (len - nat netbits) False)"
  using assms addr_bits_netmask [of "nat netbits" 4] addr_bits_netmask [of "nat netbits" 16]
  by (auto simp: host_create_netmask_def get_family_def get_address_def)

theorem netmask_leading_ones_witness:
  "\<exists>h. host_create_netmask AF_INET 20 = Some h \<and>
     addr_bits (get_address h) = replicate 20 True @ replicate 12 False"
  using netmask_leading_ones [of AF_INET 32 20] by (auto split: option.splits)

end
