(* ===== verification/TrafficSelector.thy ===== *)
theory TrafficSelector
  imports Host
begin

text \<open>
  Traffic selectors, \<^verbatim>\<open>selectors/traffic_selector.c\<close>: an address range, a protocol and
  a port range, as IKEv2 negotiates them. The specification is the set of packets
  a selector matches; the intersection, containment and ordering of selectors and the
  conversions from and to subnets are proved against it.
\<close>

section \<open>Definitions\<close>

text \<open>\<^verbatim>\<open>ts_type_t\<close> is an integer read from the wire, with two values the code knows.\<close>

definition TS_IPV4_ADDR_RANGE :: int where "TS_IPV4_ADDR_RANGE = 7"
definition TS_IPV6_ADDR_RANGE :: int where "TS_IPV6_ADDR_RANGE = 8"
definition NON_SUBNET_ADDRESS_RANGE :: u8 where "NON_SUBNET_ADDRESS_RANGE = 255"
definition IPPROTO_ICMP :: u8 where "IPPROTO_ICMP = 1"
definition IPPROTO_ICMPV6 :: u8 where "IPPROTO_ICMPV6 = 58"

text \<open>
  \<^verbatim>\<open>private_traffic_selector_t\<close>; the unions holding the two addresses are blocks of
  16 bytes, of which an IPv4 selector uses the first four.
\<close>

record traffic_selector =
  ts_type :: int
  protocol :: u8
  dynamic :: bool
  netbits :: u8
  ts_from :: bytes
  ts_to :: bytes
  from_port :: u16
  to_port :: u16

text \<open>\<^verbatim>\<open>memcpy(dst, src, len)\<close> at the start of a block that is long enough.\<close>

definition copy_to :: "bytes \<Rightarrow> bytes \<Rightarrow> bytes" where
  "copy_to dst src = src @ drop (length src) dst"

definition addr_size :: "int \<Rightarrow> nat" where
  "addr_size type = (if type = TS_IPV4_ADDR_RANGE then 4 else 16)"

text \<open>
  \<^verbatim>\<open>calc_range\<close>. With more network bits than the address has, the lengths given to
  \<^verbatim>\<open>memset\<close> wrap around: \<open>None\<close>. With none, the last two statements update
  the byte in front of each block with a mask that leaves it as it is.
\<close>

definition calc_range :: "traffic_selector \<Rightarrow> u8 \<Rightarrow> traffic_selector option" where
  "calc_range this nb =
     (let len = addr_size (ts_type this);
          bytes = (unat nb + 7) div 8;
          bits = bytes * 8 - unat nb;
          mask = (if bits \<noteq> 0 then push_bit bits 1 - 1 else 0) :: u8;
          to = copy_to (ts_to this) (take bytes (ts_from this));
          from = take bytes (ts_from this) @ replicate (len - bytes) 0x00 @ drop len (ts_from this);
          to = take bytes to @ replicate (len - bytes) 0xff @ drop len to
      in if len < bytes then None
         else if bytes = 0 then Some (this\<lparr>netbits := nb, ts_from := from, ts_to := to\<rparr>)
         else Some (this\<lparr>netbits := nb,
                         ts_from := from[bytes - 1 := from ! (bytes - 1) AND NOT mask],
                         ts_to := to[bytes - 1 := to ! (bytes - 1) OR mask]\<rparr>))"

text \<open>
  \<^verbatim>\<open>calc_netbits\<close> returns the number of bits and sets the member: the nested loops
  visit the positions in this order.
\<close>

definition bit_positions :: "nat \<Rightarrow> (nat \<times> nat) list" where
  "bit_positions n = concat (map (\<lambda>byte. map (Pair byte) [7, 6, 5, 4, 3, 2, 1, 0]) [0..<n])"

fun scan_bits :: "bytes \<Rightarrow> bytes \<Rightarrow> (nat \<times> nat) list \<Rightarrow> bool \<Rightarrow> u8 \<Rightarrow> u8 \<Rightarrow> u8 \<times> u8" where
  "scan_bits from to [] prefix nb this_nb = (nb, this_nb)"
| "scan_bits from to ((byte, b) # ps) prefix nb this_nb =
     (let bitmask = 2 ^ b in
      if prefix then
        if bitmask AND from ! byte \<noteq> bitmask AND to ! byte
        then (let nb = of_nat ((7 - b) + byte * 8) in scan_bits from to ps False nb nb)
        else scan_bits from to ps prefix nb this_nb
      else if bitmask AND from ! byte \<noteq> 0 \<or> bitmask AND to ! byte = 0
        then (nb, NON_SUBNET_ADDRESS_RANGE)
        else scan_bits from to ps prefix nb this_nb)"

definition calc_netbits :: "traffic_selector \<Rightarrow> u8 \<times> traffic_selector" where
  "calc_netbits this =
     (let n = addr_size (ts_type this); nb = of_nat (n * 8);
          (ret, this_nb) = scan_bits (ts_from this) (ts_to this) (bit_positions n) True nb nb
      in (ret, this\<lparr>netbits := this_nb\<rparr>))"

definition is_opaque :: "traffic_selector \<Rightarrow> bool" where
  "is_opaque this \<longleftrightarrow> from_port this = 0xffff \<and> to_port this = 0"

definition is_any :: "traffic_selector \<Rightarrow> bool" where
  "is_any this \<longleftrightarrow> from_port this = 0 \<and> to_port this = 0xffff"

text \<open>The generic constructor moves ICMP types below 256 to the upper byte of the port.\<close>

definition icmp_port :: "u16 \<Rightarrow> u16" where
  "icmp_port port = (if port < 256 then push_bit 8 port else port)"

definition traffic_selector_create :: "u8 \<Rightarrow> int \<Rightarrow> u16 \<Rightarrow> u16 \<Rightarrow> traffic_selector" where
  "traffic_selector_create proto type fport tport =
     (let icmp = proto = IPPROTO_ICMP \<or> proto = IPPROTO_ICMPV6
      in \<lparr>ts_type = type, protocol = proto, dynamic = False, netbits = 0,
          ts_from = replicate 16 0, ts_to = replicate 16 0,
          from_port = (if icmp then icmp_port fport else fport),
          to_port = (if icmp then icmp_port tport else tport)\<rparr>)"

text \<open>The choice of the ports in \<^verbatim>\<open>get_subset\<close>.\<close>

definition subset_ports :: "traffic_selector \<Rightarrow> traffic_selector \<Rightarrow> (u16 \<times> u16) option" where
  "subset_ports this other =
     (if is_opaque this \<and> is_opaque other \<or> is_opaque this \<and> is_any other \<or>
         is_opaque other \<and> is_any this
      then Some (0xffff, 0)
      else (let fport = max (from_port this) (from_port other);
                tport = min (to_port this) (to_port other)
            in if fport > tport then None else Some (fport, tport)))"

definition get_subset :: "traffic_selector \<Rightarrow> traffic_selector \<Rightarrow> traffic_selector option" where
  "get_subset this other =
     (if dynamic this \<or> dynamic other then None
      else if ts_type this \<noteq> ts_type other then None
      else if ts_type this \<noteq> TS_IPV4_ADDR_RANGE \<and> ts_type this \<noteq> TS_IPV6_ADDR_RANGE then None
      else if protocol this \<noteq> protocol other \<and> protocol this \<noteq> 0 \<and> protocol other \<noteq> 0 then None
      else (let size = addr_size (ts_type this);
                proto = max (protocol this) (protocol other)
            in case subset_ports this other of
                 None \<Rightarrow> None
               | Some (fport, tport) \<Rightarrow>
                   (let from = (if memcmp (take size (ts_from this)) (take size (ts_from other)) > 0
                                then ts_from this else ts_from other);
                        to = (if memcmp (take size (ts_to this)) (take size (ts_to other)) > 0
                              then ts_to other else ts_to this)
                    in if memcmp (take size from) (take size to) > 0 then None
                       else (let sub = traffic_selector_create proto (ts_type this) fport tport
                             in Some (snd (calc_netbits (sub\<lparr>
                                  ts_from := copy_to (ts_from sub) (take size from),
                                  ts_to := copy_to (ts_to sub) (take size to)\<rparr>)))))))"

definition compare_int :: "int \<Rightarrow> int \<Rightarrow> int" where
  "compare_int a b = a - b"

text \<open>Returns at the first comparison that is not zero.\<close>

fun first_nonzero :: "int list \<Rightarrow> int" where
  "first_nonzero [] = 0"
| "first_nonzero (res # rest) = (if res \<noteq> 0 then res else first_nonzero rest)"

definition traffic_selector_cmp :: "traffic_selector \<Rightarrow> traffic_selector \<Rightarrow> int" where
  "traffic_selector_cmp a b =
     (let res = compare_int (ts_type a) (ts_type b) in
      if res \<noteq> 0 then res
      else if ts_type a = TS_IPV4_ADDR_RANGE \<or> ts_type a = TS_IPV6_ADDR_RANGE
      then (let size = addr_size (ts_type a) in
            first_nonzero
              [memcmp (take size (ts_from a)) (take size (ts_from b)),
               memcmp (take size (ts_to b)) (take size (ts_to a)),
               compare_int (uint (protocol a)) (uint (protocol b)),
               compare_int (uint (from_port a)) (uint (from_port b)),
               compare_int (uint (to_port b)) (uint (to_port a))])
      else 1)"

definition ts_equals :: "traffic_selector \<Rightarrow> traffic_selector \<Rightarrow> bool" where
  "ts_equals this other \<longleftrightarrow> traffic_selector_cmp this other = 0"

definition get_from_address :: "traffic_selector \<Rightarrow> bytes" where
  "get_from_address this =
     (if ts_type this = TS_IPV4_ADDR_RANGE then take 4 (ts_from this)
      else if ts_type this = TS_IPV6_ADDR_RANGE then take 16 (ts_from this) else [])"

definition get_to_address :: "traffic_selector \<Rightarrow> bytes" where
  "get_to_address this =
     (if ts_type this = TS_IPV4_ADDR_RANGE then take 4 (ts_to this)
      else if ts_type this = TS_IPV6_ADDR_RANGE then take 16 (ts_to this) else [])"

text \<open>A host of the address family of the selector.\<close>

definition same_family :: "host \<Rightarrow> traffic_selector \<Rightarrow> bool" where
  "same_family host this \<longleftrightarrow>
     get_family host = AF_INET \<and> ts_type this = TS_IPV4_ADDR_RANGE \<or>
     get_family host = AF_INET6 \<and> ts_type this = TS_IPV6_ADDR_RANGE"

definition is_host :: "traffic_selector \<Rightarrow> host option \<Rightarrow> bool" where
  "is_host this host = (case host of
       Some host \<Rightarrow>
         same_family host this \<and>
         (let addr = get_address host; n = length addr
          in addr = take n (ts_from this) \<and> addr = take n (ts_to this))
     | None \<Rightarrow>
         (let n = addr_size (ts_type this)
          in if dynamic this then True else take n (ts_from this) = take n (ts_to this)))"

definition set_address :: "traffic_selector \<Rightarrow> host \<Rightarrow> traffic_selector" where
  "set_address this host =
     (if is_host this None
      then (let this = this\<lparr>ts_type := if get_family host = AF_INET then TS_IPV4_ADDR_RANGE
                                       else TS_IPV6_ADDR_RANGE\<rparr>;
                this = (if is_anyaddr host
                        then this\<lparr>ts_from := replicate 16 0x00, ts_to := replicate 16 0xff,
                                  netbits := 0\<rparr>
                        else (let from = get_address host
                              in this\<lparr>ts_from := copy_to (ts_from this) from,
                                      ts_to := copy_to (ts_to this) from,
                                      netbits := of_nat (length from * 8)\<rparr>))
            in this\<lparr>dynamic := False\<rparr>)
      else this)"

definition is_contained_in :: "traffic_selector \<Rightarrow> traffic_selector \<Rightarrow> bool" where
  "is_contained_in this other = (case get_subset this other of
       None \<Rightarrow> False
     | Some sub \<Rightarrow> ts_equals sub this)"

definition ts_includes :: "traffic_selector \<Rightarrow> host \<Rightarrow> bool" where
  "ts_includes this host =
     (if same_family host this
      then (let addr = get_address host; n = length addr
            in memcmp (take n (ts_from this)) addr \<le> 0 \<and> memcmp (take n (ts_to this)) addr \<ge> 0)
      else False)"

text \<open>
  \<^verbatim>\<open>to_subnet\<close>: the result, the two output arguments and the selector, whose member
  \<^verbatim>\<open>netbits\<close> is recomputed. A mask longer than the address would be copied beyond the
  block allocated for it: \<open>None\<close>.
\<close>

definition to_subnet :: "traffic_selector \<Rightarrow> (bool \<times> host option \<times> u8 \<times> traffic_selector) option" where
  "to_subnet this =
     (let (mask, this) = (if netbits this = NON_SUBNET_ADDRESS_RANGE then calc_netbits this
                          else (netbits this, this))
      in if ts_type this \<noteq> TS_IPV4_ADDR_RANGE \<and> ts_type this \<noteq> TS_IPV6_ADDR_RANGE
         then Some (False, None, mask, this)
         else (let family = (if ts_type this = TS_IPV4_ADDR_RANGE then AF_INET else AF_INET6);
                   net_chunk = replicate (addr_size (ts_type this)) 0;
                   port = (if to_port this = from_port this then to_port this else 0)
               in do {
                 net_chunk \<leftarrow>
                   (if mask \<noteq> 0
                    then (let non_zero_bytes = (unat mask + 7) div 8;
                              shift = 8 * non_zero_bytes - unat mask
                          in do {
                            net \<leftarrow> store net_chunk 0 (take non_zero_bytes (ts_from this));
                            Some (net[non_zero_bytes - 1 :=
                                    net ! (non_zero_bytes - 1) AND push_bit shift 0xff])
                          })
                    else Some net_chunk);
                 Some (netbits this \<noteq> NON_SUBNET_ADDRESS_RANGE,
                       host_create_from_chunk family net_chunk port, mask, this)
               }))"

definition clone :: "traffic_selector \<Rightarrow> traffic_selector" where
  "clone this =
     (let c = traffic_selector_create (protocol this) (ts_type this) (from_port this) (to_port this);
          c = c\<lparr>netbits := netbits this, dynamic := dynamic this\<rparr>
      in if ts_type c = TS_IPV4_ADDR_RANGE
         then c\<lparr>ts_from := copy_to (ts_from c) (take 4 (ts_from this)),
                ts_to := copy_to (ts_to c) (take 4 (ts_to this))\<rparr>
         else if ts_type c = TS_IPV6_ADDR_RANGE
         then c\<lparr>ts_from := copy_to (ts_from c) (take 16 (ts_from this)),
                ts_to := copy_to (ts_to c) (take 16 (ts_to this))\<rparr>
         else c)"

definition traffic_selector_create_from_bytes ::
  "u8 \<Rightarrow> int \<Rightarrow> bytes \<Rightarrow> u16 \<Rightarrow> bytes \<Rightarrow> u16 \<Rightarrow> traffic_selector option" where
  "traffic_selector_create_from_bytes proto type from fport to tport =
     (let this = traffic_selector_create proto type fport tport;
          filled = this\<lparr>ts_from := copy_to (ts_from this) from, ts_to := copy_to (ts_to this) to\<rparr>
      in if type = TS_IPV4_ADDR_RANGE
         then if length from \<noteq> 4 \<or> length to \<noteq> 4 then None else Some (snd (calc_netbits filled))
         else if type = TS_IPV6_ADDR_RANGE
         then if length from \<noteq> 16 \<or> length to \<noteq> 16 then None else Some (snd (calc_netbits filled))
         else None)"

text \<open>
  \<^verbatim>\<open>traffic_selector_create_from_rfc3779_format\<close>: the two chunks are DER bit strings, the
  first byte counts the unused bits of the last. The outer \<open>None\<close> is a copy beyond the block
  of the address, or a shift by more than an \<^verbatim>\<open>int\<close> allows.
\<close>

definition traffic_selector_create_from_rfc3779_format ::
  "int \<Rightarrow> bytes \<Rightarrow> bytes \<Rightarrow> traffic_selector option option" where
  "traffic_selector_create_from_rfc3779_format type from to =
     (let this = traffic_selector_create 0 type 0 65535 in
      if type \<noteq> TS_IPV4_ADDR_RANGE \<and> type \<noteq> TS_IPV6_ADDR_RANGE then Some None
      else (let len = addr_size type;
                f0 = copy_to (ts_from this) (replicate len 0x00);
                t0 = copy_to (ts_to this) (replicate len 0xff)
            in do {
              f1 \<leftarrow> (if length from > 1 then store f0 0 (tl from) else Some f0);
              t1 \<leftarrow> (if length to > 1
                     then if unat (hd to) \<ge> 31 then None
                     else do {
                       t \<leftarrow> store t0 0 (tl to);
                       let mask = (if hd to \<noteq> 0 then push_bit (unat (hd to)) 1 - 1 else 0);
                       Some (t[length to - 2 := t ! (length to - 2) OR mask])
                     }
                     else Some t0);
              Some (Some (snd (calc_netbits (this\<lparr>ts_from := f1, ts_to := t1\<rparr>))))
            }))"

text \<open>
  \<^verbatim>\<open>check_address_object\<close> of \<^verbatim>\<open>plugins/x509/x509_cert.c\<close>, the check of a
  bit string from a certificate in front of the constructor above.
\<close>

definition check_address_object :: "int \<Rightarrow> bytes \<Rightarrow> bool" where
  "check_address_object type object =
     (if type = TS_IPV4_ADDR_RANGE \<and> length object > 5 then False
      else if type = TS_IPV6_ADDR_RANGE \<and> length object > 17 then False
      else if type \<noteq> TS_IPV4_ADDR_RANGE \<and> type \<noteq> TS_IPV6_ADDR_RANGE then False
      else if length object = 0 then False
      else if length object = 1 \<and> object ! 0 \<noteq> 0 then False
      else if object ! 0 > 7 then False
      else True)"

definition traffic_selector_create_from_subnet ::
  "host \<Rightarrow> u8 \<Rightarrow> u8 \<Rightarrow> u16 \<Rightarrow> u16 \<Rightarrow> traffic_selector option option" where
  "traffic_selector_create_from_subnet net nb proto fport tport =
     (let this = traffic_selector_create proto 0 fport tport;
          create = (\<lambda>type.
            (let this = this\<lparr>ts_type := type,
                             ts_from := copy_to (ts_from this) (get_address net)\<rparr>;
                 nb = min nb (if type = TS_IPV4_ADDR_RANGE then 32 else 128)
             in map_option Some (calc_range this nb)))
      in case get_family net of
           AF_INET \<Rightarrow> create TS_IPV4_ADDR_RANGE
         | AF_INET6 \<Rightarrow> create TS_IPV6_ADDR_RANGE
         | _ \<Rightarrow> Some None)"

definition traffic_selector_create_from_string ::
  "pton \<Rightarrow> u8 \<Rightarrow> int \<Rightarrow> string \<Rightarrow> u16 \<Rightarrow> string \<Rightarrow> u16 \<Rightarrow> traffic_selector option" where
  "traffic_selector_create_from_string inet_pton proto type from_addr fport to_addr tport =
     (if type \<noteq> TS_IPV4_ADDR_RANGE \<and> type \<noteq> TS_IPV6_ADDR_RANGE then None
      else (let family = (if type = TS_IPV4_ADDR_RANGE then AF_INET else AF_INET6);
                this = traffic_selector_create proto type fport tport
            in do {
              from \<leftarrow> inet_pton family from_addr;
              to \<leftarrow> inet_pton family to_addr;
              Some (snd (calc_netbits (this\<lparr>ts_from := copy_to (ts_from this) from,
                                            ts_to := copy_to (ts_to this) to\<rparr>)))
            }))"

text \<open>The prefix length is an \<^verbatim>\<open>int\<close>, passed as a \<^verbatim>\<open>uint8_t\<close>.\<close>

definition traffic_selector_create_from_cidr ::
  "pton \<Rightarrow> string \<Rightarrow> u8 \<Rightarrow> u16 \<Rightarrow> u16 \<Rightarrow> traffic_selector option option" where
  "traffic_selector_create_from_cidr inet_pton string proto fport tport = do {
     net \<leftarrow> host_create_from_subnet inet_pton string;
     (case net of
        Some (net, bits) \<Rightarrow>
          traffic_selector_create_from_subnet net (word_of_int bits) proto fport tport
      | None \<Rightarrow> Some None)
   }"

definition traffic_selector_create_dynamic :: "u8 \<Rightarrow> u16 \<Rightarrow> u16 \<Rightarrow> traffic_selector" where
  "traffic_selector_create_dynamic proto fport tport =
     (traffic_selector_create proto TS_IPV4_ADDR_RANGE fport tport)
       \<lparr>ts_from := replicate 16 0x00, ts_to := replicate 16 0xff, netbits := 0, dynamic := True\<rparr>"

subsection \<open>Specification\<close>

text \<open>
  A packet as a selector sees it: the remote address, the protocol, and the port, which is
  missing where it is not available (a fragment, or a protocol without ports). The ANY port
  range matches a missing port and so does OPAQUE, which matches nothing else.
\<close>

record packet =
  pk_addr :: bytes
  pk_proto :: u8
  pk_port :: "u16 option"

definition addr_range :: "traffic_selector \<Rightarrow> bytes \<Rightarrow> bool" where
  "addr_range ts addr \<longleftrightarrow>
     (ts_type ts = TS_IPV4_ADDR_RANGE \<or> ts_type ts = TS_IPV6_ADDR_RANGE) \<and>
     length addr = addr_size (ts_type ts) \<and>
     addr_val (take (length addr) (ts_from ts)) \<le> addr_val addr \<and>
     addr_val addr \<le> addr_val (take (length addr) (ts_to ts))"

definition port_range :: "traffic_selector \<Rightarrow> u16 option \<Rightarrow> bool" where
  "port_range ts port = (case port of
       Some p \<Rightarrow> from_port ts \<le> p \<and> p \<le> to_port ts
     | None \<Rightarrow> is_any ts \<or> is_opaque ts)"

definition ts_matches :: "traffic_selector \<Rightarrow> packet \<Rightarrow> bool" where
  "ts_matches ts pk \<longleftrightarrow>
     addr_range ts (pk_addr pk) \<and> (protocol ts = 0 \<or> protocol ts = pk_proto pk) \<and>
     port_range ts (pk_port pk)"

text \<open>The selectors of the program: full blocks and a type the code knows.\<close>

definition ts_wf :: "traffic_selector \<Rightarrow> bool" where
  "ts_wf ts \<longleftrightarrow> length (ts_from ts) = 16 \<and> length (ts_to ts) = 16 \<and>
     (ts_type ts = TS_IPV4_ADDR_RANGE \<or> ts_type ts = TS_IPV6_ADDR_RANGE)"

text \<open>The ports are not changed by a constructor for the protocol.\<close>

definition ports_kept :: "u8 \<Rightarrow> traffic_selector \<Rightarrow> bool" where
  "ports_kept proto ts \<longleftrightarrow>
     (proto = IPPROTO_ICMP \<or> proto = IPPROTO_ICMPV6 \<longrightarrow>
      icmp_port (from_port ts) = from_port ts \<and> icmp_port (to_port ts) = to_port ts)"

text \<open>The selector matches something.\<close>

definition ts_nonempty :: "traffic_selector \<Rightarrow> bool" where
  "ts_nonempty ts \<longleftrightarrow>
     (let n = addr_size (ts_type ts)
      in addr_val (take n (ts_from ts)) \<le> addr_val (take n (ts_to ts))) \<and>
     (from_port ts \<le> to_port ts \<or> is_opaque ts)"


section \<open>Counting the network bits\<close>

text \<open>The scan of \<^const>\<open>calc_netbits\<close> over the bits of the two addresses.\<close>

fun scan :: "nat \<Rightarrow> (bool \<times> bool) list \<Rightarrow> bool \<Rightarrow> u8 \<Rightarrow> u8 \<Rightarrow> u8 \<times> u8" where
  "scan k [] prefix nb this_nb = (nb, this_nb)"
| "scan k ((f, t) # ps) prefix nb this_nb =
     (if prefix then
        if f \<noteq> t then scan (k + 1) ps False (of_nat k) (of_nat k) else scan (k + 1) ps prefix nb this_nb
      else if f \<or> \<not> t then (nb, NON_SUBNET_ADDRESS_RANGE) else scan (k + 1) ps prefix nb this_nb)"

lemma scan_bits_scan:
  assumes "map (\<lambda>(byte, b). (7 - b) + byte * 8) ps = [k..<k + length ps]"
  shows "scan_bits from to ps prefix nb this_nb =
    scan k (map (\<lambda>(byte, b). (bit (from ! byte) b, bit (to ! byte) b)) ps) prefix nb this_nb"
  using assms
proof (induction ps arbitrary: k prefix nb this_nb)
  case (Cons p ps)
  obtain byte b where p: "p = (byte, b)" by force
  have k: "(7 - b) + byte * 8 = k"
    and IH: "scan_bits from to ps pr n m =
      scan (k + 1) (map (\<lambda>(byte, b). (bit (from ! byte) b, bit (to ! byte) b)) ps) pr n m" for pr n m
    using Cons.prems Cons.IH [of "k + 1"] by (simp_all add: p upt_conv_Cons del: upt_Suc)
  have *: "(2 ^ b AND x \<noteq> 2 ^ b AND y) = (bit x b \<noteq> bit y b)"
    "(2 ^ b AND x \<noteq> 0) = bit x b" "(2 ^ b AND x = 0) = (\<not> bit x b)" for x y :: u8
  proof -
    have eq: "2 ^ b AND x = (if bit x b then 2 ^ b AND - 1 else 0)" for x :: u8
      by (rule bit_word_eqI) (auto simp: bit_simps)
    have ne: "(2 ^ b AND x \<noteq> 0) = bit x b" for x :: u8
      using word_and_bit_ne_0 [of x b] by (simp add: and.commute)
    show "(2 ^ b AND x \<noteq> 0) = bit x b" "(2 ^ b AND x = 0) = (\<not> bit x b)"
      using ne [of x] by auto
    show "(2 ^ b AND x \<noteq> 2 ^ b AND y) = (bit x b \<noteq> bit y b)"
      using eq [of x] eq [of y] ne [of x] ne [of y] by auto
  qed
  show ?case by (simp add: p Let_def * k IH)
qed simp

lemma bit_positions_Suc:
  "bit_positions (Suc n) = bit_positions n @ map (Pair n) [7, 6, 5, 4, 3, 2, 1, 0]"
  by (simp add: bit_positions_def)

lemma upt_8: "[k..<k + 8] = map (\<lambda>i. i + k) [0, 1, 2, 3, 4, 5, 6, 7]"
proof -
  have "[k..<k + 8] = map (\<lambda>i. i + k) [0..<8]" by (simp only: map_add_upt add.commute)
  also have "[0..<8] = [0, 1, 2, 3, 4, 5, 6, 7 :: nat]" by code_simp
  finally show ?thesis .
qed

lemma bit_positions_index:
  "map (\<lambda>(byte, b). (7 - b) + byte * 8) (bit_positions n) = [0..<8 * n]"
proof (induction n)
  case (Suc n)
  have "[0..<8 * Suc n] = [0..<8 * n] @ [8 * n..<8 * n + 8]"
    by (simp only: mult_Suc_right add.commute [of 8] upt_add_eq_append [of 0 "8 * n" 8, OF le0])
  moreover have "map (\<lambda>(byte, b). (7 - b) + byte * 8) (map (Pair n) [7, 6, 5, 4, 3, 2, 1, 0]) =
      [8 * n..<8 * n + 8]"
    by (simp add: upt_8 del: upt_Suc)
  ultimately show ?case by (simp only: bit_positions_Suc map_append Suc)
qed (simp add: bit_positions_def)

lemma length_bit_positions: "length (bit_positions n) = 8 * n"
  using bit_positions_index [of n] by (metis length_map length_upt diff_zero)

lemma bit_positions_bits:
  "n \<le> length from \<Longrightarrow> n \<le> length to \<Longrightarrow>
   map (\<lambda>(byte, b). (bit (from ! byte) b, bit (to ! byte) b)) (bit_positions n) =
     zip (addr_bits (take n from)) (addr_bits (take n to))"
proof (induction n)
  case (Suc n)
  then have "take (Suc n) from = take n from @ [from ! n]" "take (Suc n) to = take n to @ [to ! n]"
    by (simp_all add: take_Suc_conv_app_nth)
  then show ?case
    using Suc by (simp add: bit_positions_Suc addr_bits_append addr_bits_Cons byte_bits_def)
qed (simp add: bit_positions_def)

lemma scan_suffix:
  "scan k (zip F T) False nb this_nb =
     (nb, if \<forall>(f, t) \<in> set (zip F T). \<not> f \<and> t then this_nb else NON_SUBNET_ADDRESS_RANGE)"
  by (induction F T arbitrary: k rule: list_induct2') auto

lemma scan_same: "scan k (zip F F) True nb this_nb = (nb, this_nb)"
  by (induction F arbitrary: k) auto

lemma scan_prefix:
  assumes "x \<noteq> y"
  shows "scan k (zip (p @ x # F) (p @ y # T)) True nb this_nb =
    (of_nat (k + length p),
     if \<forall>(f, t) \<in> set (zip F T). \<not> f \<and> t then of_nat (k + length p) else NON_SUBNET_ADDRESS_RANGE)"
  using assms by (induction p arbitrary: k) (auto simp: scan_suffix)

lemma filler_iff:
  "length F = length T \<Longrightarrow>
   (\<forall>(f, t) \<in> set (zip F T). \<not> f \<and> t) \<longleftrightarrow>
   F = replicate (length F) False \<and> T = replicate (length F) True"
  by (induction F T rule: list_induct2) auto

lemma TS_types_differ [simp]:
  "TS_IPV4_ADDR_RANGE \<noteq> TS_IPV6_ADDR_RANGE" "TS_IPV6_ADDR_RANGE \<noteq> TS_IPV4_ADDR_RANGE"
  by (simp_all add: TS_IPV4_ADDR_RANGE_def TS_IPV6_ADDR_RANGE_def)

lemma addr_size_simps [simp]:
  "addr_size TS_IPV4_ADDR_RANGE = 4" "addr_size TS_IPV6_ADDR_RANGE = 16"
  by (simp_all add: addr_size_def)

lemma addr_size_le: "addr_size t \<le> 16"
  by (simp add: addr_size_def)

definition from_bits :: "traffic_selector \<Rightarrow> bool list" where
  "from_bits ts = addr_bits (take (addr_size (ts_type ts)) (ts_from ts))"

definition to_bits :: "traffic_selector \<Rightarrow> bool list" where
  "to_bits ts = addr_bits (take (addr_size (ts_type ts)) (ts_to ts))"

lemma length_from_to_bits [simp, length_simps]:
  assumes "ts_wf ts"
  shows "length (from_bits ts) = 8 * addr_size (ts_type ts)"
    "length (to_bits ts) = 8 * addr_size (ts_type ts)"
  using assms addr_size_le [of "ts_type ts"]
  by (simp_all add: from_bits_def to_bits_def ts_wf_def)

lemma calc_netbits_scan:
  assumes "ts_wf ts"
  shows "calc_netbits ts =
    (let n = of_nat (addr_size (ts_type ts) * 8);
         (ret, nb) = scan 0 (zip (from_bits ts) (to_bits ts)) True n n
     in (ret, ts\<lparr>netbits := nb\<rparr>))"
proof -
  let ?n = "addr_size (ts_type ts)"
  have "?n \<le> length (ts_from ts)" "?n \<le> length (ts_to ts)"
    using assms addr_size_le [of "ts_type ts"] by (simp_all add: ts_wf_def)
  then show ?thesis
    using scan_bits_scan [of "bit_positions ?n" 0 "ts_from ts" "ts_to ts"]
    by (simp only: calc_netbits_def Let_def from_bits_def to_bits_def bit_positions_index
        length_bit_positions bit_positions_bits add_0 simp_thms)
qed

lemma calc_netbits_fields [simp]:
  "ts_type (snd (calc_netbits ts)) = ts_type ts" "protocol (snd (calc_netbits ts)) = protocol ts"
  "dynamic (snd (calc_netbits ts)) = dynamic ts" "ts_from (snd (calc_netbits ts)) = ts_from ts"
  "ts_to (snd (calc_netbits ts)) = ts_to ts" "from_port (snd (calc_netbits ts)) = from_port ts"
  "to_port (snd (calc_netbits ts)) = to_port ts"
  by (simp_all add: calc_netbits_def Let_def split: prod.splits)

text \<open>Two different strings of bits have a common prefix and differ behind it.\<close>

lemma common_prefix:
  "length F = length T \<Longrightarrow> F \<noteq> T \<Longrightarrow>
   \<exists>p x F' T'. F = p @ x # F' \<and> T = p @ (\<not> x) # T' \<and> length F' = length T'"
proof (induction F T rule: list_induct2)
  case (Cons f F t T)
  show ?case
  proof (cases "f = t")
    case True
    then obtain p x F' T' where "F = p @ x # F'" "T = p @ (\<not> x) # T'" "length F' = length T'"
      using Cons by blast
    then have "f # F = (f # p) @ x # F'" "t # T = (f # p) @ (\<not> x) # T'" using True by simp_all
    then show ?thesis using \<open>length F' = length T'\<close> by blast
  next
    case False
    then have "f # F = [] @ f # F" "t # T = [] @ (\<not> f) # T" by auto
    then show ?thesis using Cons.hyps by blast
  qed
qed simp

text \<open>
  The range is a subnet with prefix \<open>p\<close>: from the prefix filled with zeroes to the prefix
  filled with ones.
\<close>

definition is_subnet :: "traffic_selector \<Rightarrow> bool list \<Rightarrow> bool" where
  "is_subnet ts p \<longleftrightarrow>
     (\<exists>n. from_bits ts = p @ replicate n False \<and> to_bits ts = p @ replicate n True)"

lemma is_subnet_unique:
  assumes "is_subnet ts p" "is_subnet ts q"
  shows "p = q"
proof -
  have *: "p = q" if "p @ replicate n False = q @ replicate m False"
    "p @ replicate n True = q @ replicate m True" "m \<le> n" for p q :: "bool list" and n m
  proof -
    have "p @ replicate (n - m) False = q"
      using that(1,3) by (metis (no_types, lifting) append_assoc append_same_eq le_add_diff_inverse2 replicate_add)
    moreover have "p @ replicate (n - m) True = q"
      using that(2,3) by (metis (no_types, lifting) append_assoc append_same_eq le_add_diff_inverse2 replicate_add)
    ultimately show "p = q" by (cases "n - m") auto
  qed
  obtain n m where "p @ replicate n False = q @ replicate m False"
    "p @ replicate n True = q @ replicate m True"
    using assms unfolding is_subnet_def by metis
  then show ?thesis using * [of p n q m] * [of q m p n] by (cases "m \<le> n") auto
qed

lemma calc_netbits_subnet:
  assumes wf: "ts_wf ts" and "is_subnet ts p"
  shows "calc_netbits ts = (of_nat (length p), ts\<lparr>netbits := of_nat (length p)\<rparr>)"
proof -
  obtain n where bits: "from_bits ts = p @ replicate n False" "to_bits ts = p @ replicate n True"
    using assms(2) by (auto simp: is_subnet_def)
  have len: "length p + n = 8 * addr_size (ts_type ts)"
    using length_from_to_bits(1) [OF wf] by (simp add: bits)
  show ?thesis
  proof (cases n)
    case 0
    then show ?thesis using calc_netbits_scan [OF wf] len
      by (simp add: bits scan_same Let_def mult.commute)
  next
    case (Suc m)
    have "\<forall>(f, t) \<in> set (zip (replicate m False) (replicate m True)). \<not> f \<and> t"
      by (simp add: filler_iff)
    then show ?thesis using calc_netbits_scan [OF wf] scan_prefix [of False True 0 p "replicate m False"
          "replicate m True"]
      by (simp add: bits Suc Let_def)
  qed
qed

lemma calc_netbits_no_subnet:
  assumes wf: "ts_wf ts" and "\<nexists>p. is_subnet ts p"
    and le: "bits_val (from_bits ts) \<le> bits_val (to_bits ts)"
  shows "\<exists>p x F T. from_bits ts = p @ x # F \<and> to_bits ts = p @ (\<not> x) # T \<and>
    calc_netbits ts = (of_nat (length p), ts\<lparr>netbits := NON_SUBNET_ADDRESS_RANGE\<rparr>)"
proof -
  have "from_bits ts \<noteq> to_bits ts"
    using assms(2) by (metis append_Nil2 is_subnet_def replicate_0)
  then obtain p x F T where bits: "from_bits ts = p @ x # F" "to_bits ts = p @ (\<not> x) # T"
    and len: "length F = length T"
    using common_prefix [of "from_bits ts" "to_bits ts"] length_from_to_bits [OF wf] by metis
  have "\<not> x" using le bits_val_less [of T] len
    by (cases x) (simp_all add: bits bits_val_append)
  then have "\<not> (\<forall>(f, t) \<in> set (zip F T). \<not> f \<and> t)"
    using assms(2) bits unfolding is_subnet_def filler_iff [OF len]
    by (metis (full_types) replicate_Suc)
  then show ?thesis
    using calc_netbits_scan [OF wf] scan_prefix [of x "\<not> x" 0 p F T] bits
    by (auto simp: Let_def)
qed


section \<open>Intersection and containment\<close>

lemma u16_le_ffff [simp]: "(x :: u16) \<le> 0xffff"
proof -
  have "(- 1 :: u16) = 0xffff" by simp
  then show ?thesis by (metis word_order.extremum)
qed

lemma u16_ffff_le: "(0xffff :: u16) \<le> x \<longleftrightarrow> x = 0xffff"
  using u16_le_ffff [of x] by (metis order_antisym)

lemma subset_ports_range:
  assumes "subset_ports a b = Some (f, t)" "from_port s = f" "to_port s = t"
  shows "port_range s p \<longleftrightarrow> port_range a p \<and> port_range b p"
proof (cases "is_opaque a \<and> is_opaque b \<or> is_opaque a \<and> is_any b \<or> is_opaque b \<and> is_any a")
  case True
  then have ft: "f = 0xffff" "t = 0" using assms(1) by (auto simp: subset_ports_def)
  have no: "\<not> ((0xffff :: u16) \<le> p \<and> p \<le> 0)" for p by (simp add: u16_ffff_le)
  show ?thesis
    using True no assms(2,3) ft
    by (cases p) (auto simp: port_range_def is_opaque_def is_any_def)
next
  case False
  then have ft: "f = max (from_port a) (from_port b)" "t = min (to_port a) (to_port b)" "f \<le> t"
    using assms(1) by (auto simp: subset_ports_def Let_def split: if_splits)
  have "is_any s \<longleftrightarrow> is_any a \<and> is_any b"
    unfolding is_any_def assms(2,3) ft(1,2)
    by (metis max.cobounded1 max.cobounded2 max_def min_def u16_ffff_le u16_le_ffff word_coorder.extremum_unique)
  moreover have "\<not> is_opaque s"
    using ft(3) assms(2,3) by (auto simp: is_opaque_def)
  moreover have "\<not> (is_opaque a \<and> is_any a)" "\<not> (is_opaque b \<and> is_any b)"
    by (auto simp: is_any_def is_opaque_def)
  ultimately show ?thesis
    using False assms(2,3) ft(1,2) by (cases p) (auto simp: port_range_def)
qed

lemma subset_ports_none:
  assumes "subset_ports a b = None"
  shows "\<not> (port_range a p \<and> port_range b p)"
proof -
  have *: "max (from_port a) (from_port b) > min (to_port a) (to_port b)"
    "\<not> (is_opaque a \<and> is_opaque b \<or> is_opaque a \<and> is_any b \<or> is_opaque b \<and> is_any a)"
    using assms by (auto simp: subset_ports_def Let_def split: if_splits)
  then have "\<not> (is_any a \<and> is_any b)" by (auto simp: is_any_def)
  then show ?thesis
    using * by (cases p) (auto simp: port_range_def max_def min_def split: if_splits)
qed

lemma subset_ports_kept:
  assumes "subset_ports a b = Some (f, t)" "ports_kept proto a" "ports_kept proto b"
    "proto = IPPROTO_ICMP \<or> proto = IPPROTO_ICMPV6"
  shows "icmp_port f = f" "icmp_port t = t"
proof -
  have k: "icmp_port (from_port a) = from_port a" "icmp_port (to_port a) = to_port a"
    "icmp_port (from_port b) = from_port b" "icmp_port (to_port b) = to_port b"
    using assms(2-4) by (auto simp: ports_kept_def)
  have "icmp_port 0xffff = 0xffff" "icmp_port 0 = 0" by (simp_all add: icmp_port_def)
  then show "icmp_port f = f" "icmp_port t = t"
    using assms(1) k by (auto simp: subset_ports_def Let_def max_def min_def split: if_splits)
qed

lemma take_copy_to: "n \<le> length src \<Longrightarrow> take n (copy_to dst (take n src)) = take n src"
  by (simp add: copy_to_def)

lemma length_copy_to: "length src \<le> length dst \<Longrightarrow> length (copy_to dst src) = length dst"
  by (simp add: copy_to_def)

text \<open>Beginning and end of the range of a selector as numbers.\<close>

definition from_val :: "traffic_selector \<Rightarrow> nat" where
  "from_val ts = addr_val (take (addr_size (ts_type ts)) (ts_from ts))"

definition to_val :: "traffic_selector \<Rightarrow> nat" where
  "to_val ts = addr_val (take (addr_size (ts_type ts)) (ts_to ts))"

lemma addr_range_val:
  "ts_wf ts \<Longrightarrow> addr_range ts a \<longleftrightarrow>
     length a = addr_size (ts_type ts) \<and> from_val ts \<le> addr_val a \<and> addr_val a \<le> to_val ts"
  by (auto simp: addr_range_def from_val_def to_val_def ts_wf_def)

lemma max_proto:
  "(p :: u8) = q \<or> p = 0 \<or> q = 0 \<Longrightarrow> max p q = (if p = 0 then q else p)"
  by (auto simp: max_def)

text \<open>What \<^const>\<open>get_subset\<close> returns on well-formed selectors.\<close>

lemma get_subset_some:
  assumes wf: "ts_wf a" "ts_wf b" and s: "get_subset a b = Some s"
    and kept: "ports_kept (max (protocol a) (protocol b)) a" "ports_kept (max (protocol a) (protocol b)) b"
  shows "ts_wf s \<and> \<not> dynamic s \<and> ts_type s = ts_type a \<and> ts_type s = ts_type b \<and>
    (protocol a = protocol b \<or> protocol a = 0 \<or> protocol b = 0) \<and>
    protocol s = max (protocol a) (protocol b) \<and>
    subset_ports a b = Some (from_port s, to_port s) \<and>
    from_val s = max (from_val a) (from_val b) \<and> to_val s = min (to_val a) (to_val b)"
proof -
  let ?n = "addr_size (ts_type a)" and ?p = "max (protocol a) (protocol b)"
  have types: "ts_type b = ts_type a"
    "ts_type a = TS_IPV4_ADDR_RANGE \<or> ts_type a = TS_IPV6_ADDR_RANGE"
    "protocol a = protocol b \<or> protocol a = 0 \<or> protocol b = 0"
    using s by (auto simp: get_subset_def split: if_splits)
  obtain f t where ports: "subset_ports a b = Some (f, t)"
    using s by (auto simp: get_subset_def Let_def split: if_splits option.splits)
  define lo hi where
    "lo = (if memcmp (take ?n (ts_from a)) (take ?n (ts_from b)) > 0 then ts_from a else ts_from b)"
    and "hi = (if memcmp (take ?n (ts_to a)) (take ?n (ts_to b)) > 0 then ts_to b else ts_to a)"
  let ?s = "traffic_selector_create ?p (ts_type a) f t"
  have s_def: "s = snd (calc_netbits (?s\<lparr>ts_from := copy_to (ts_from ?s) (take ?n lo),
      ts_to := copy_to (ts_to ?s) (take ?n hi)\<rparr>))"
    using s ports unfolding get_subset_def lo_def hi_def
    by (simp add: Let_def split: if_splits)
  have len: "length lo = 16" "length hi = 16" "?n \<le> 16"
    using wf addr_size_le by (simp_all add: lo_def hi_def ts_wf_def)
  have vals: "addr_val (take ?n lo) = max (from_val a) (from_val b)"
    "addr_val (take ?n hi) = min (to_val a) (to_val b)"
    using wf types(1) len(3) by (auto simp: lo_def hi_def from_val_def to_val_def ts_wf_def
        memcmp_greater max_def min_def)
  have f: "from_port s = f" "to_port s = t"
    using subset_ports_kept [OF ports kept] unfolding s_def
    by (simp_all add: traffic_selector_create_def Let_def)
  show ?thesis
    unfolding f ports from_val_def [of s] to_val_def [of s] ts_wf_def
    using types len vals
    by (simp add: s_def traffic_selector_create_def Let_def take_copy_to length_copy_to)
qed

lemma get_subset_none:
  assumes wf: "ts_wf a" "ts_wf b" and "get_subset a b = None" "\<not> dynamic a" "\<not> dynamic b"
    "ts_type a = ts_type b" "protocol a = protocol b \<or> protocol a = 0 \<or> protocol b = 0"
    "subset_ports a b \<noteq> None"
  shows "max (from_val a) (from_val b) > min (to_val a) (to_val b)"
proof -
  let ?n = "addr_size (ts_type a)"
  define lo hi where
    "lo = (if memcmp (take ?n (ts_from a)) (take ?n (ts_from b)) > 0 then ts_from a else ts_from b)"
    and "hi = (if memcmp (take ?n (ts_to a)) (take ?n (ts_to b)) > 0 then ts_to b else ts_to a)"
  have gt: "memcmp (take ?n lo) (take ?n hi) > 0"
    using assms(3-8) wf(1) unfolding get_subset_def lo_def hi_def ts_wf_def
    by (auto simp: Let_def split: if_splits)
  have len: "length lo = 16" "length hi = 16" "?n \<le> 16"
    using wf addr_size_le by (simp_all add: lo_def hi_def ts_wf_def)
  have vals: "addr_val (take ?n lo) = max (from_val a) (from_val b)"
    "addr_val (take ?n hi) = min (to_val a) (to_val b)"
    using wf assms(6) len(3) by (auto simp: lo_def hi_def from_val_def to_val_def ts_wf_def
        memcmp_greater max_def min_def)
  show ?thesis using gt len by (simp add: memcmp_greater vals)
qed

lemma nonempty_val: "ts_nonempty ts \<longleftrightarrow>
  from_val ts \<le> to_val ts \<and> (from_port ts \<le> to_port ts \<or> is_opaque ts)"
  by (simp add: ts_nonempty_def from_val_def to_val_def Let_def)

lemma subset_matches:
  assumes wf: "ts_wf a" "ts_wf b" and s: "get_subset a b = Some s"
    and kept: "ports_kept (max (protocol a) (protocol b)) a" "ports_kept (max (protocol a) (protocol b)) b"
  shows "ts_matches s pk \<longleftrightarrow> ts_matches a pk \<and> ts_matches b pk"
proof -
  note * = get_subset_some [OF assms]
  have "protocol s = (if protocol a = 0 then protocol b else protocol a)"
    using * max_proto [of "protocol a" "protocol b"] by simp
  moreover have "protocol a = protocol b \<or> protocol a = 0 \<or> protocol b = 0" using * by simp
  ultimately have "(protocol s = 0 \<or> protocol s = pk_proto pk) \<longleftrightarrow>
      (protocol a = 0 \<or> protocol a = pk_proto pk) \<and> (protocol b = 0 \<or> protocol b = pk_proto pk)"
    by (auto split: if_splits)
  moreover have "port_range s p \<longleftrightarrow> port_range a p \<and> port_range b p" for p
    using * by (intro subset_ports_range [of a b "from_port s" "to_port s"]) simp_all
  moreover have "addr_range s x \<longleftrightarrow> addr_range a x \<and> addr_range b x" for x
    using * wf by (auto simp: addr_range_val)
  ultimately show ?thesis by (auto simp: ts_matches_def)
qed

lemma no_subset_no_match:
  assumes wf: "ts_wf a" "ts_wf b" and "get_subset a b = None" "\<not> dynamic a" "\<not> dynamic b"
  shows "\<not> (ts_matches a pk \<and> ts_matches b pk)"
proof
  assume m: "ts_matches a pk \<and> ts_matches b pk"
  have lens: "length (pk_addr pk) = addr_size (ts_type a)" "length (pk_addr pk) = addr_size (ts_type b)"
    and vals: "max (from_val a) (from_val b) \<le> min (to_val a) (to_val b)"
    using m wf by (auto simp: ts_matches_def addr_range_val)
  have "ts_type a = ts_type b" using lens wf by (auto simp: ts_wf_def)
  moreover have "protocol a = protocol b \<or> protocol a = 0 \<or> protocol b = 0"
    using m by (auto simp: ts_matches_def)
  moreover have "subset_ports a b \<noteq> None"
    using m subset_ports_none [of a b "pk_port pk"] unfolding ts_matches_def by blast
  ultimately show False using get_subset_none [OF assms] vals by simp
qed

text \<open>\<^const>\<open>ts_equals\<close> compares everything a packet is matched against.\<close>

lemma first_nonzero_0: "first_nonzero xs = 0 \<longleftrightarrow> (\<forall>x \<in> set xs. x = 0)"
  by (induction xs) auto

lemma ts_equals_iff:
  assumes "ts_wf a" "ts_wf b"
  shows "ts_equals a b \<longleftrightarrow> ts_type a = ts_type b \<and> from_val a = from_val b \<and> to_val a = to_val b \<and>
    protocol a = protocol b \<and> from_port a = from_port b \<and> to_port a = to_port b"
proof (cases "ts_type a = ts_type b")
  case True
  let ?n = "addr_size (ts_type a)"
  have len: "length (take ?n (ts_from a)) = length (take ?n (ts_from b))"
    "length (take ?n (ts_to b)) = length (take ?n (ts_to a))"
    using assms by (simp_all add: ts_wf_def)
  have "ts_type a = TS_IPV4_ADDR_RANGE \<or> ts_type a = TS_IPV6_ADDR_RANGE"
    using assms by (simp add: ts_wf_def)
  then have "ts_equals a b \<longleftrightarrow> memcmp (take ?n (ts_from a)) (take ?n (ts_from b)) = 0 \<and>
      memcmp (take ?n (ts_to b)) (take ?n (ts_to a)) = 0 \<and>
      protocol a = protocol b \<and> from_port a = from_port b \<and> to_port a = to_port b"
    using True unfolding ts_equals_def traffic_selector_cmp_def
    by (simp add: compare_int_def Let_def first_nonzero_0 del: first_nonzero.simps)
      (auto simp: word_uint_eq_iff)
  then show ?thesis
    unfolding from_val_def to_val_def True [symmetric] memcmp_eq_0 [OF len(1)] memcmp_eq_0 [OF len(2)]
      addr_val_inj [OF len(1)] addr_val_inj [OF len(2) [symmetric]] using True by auto
qed (auto simp: ts_equals_def traffic_selector_cmp_def compare_int_def Let_def)

lemma ts_equals_matches:
  assumes "ts_wf a" "ts_wf b" "ts_equals a b"
  shows "ts_matches a pk \<longleftrightarrow> ts_matches b pk"
  using assms by (simp add: ts_equals_iff ts_matches_def addr_range_val port_range_def is_any_def
      is_opaque_def split: option.split)

lemma contained_imp_matches:
  assumes wf: "ts_wf a" "ts_wf b" and c: "is_contained_in a b" and "ts_matches a pk"
    and kept: "ports_kept (max (protocol a) (protocol b)) a" "ports_kept (max (protocol a) (protocol b)) b"
  shows "ts_matches b pk"
proof -
  obtain s where s: "get_subset a b = Some s" "ts_equals s a"
    using c by (auto simp: is_contained_in_def split: option.splits)
  then have "ts_wf s" using get_subset_some [OF wf s(1) kept] by simp
  then have "ts_matches s pk" using ts_equals_matches [OF _ wf(1) s(2)] assms(4) by simp
  then show ?thesis using subset_matches [OF wf s(1) kept] by simp
qed

text \<open>The packet with the first or last address and port of a selector.\<close>

lemma nonempty_match:
  assumes wf: "ts_wf a" and ne: "ts_nonempty a"
    and addr: "x = ts_from a \<or> x = ts_to a"
    and port: "p = (if is_opaque a then None else Some (from_port a)) \<or>
      p = (if is_opaque a then None else Some (to_port a))"
  shows "ts_matches a \<lparr>pk_addr = take (addr_size (ts_type a)) x, pk_proto = protocol a, pk_port = p\<rparr>"
proof -
  have "addr_range a (take (addr_size (ts_type a)) x)"
    using wf ne addr addr_size_le [of "ts_type a"]
    by (auto simp: addr_range_val nonempty_val from_val_def to_val_def ts_wf_def)
  moreover have "port_range a p"
    using ne port by (auto simp: port_range_def nonempty_val split: if_splits)
  ultimately show ?thesis by (simp add: ts_matches_def)
qed

lemma matches_imp_contained:
  assumes wf: "ts_wf a" "ts_wf b" and dyn: "\<not> dynamic a" "\<not> dynamic b" and ne: "ts_nonempty a"
    and sub: "\<And>pk. ts_matches a pk \<Longrightarrow> ts_matches b pk"
    and kept: "ports_kept (max (protocol a) (protocol b)) a" "ports_kept (max (protocol a) (protocol b)) b"
  shows "is_contained_in a b"
proof -
  let ?n = "addr_size (ts_type a)"
  let ?pk = "\<lambda>x p. \<lparr>pk_addr = take ?n x, pk_proto = protocol a,
    pk_port = (if is_opaque a then None else Some p)\<rparr>"
  have both: "ts_matches a (?pk x p)" "ts_matches b (?pk x p)"
    if "x = ts_from a \<or> x = ts_to a" "p = from_port a \<or> p = to_port a" for x p
    using nonempty_match [OF wf(1) ne that(1)] sub that(2) by auto
  obtain s where s: "get_subset a b = Some s"
    using no_subset_no_match [OF wf _ dyn] both [of "ts_from a" "from_port a"]
    by (cases "get_subset a b") auto
  note * = get_subset_some [OF wf s kept]
  have "protocol b = 0" if "protocol a = 0"
    using sub [of "?pk (ts_from a) (from_port a)\<lparr>pk_proto := 0\<rparr>"] that
      both(1) [of "ts_from a" "from_port a"]
    by (simp add: ts_matches_def)
  then have "protocol s = protocol a"
    using * max_proto [of "protocol a" "protocol b"] by (auto split: if_splits)
  moreover have "from_val b \<le> from_val a" "to_val a \<le> to_val b"
    using both(2) [of "ts_from a" "from_port a"] both(2) [of "ts_to a" "from_port a"] wf *
    by (auto simp: ts_matches_def addr_range_val from_val_def [of a] to_val_def [of a])
  then have "from_val s = from_val a" "to_val s = to_val a" using * by simp_all
  moreover have "from_port s = from_port a \<and> to_port s = to_port a"
  proof (cases "is_opaque a")
    case True
    then have "is_any b \<or> is_opaque b"
      using both(2) [of "ts_from a" "from_port a"] by (simp add: ts_matches_def port_range_def)
    then show ?thesis using True * by (auto simp: subset_ports_def is_opaque_def)
  next
    case False
    then have "from_port b \<le> from_port a" "to_port a \<le> to_port b" "from_port a \<le> to_port a"
      using both(2) [of "ts_from a" "from_port a"] both(2) [of "ts_from a" "to_port a"] ne
      by (auto simp: ts_matches_def port_range_def nonempty_val)
    moreover from this have "\<not> is_opaque b" using False by (auto simp: is_opaque_def u16_ffff_le)
    ultimately show ?thesis using False * by (auto simp: subset_ports_def Let_def max_def min_def
          split: if_splits)
  qed
  ultimately have "ts_equals s a" using ts_equals_iff [of s a] * wf by simp
  then show ?thesis by (simp add: is_contained_in_def s)
qed

section \<open>The order of selectors\<close>

definition ts_key :: "traffic_selector \<Rightarrow> int list" where
  "ts_key ts = [ts_type ts, int (from_val ts), - int (to_val ts), uint (protocol ts),
                uint (from_port ts), - uint (to_port ts)]"

definition key_less :: "(int \<times> int) set" where
  "key_less = {(x, y). x < y}"

lemma first_nonzero_sign:
  assumes "list_all2 (\<lambda>d (x, y). (d < 0 \<longleftrightarrow> x < y) \<and> (d > 0 \<longleftrightarrow> y < x)) ds (zip xs ys)"
    "length xs = length ys"
  shows "(first_nonzero ds < 0 \<longleftrightarrow> (xs, ys) \<in> lexord key_less) \<and>
    (first_nonzero ds > 0 \<longleftrightarrow> (ys, xs) \<in> lexord key_less)"
  using assms(2,1)
proof (induction xs ys arbitrary: ds rule: list_induct2)
  case (Cons x xs y ys)
  then obtain d es where "ds = d # es" by (cases ds) auto
  then show ?case using Cons by (cases "d = 0") (auto simp: key_less_def not_less)
qed simp

lemma cmp_sign:
  assumes wf: "ts_wf a" "ts_wf b"
  shows "(traffic_selector_cmp a b < 0 \<longleftrightarrow> (ts_key a, ts_key b) \<in> lexord key_less) \<and>
    (traffic_selector_cmp a b > 0 \<longleftrightarrow> (ts_key b, ts_key a) \<in> lexord key_less)"
proof (cases "ts_type a = ts_type b")
  case True
  let ?n = "addr_size (ts_type a)"
  let ?ds = "[ts_type a - ts_type b, memcmp (take ?n (ts_from a)) (take ?n (ts_from b)),
    memcmp (take ?n (ts_to b)) (take ?n (ts_to a)), uint (protocol a) - uint (protocol b),
    uint (from_port a) - uint (from_port b), uint (to_port b) - uint (to_port a)]"
  have len: "length (take ?n (ts_from a)) = length (take ?n (ts_from b))"
    "length (take ?n (ts_to b)) = length (take ?n (ts_to a))"
    using wf by (simp_all add: ts_wf_def)
  have "list_all2 (\<lambda>d (x, y). (d < 0 \<longleftrightarrow> x < y) \<and> (d > 0 \<longleftrightarrow> y < x)) ?ds (zip (ts_key a) (ts_key b))"
    unfolding ts_key_def from_val_def to_val_def
    by (simp add: memcmp_less [OF len(1)] memcmp_less [OF len(2)] memcmp_greater [OF len(1)]
        memcmp_greater [OF len(2)] True [symmetric])
  then have "(first_nonzero ?ds < 0 \<longleftrightarrow> (ts_key a, ts_key b) \<in> lexord key_less) \<and>
      (first_nonzero ?ds > 0 \<longleftrightarrow> (ts_key b, ts_key a) \<in> lexord key_less)"
    by (rule first_nonzero_sign) (simp add: ts_key_def)
  moreover have "traffic_selector_cmp a b = first_nonzero ?ds"
    using wf(1) True by (auto simp: traffic_selector_cmp_def compare_int_def ts_wf_def Let_def)
  ultimately show ?thesis by simp
qed (auto simp: traffic_selector_cmp_def compare_int_def Let_def ts_key_def key_less_def)


section \<open>Subnets\<close>

lemma word_mask: "(if n \<noteq> 0 then push_bit n 1 - 1 else 0) = (mask n :: u8)"
  by (simp add: mask_eq_exp_minus_1 push_bit_eq_mult)

text \<open>The two addresses \<^const>\<open>calc_range\<close> stores, bit by bit.\<close>

definition range_from :: "nat \<Rightarrow> nat \<Rightarrow> bytes \<Rightarrow> bytes" where
  "range_from len nb a =
     (let bytes = (nb + 7) div 8; f = take bytes a @ replicate (len - bytes) 0
      in if bytes = 0 then f else f[bytes - 1 := f ! (bytes - 1) AND NOT (mask (bytes * 8 - nb))])"

definition range_to :: "nat \<Rightarrow> nat \<Rightarrow> bytes \<Rightarrow> bytes" where
  "range_to len nb a =
     (let bytes = (nb + 7) div 8; f = take bytes a @ replicate (len - bytes) 0xff
      in if bytes = 0 then f else f[bytes - 1 := f ! (bytes - 1) OR mask (bytes * 8 - nb)])"

lemma bytes_le: "nb \<le> 8 * len \<Longrightarrow> (nb + 7) div 8 \<le> (len :: nat)"
  by linarith

lemma length_range [simp, length_simps]:
  assumes "nb \<le> 8 * len" "length a = len"
  shows "length (range_from len nb a) = len" "length (range_to len nb a) = len"
  using assms bytes_le [OF assms(1)] by (simp_all add: range_from_def range_to_def Let_def)

lemma byte_position:
  fixes k nb :: nat
  assumes "nb > 0"
  shows "k div 8 < (nb + 7) div 8 - 1 \<Longrightarrow> k < nb"
    "k div 8 = (nb + 7) div 8 - 1 \<Longrightarrow> (nb + 7) div 8 * 8 - nb \<le> 7 - k mod 8 \<longleftrightarrow> k < nb"
    "k div 8 \<ge> (nb + 7) div 8 \<Longrightarrow> \<not> k < nb"
proof -
  define q i j where "q = (nb + 7) div 8" and "i = k div 8" and "j = k mod 8"
  have "nb \<le> 8 * q" "8 * q \<le> nb + 7" "q > 0" using assms by (auto simp: q_def)
  moreover have "k = 8 * i + j" "j < 8" by (simp_all add: i_def j_def)
  ultimately have "i < q - 1 \<Longrightarrow> k < nb" "i = q - 1 \<Longrightarrow> q * 8 - nb \<le> 7 - j \<longleftrightarrow> k < nb"
    "i \<ge> q \<Longrightarrow> \<not> k < nb"
    by linarith+
  then show "k div 8 < (nb + 7) div 8 - 1 \<Longrightarrow> k < nb"
    "k div 8 = (nb + 7) div 8 - 1 \<Longrightarrow> (nb + 7) div 8 * 8 - nb \<le> 7 - k mod 8 \<longleftrightarrow> k < nb"
    "k div 8 \<ge> (nb + 7) div 8 \<Longrightarrow> \<not> k < nb"
    by (simp_all add: q_def i_def j_def)
qed

lemma nth_range:
  assumes "nb \<le> 8 * len" "length a = len" "i < len"
  defines "bytes \<equiv> (nb + 7) div 8"
  shows "range_from len nb a ! i =
      (if i \<ge> bytes then 0 else if i = bytes - 1 then a ! i AND NOT (mask (bytes * 8 - nb)) else a ! i)"
    "range_to len nb a ! i =
      (if i \<ge> bytes then 0xff else if i = bytes - 1 then a ! i OR mask (bytes * 8 - nb) else a ! i)"
  using assms bytes_le [OF assms(1)]
  by (auto simp: range_from_def range_to_def Let_def nth_append nth_list_update)

lemma bit_range:
  assumes "nb \<le> 8 * len" "length a = len" "k < 8 * len"
  shows "addr_bits (range_from len nb a) ! k \<longleftrightarrow> k < nb \<and> addr_bits a ! k"
    "addr_bits (range_to len nb a) ! k \<longleftrightarrow> (k < nb \<longrightarrow> addr_bits a ! k)"
proof -
  define q i j where "q = (nb + 7) div 8" and "i = k div 8" and "j = 7 - k mod 8"
  have i: "i < len" "j < 8" using assms(3) by (auto simp: i_def j_def)
  have bits: "addr_bits (range_from len nb a) ! k = bit (range_from len nb a ! i) j"
    "addr_bits (range_to len nb a) ! k = bit (range_to len nb a ! i) j"
    "addr_bits a ! k = bit (a ! i) j"
    using assms by (simp_all add: nth_addr_bits i_def j_def)
  note nth = nth_range [OF assms(1,2) i(1), folded q_def]
  note pos = byte_position [of nb k, folded q_def i_def j_def]
  have q0: "q = 0 \<longleftrightarrow> nb = 0" by (auto simp: q_def)
  consider "i \<ge> q" | "i < q" "i < q - 1" | "i < q" "i = q - 1" by linarith
  then have "(bit (range_from len nb a ! i) j \<longleftrightarrow> k < nb \<and> bit (a ! i) j) \<and>
      (bit (range_to len nb a ! i) j \<longleftrightarrow> (k < nb \<longrightarrow> bit (a ! i) j))"
  proof cases
    case 1
    then have "\<not> k < nb" using pos(3) by (cases "nb = 0") auto
    then show ?thesis using 1 nth i(2) by (simp add: bit_ff)
  next
    case 2
    then have "k < nb" using pos(1) q0 by (cases "nb = 0") auto
    then show ?thesis using 2 nth by simp
  next
    case 3
    then have "q * 8 - nb \<le> j \<longleftrightarrow> k < nb" using pos(2) q0 by (cases "nb = 0") auto
    then show ?thesis
      using 3 nth i(2) by (auto simp: bit_and_iff bit_or_iff bit_not_iff bit_mask_iff)
  qed
  then show "addr_bits (range_from len nb a) ! k \<longleftrightarrow> k < nb \<and> addr_bits a ! k"
    "addr_bits (range_to len nb a) ! k \<longleftrightarrow> (k < nb \<longrightarrow> addr_bits a ! k)"
    by (simp_all only: bits)
qed

lemma addr_bits_range:
  assumes "nb \<le> 8 * len" "length a = len"
  shows "addr_bits (range_from len nb a) = take nb (addr_bits a) @ replicate (8 * len - nb) False"
    "addr_bits (range_to len nb a) = take nb (addr_bits a) @ replicate (8 * len - nb) True"
proof -
  have len: "length (take nb (addr_bits a)) = nb" using assms by simp
  have fill: "(take nb (addr_bits a) @ replicate (8 * len - nb) x) ! k =
      (if k < nb then addr_bits a ! k else x)" if "k < 8 * len" for k x
    using that len by (simp add: nth_append)
  show "addr_bits (range_from len nb a) = take nb (addr_bits a) @ replicate (8 * len - nb) False"
    using assms len by (intro nth_equalityI) (simp_all add: bit_range fill)
  show "addr_bits (range_to len nb a) = take nb (addr_bits a) @ replicate (8 * len - nb) True"
    using assms len by (intro nth_equalityI) (simp_all add: bit_range fill)
qed

lemma calc_range_eq:
  assumes "length (ts_from ts) = 16" "length (ts_to ts) = 16"
    "unat nb \<le> 8 * addr_size (ts_type ts)"
  defines "n \<equiv> addr_size (ts_type ts)"
  shows "\<exists>f t. calc_range ts nb = Some (ts\<lparr>netbits := nb, ts_from := f, ts_to := t\<rparr>) \<and>
    take n f = range_from n (unat nb) (take n (ts_from ts)) \<and>
    take n t = range_to n (unat nb) (take n (ts_from ts)) \<and> length f = 16 \<and> length t = 16"
proof -
  define m where "m = (unat nb + 7) div 8"
  have n: "n \<le> 16" "m \<le> n"
    using addr_size_le bytes_le assms(3) by (auto simp: n_def m_def)
  define f0 t0 where "f0 = take m (ts_from ts) @ replicate (n - m) 0x00 @ drop n (ts_from ts)"
    and "t0 = take m (ts_from ts) @ replicate (n - m) 0xff @ drop n (ts_to ts)"
  define f t where "f = (if m = 0 then f0 else f0[m - 1 := f0 ! (m - 1) AND NOT (mask (m * 8 - unat nb))])"
    and "t = (if m = 0 then t0 else t0[m - 1 := t0 ! (m - 1) OR mask (m * 8 - unat nb)])"
  have to: "copy_to (ts_to ts) (take m (ts_from ts)) = take m (ts_from ts) @ drop m (ts_to ts)"
    using n assms(1) by (simp add: copy_to_def)
  then have t0: "take m (copy_to (ts_to ts) (take m (ts_from ts))) @ replicate (n - m) 0xff @
      drop n (copy_to (ts_to ts) (take m (ts_from ts))) = t0"
    using n assms(1) by (simp add: t0_def)
  have "calc_range ts nb = Some (ts\<lparr>netbits := nb, ts_from := f, ts_to := t\<rparr>)"
    using n(2) unfolding calc_range_def Let_def n_def [symmetric] m_def [symmetric] word_mask t0
      f0_def [symmetric] by (simp add: f_def t_def)
  moreover have take: "take n f0 = take m (take n (ts_from ts)) @ replicate (n - m) 0"
    "take n t0 = take m (take n (ts_from ts)) @ replicate (n - m) 0xff"
    and len: "length f0 = 16" "length t0 = 16"
    using n assms(1,2) by (auto simp: f0_def t0_def min_def)
  have "m \<noteq> 0 \<Longrightarrow> take n f0 ! (m - 1) = f0 ! (m - 1)" "m \<noteq> 0 \<Longrightarrow> take n t0 ! (m - 1) = t0 ! (m - 1)"
    using n(2) by simp_all
  then have "take n f = range_from n (unat nb) (take n (ts_from ts))"
    "take n t = range_to n (unat nb) (take n (ts_from ts))"
    unfolding range_from_def range_to_def Let_def m_def [symmetric] take [symmetric]
    by (simp_all add: f_def t_def take_update_swap)
  moreover have "length f = 16" "length t = 16" using len by (simp_all add: f_def t_def)
  ultimately show ?thesis by blast
qed

lemma range_bits:
  assumes "ts_wf ts" "nb \<le> 8 * addr_size (ts_type ts)"
    "take (addr_size (ts_type ts)) (ts_from ts) = range_from (addr_size (ts_type ts)) nb a"
    "take (addr_size (ts_type ts)) (ts_to ts) = range_to (addr_size (ts_type ts)) nb a"
    "length a = addr_size (ts_type ts)"
  shows "is_subnet ts (take nb (addr_bits a))"
  unfolding is_subnet_def from_bits_def to_bits_def assms(3,4) addr_bits_range [OF assms(2,5)]
  by blast

lemma length_get_address: "host_wf h \<Longrightarrow> length (get_address h) = (if get_family h = AF_INET then 4 else 16)"
  by (auto simp: host_wf_def get_address_def get_family_def split: family.splits)

text \<open>The number of bits the constructor uses for a network.\<close>

definition clamp_bits :: "host \<Rightarrow> u8 \<Rightarrow> u8" where
  "clamp_bits net nb = min nb (if get_family net = AF_INET then 32 else 128)"

lemma unat_clamp: "unat (clamp_bits net nb) \<le> (if get_family net = AF_INET then 32 else 128)"
proof -
  have "clamp_bits net nb \<le> (if get_family net = AF_INET then 32 else 128)"
    by (simp add: clamp_bits_def)
  then show ?thesis by (auto simp: word_le_nat_alt split: if_splits)
qed

lemma create_from_subnet_some:
  assumes "host_wf net"
  shows "\<exists>ts. traffic_selector_create_from_subnet net nb proto fport tport = Some (Some ts) \<and>
    ts_wf ts \<and> \<not> dynamic ts \<and> netbits ts = clamp_bits net nb \<and>
    same_family net ts \<and>
    is_subnet ts (take (unat (clamp_bits net nb)) (addr_bits (get_address net))) \<and>
    from_port ts = from_port (traffic_selector_create proto 0 fport tport) \<and>
    to_port ts = to_port (traffic_selector_create proto 0 fport tport) \<and> protocol ts = proto"
proof -
  define t where "t = (if get_family net = AF_INET then TS_IPV4_ADDR_RANGE else TS_IPV6_ADDR_RANGE)"
  let ?c = "traffic_selector_create proto 0 fport tport"
  let ?ts = "?c\<lparr>ts_type := t, ts_from := copy_to (ts_from ?c) (get_address net)\<rparr>"
  have fam: "get_family net = AF_INET \<or> get_family net = AF_INET6" by (rule host_wf_family [OF assms])
  have create: "traffic_selector_create_from_subnet net nb proto fport tport =
      map_option Some (calc_range ?ts (clamp_bits net nb))"
    using fam by (auto simp: traffic_selector_create_from_subnet_def clamp_bits_def t_def Let_def)
  have nb: "unat (clamp_bits net nb) \<le> 8 * addr_size t"
    using unat_clamp [of net nb] by (auto simp: t_def split: if_splits)
  have len: "length (get_address net) = addr_size t"
    using length_get_address [OF assms] by (simp add: t_def)
  have lens: "length (ts_from ?ts) = 16" "length (ts_to ?ts) = 16"
    using len addr_size_le [of t] by (simp_all add: traffic_selector_create_def Let_def length_copy_to)
  have a: "take (addr_size t) (ts_from ?ts) = get_address net"
    using len by (simp add: copy_to_def)
  obtain f u where r: "calc_range ?ts (clamp_bits net nb) =
      Some (?ts\<lparr>netbits := clamp_bits net nb, ts_from := f, ts_to := u\<rparr>)"
    and f: "take (addr_size t) f = range_from (addr_size t) (unat (clamp_bits net nb)) (get_address net)"
    and u: "take (addr_size t) u = range_to (addr_size t) (unat (clamp_bits net nb)) (get_address net)"
    and l: "length f = 16" "length u = 16"
    using calc_range_eq [OF lens, of "clamp_bits net nb"] nb a by (auto simp: copy_to_def len)
  let ?r = "?ts\<lparr>netbits := clamp_bits net nb, ts_from := f, ts_to := u\<rparr>"
  have wf: "ts_wf ?r" using l by (simp add: ts_wf_def t_def)
  have "is_subnet ?r (take (unat (clamp_bits net nb)) (addr_bits (get_address net)))"
    using f u nb len by (intro range_bits wf) simp_all
  moreover have "same_family net ?r" using fam by (auto simp: same_family_def t_def)
  moreover have "\<not> dynamic ?c" "protocol ?c = proto"
    by (simp_all add: traffic_selector_create_def Let_def)
  ultimately show ?thesis using wf
    by (intro exI [of _ ?r]) (simp add: create r)
qed

lemma includes_range:
  assumes "ts_wf ts" "host_wf h"
  shows "ts_includes ts h \<longleftrightarrow> same_family h ts \<and> addr_range ts (get_address h)"
proof -
  have "length (get_address h) = addr_size (ts_type ts)" if "same_family h ts"
    using length_get_address [OF assms(2)] that by (auto simp: same_family_def)
  then show ?thesis
    using assms(1) addr_size_le [of "ts_type ts"]
    by (auto simp: ts_includes_def addr_range_def ts_wf_def memcmp_le memcmp_ge Let_def)
qed

lemma subnet_range:
  assumes "ts_wf ts" "is_subnet ts p" "length a = addr_size (ts_type ts)"
  shows "addr_range ts a \<longleftrightarrow> take (length p) (addr_bits a) = p"
proof -
  obtain n where bits: "from_bits ts = p @ replicate n False" "to_bits ts = p @ replicate n True"
    using assms(2) by (auto simp: is_subnet_def)
  have "length p + n = 8 * addr_size (ts_type ts)"
    using length_from_to_bits(1) [OF assms(1)] by (simp add: bits)
  then have "length (addr_bits a) = length p + n" using assms(3) by simp
  from between_prefix [OF this] show ?thesis
    using assms(3) addr_range_val [OF assms(1), of a]
    by (simp add: from_val_def to_val_def addr_val_def from_bits_def [symmetric] to_bits_def [symmetric]
        bits)
qed

lemma push_bit_ff: "push_bit n (0xff :: u8) = NOT (mask n)"
  by (rule bit_word_eqI) (auto simp: bit_simps bit_ff)

lemma to_subnet_eq:
  assumes wf: "ts_wf ts" and nb: "netbits ts \<noteq> NON_SUBNET_ADDRESS_RANGE"
    "unat (netbits ts) \<le> 8 * addr_size (ts_type ts)"
  defines "n \<equiv> addr_size (ts_type ts)"
  shows "to_subnet ts = Some (True,
    host_create_from_chunk (if ts_type ts = TS_IPV4_ADDR_RANGE then AF_INET else AF_INET6)
      (range_from n (unat (netbits ts)) (take n (ts_from ts)))
      (if to_port ts = from_port ts then to_port ts else 0), netbits ts, ts)"
proof -
  define m where "m = (unat (netbits ts) + 7) div 8"
  have n: "n \<le> 16" "m \<le> n" using addr_size_le bytes_le nb(2) by (auto simp: n_def m_def)
  have len: "length (ts_from ts) = 16" using wf by (simp add: ts_wf_def)
  have z: "netbits ts = 0 \<longleftrightarrow> m = 0" by (auto simp: m_def word_unat_eq_iff)
  have st: "store (replicate n 0) 0 (take m (ts_from ts)) =
      Some (take m (take n (ts_from ts)) @ replicate (n - m) 0)"
    using n len by (simp add: min_def)
  have shift: "8 * m - unat (netbits ts) = m * 8 - unat (netbits ts)" by simp
  have "ts_type ts = TS_IPV4_ADDR_RANGE \<or> ts_type ts = TS_IPV6_ADDR_RANGE"
    using wf by (simp add: ts_wf_def)
  then show ?thesis
    using n z
    by (simp only: to_subnet_def Let_def nb(1) if_False prod.case, unfold range_from_def Let_def
        n_def [symmetric] m_def [symmetric], auto simp: st push_bit_ff shift)
qed

lemma and_not_mask:
  assumes "(x :: u8) AND mask n = 0"
  shows "x AND NOT (mask n) = x"
proof (rule bit_word_eqI)
  fix k assume "k < LENGTH(8)"
  moreover have "\<not> bit (x AND mask n) k" by (simp add: assms)
  ultimately show "bit (x AND NOT (mask n)) k = bit x k" by (auto simp: bit_simps)
qed

lemma rfc3779_addresses:
  assumes bs: "bs \<noteq> []" "length bs \<le> n" and u: "unat (u :: u8) \<le> 7" "last bs AND mask (unat u) = 0"
  defines "nb \<equiv> 8 * length bs - unat u"
  shows "bs @ replicate (n - length bs) 0 = range_from n nb (bs @ replicate (n - length bs) 0)"
    "(bs[length bs - 1 := last bs OR mask (unat u)]) @ replicate (n - length bs) 0xff =
       range_to n nb (bs @ replicate (n - length bs) 0)"
proof -
  have pos: "length bs > 0" using bs by simp
  have m: "(nb + 7) div 8 = length bs" "length bs * 8 - nb = unat u" "nb \<le> 8 * n"
    using pos u(1) bs(2) unfolding nb_def by linarith+
  have last: "bs ! (length bs - 1) = last bs" using bs by (simp add: last_conv_nth)
  have "last bs AND NOT (mask (unat u)) = last bs" using u(2) by (rule and_not_mask)
  then show "bs @ replicate (n - length bs) 0 = range_from n nb (bs @ replicate (n - length bs) 0)"
    using pos last unfolding range_from_def Let_def m
    by (simp add: nth_append list_update_append) (metis list_update_id last One_nat_def)
  show "(bs[length bs - 1 := last bs OR mask (unat u)]) @ replicate (n - length bs) 0xff =
       range_to n nb (bs @ replicate (n - length bs) 0)"
    using pos last unfolding range_to_def Let_def m
    by (simp add: nth_append list_update_append)
qed

text \<open>The end of the range: the unused bits are set in the last byte.\<close>

definition set_unused :: "u8 \<Rightarrow> bytes \<Rightarrow> bytes" where
  "set_unused u bs = (if bs = [] then [] else bs[length bs - 1 := last bs OR mask (unat u)])"

lemma length_set_unused [simp, length_simps]: "length (set_unused u bs) = length bs"
  by (simp add: set_unused_def)

lemma rfc3779_stores:
  assumes type: "type = TS_IPV4_ADDR_RANGE \<or> type = TS_IPV6_ADDR_RANGE"
    and len: "length bs \<le> addr_size type" and u: "unat u \<le> 7"
  defines "n \<equiv> addr_size type" and "c \<equiv> traffic_selector_create 0 type 0 65535"
  shows "traffic_selector_create_from_rfc3779_format type (u # bs) (u # bs) =
    Some (Some (snd (calc_netbits (c
      \<lparr>ts_from := bs @ replicate (n - length bs) 0 @ replicate (16 - n) 0,
       ts_to := set_unused u bs @ replicate (n - length bs) 0xff @ replicate (16 - n) 0\<rparr>))))"
proof -
  have n: "n \<le> 16" using addr_size_le by (simp add: n_def)
  have known: "(type \<noteq> TS_IPV4_ADDR_RANGE \<and> type \<noteq> TS_IPV6_ADDR_RANGE) = False" using type by simp
  have m: "(if u \<noteq> 0 then push_bit (unat u) 1 - 1 else 0) = (mask (unat u) :: u8)"
    using word_mask [of "unat u"] by (auto simp: word_unat_eq_iff)
  have cf: "copy_to (ts_from c) (replicate n 0) = replicate 16 0"
    "copy_to (ts_to c) (replicate n 0xff) = replicate n 0xff @ replicate (16 - n) 0"
    using n by (simp_all add: c_def traffic_selector_create_def Let_def copy_to_def flip: replicate_add)
  note defs = traffic_selector_create_from_rfc3779_format_def Let_def n_def [symmetric]
    c_def [symmetric] cf known if_False if_True list.sel
  show ?thesis
  proof (cases "bs = []")
    case True
    have "(length [u] > 1) = False" "replicate 16 0 = replicate n 0 @ replicate (16 - n) (0 :: u8)"
      using n by (simp_all flip: replicate_add)
    then show ?thesis
      unfolding True by (simp only: defs Option.bind_lunit) (simp add: set_unused_def)
  next
    case False
    let ?z = "replicate (n - length bs) 0xff @ replicate (16 - n) 0"
    have st: "store (replicate 16 0) 0 bs =
        Some (bs @ replicate (n - length bs) 0 @ replicate (16 - n) 0)"
      "store (replicate n 0xff @ replicate (16 - n) 0) 0 bs = Some (bs @ ?z)"
      using len n by (simp_all add: n_def flip: replicate_add)
    have upd: "(bs @ ?z)[length bs - 1 := (bs @ ?z) ! (length bs - 1) OR mask (unat u)] =
        set_unused u bs @ ?z"
      using False by (simp add: set_unused_def nth_append list_update_append last_conv_nth)
    have idx: "length (u # bs) - 2 = length bs - 1" "(length (u # bs) > 1) = True"
      "(31 \<le> unat u) = False"
      using False u by simp_all
    show ?thesis by (simp only: defs idx st m Option.bind_lunit upd)
  qed
qed

lemma rfc3779_prefix:
  assumes chk: "check_address_object type (u # bs)"
    and unused: "bs \<noteq> [] \<Longrightarrow> last bs AND mask (unat u) = 0"
  shows "\<exists>ts. traffic_selector_create_from_rfc3779_format type (u # bs) (u # bs) = Some (Some ts) \<and>
    ts_wf ts \<and> \<not> dynamic ts \<and> protocol ts = 0 \<and> is_any ts \<and>
    is_subnet ts (take (8 * length bs - unat u) (addr_bits bs))"
proof -
  let ?n = "addr_size type" and ?c = "traffic_selector_create 0 type 0 65535"
  let ?nb = "8 * length bs - unat u" and ?a = "bs @ replicate (addr_size type - length bs) 0"
  have type: "type = TS_IPV4_ADDR_RANGE \<or> type = TS_IPV6_ADDR_RANGE"
    and len: "length bs \<le> ?n" and u: "unat u \<le> 7"
    using chk by (auto simp: check_address_object_def not_less word_le_nat_alt split: if_splits)
  define ts where "ts = snd (calc_netbits (?c
      \<lparr>ts_from := bs @ replicate (?n - length bs) 0 @ replicate (16 - ?n) 0,
       ts_to := set_unused u bs @ replicate (?n - length bs) 0xff @ replicate (16 - ?n) 0\<rparr>))"
  have create: "traffic_selector_create_from_rfc3779_format type (u # bs) (u # bs) = Some (Some ts)"
    unfolding ts_def by (rule rfc3779_stores [OF type len u])
  have wf: "ts_wf ts" using type len addr_size_le [of type]
    by (auto simp: ts_wf_def ts_def traffic_selector_create_def Let_def)
  have fields: "ts_type ts = type" "\<not> dynamic ts" "protocol ts = 0" "is_any ts"
    by (simp_all add: ts_def is_any_def traffic_selector_create_def Let_def IPPROTO_ICMP_def
        IPPROTO_ICMPV6_def)
  have "take ?n (ts_from ts) = bs @ replicate (?n - length bs) 0"
    "take ?n (ts_to ts) = set_unused u bs @ replicate (?n - length bs) 0xff"
    using len by (simp_all add: ts_def)
  moreover have "range_from ?n ?nb ?a = bs @ replicate (?n - length bs) 0"
    "range_to ?n ?nb ?a = set_unused u bs @ replicate (?n - length bs) 0xff"
    using rfc3779_addresses [OF _ len u unused, symmetric]
    by (cases "bs = []"; simp add: set_unused_def range_from_def range_to_def)+
  ultimately have "take ?n (ts_from ts) = range_from ?n ?nb ?a"
    "take ?n (ts_to ts) = range_to ?n ?nb ?a" by simp_all
  then have "is_subnet ts (take ?nb (addr_bits ?a))"
    using range_bits [OF wf, of ?nb ?a] len fields(1) by simp
  moreover have "take ?nb (addr_bits ?a) = take ?nb (addr_bits bs)" by (simp add: addr_bits_append)
  ultimately have "is_subnet ts (take ?nb (addr_bits bs))" by simp
  then show ?thesis using create wf fields by blast
qed


section \<open>Properties\<close>


text \<open>The selectors of the witnesses: 10.0.0.0-10.0.0.255 for TCP, 10.0.0.128-10.1.0.0 port 443.\<close>

definition wit_a :: traffic_selector where
  "wit_a = \<lparr>ts_type = TS_IPV4_ADDR_RANGE, protocol = 6, dynamic = False, netbits = 24,
            ts_from = [10, 0, 0, 0] @ replicate 12 0, ts_to = [10, 0, 0, 255] @ replicate 12 0,
            from_port = 0, to_port = 0xffff\<rparr>"

definition wit_b :: traffic_selector where
  "wit_b = \<lparr>ts_type = TS_IPV4_ADDR_RANGE, protocol = 0, dynamic = False, netbits = 255,
            ts_from = [10, 0, 0, 128] @ replicate 12 0, ts_to = [10, 1, 0, 0] @ replicate 12 0,
            from_port = 443, to_port = 443\<rparr>"

lemma wit_facts: "ts_wf wit_a" "ts_wf wit_b" "\<not> dynamic wit_a" "\<not> dynamic wit_b"
  "ports_kept (max (protocol wit_a) (protocol wit_b)) wit_a"
  "ports_kept (max (protocol wit_a) (protocol wit_b)) wit_b" "ts_nonempty wit_a" "ts_nonempty wit_b"
  by (simp_all add: wit_a_def wit_b_def ts_wf_def ports_kept_def IPPROTO_ICMP_def IPPROTO_ICMPV6_def
      max_def ts_nonempty_def addr_val_Cons Let_def)




text \<open>
  C21. A selector created from a subnet includes exactly the hosts of the family whose leading
  bits, as many as the prefix length, are those of the network; a prefix length that is too
  long is cut to the length of the address. \<^verbatim>\<open>to_subnet\<close> gives the network, with the
  host bits cleared, and the prefix length back. No step leaves the blocks of the addresses.
\<close>

theorem subnet_roundtrip:
  assumes "host_wf net"
  shows "\<exists>ts. traffic_selector_create_from_subnet net nb proto fport tport = Some (Some ts) \<and>
    (\<forall>h. host_wf h \<longrightarrow>
       (ts_includes ts h \<longleftrightarrow> get_family h = get_family net \<and>
          (let n = unat (clamp_bits net nb)
           in take n (addr_bits (get_address h)) = take n (addr_bits (get_address net))))) \<and>
    (\<exists>h. to_subnet ts = Some (True, Some h, clamp_bits net nb, ts) \<and>
       get_family h = get_family net \<and>
       (let n = unat (clamp_bits net nb); bits = addr_bits (get_address net)
        in addr_bits (get_address h) = take n bits @ replicate (length bits - n) False))"
proof -
  let ?nb = "clamp_bits net nb" and ?p = "take (unat (clamp_bits net nb)) (addr_bits (get_address net))"
  obtain ts where create: "traffic_selector_create_from_subnet net nb proto fport tport = Some (Some ts)"
    and wf: "ts_wf ts" and nbits: "netbits ts = ?nb" and fam: "same_family net ts"
    and sub: "is_subnet ts ?p"
    using create_from_subnet_some [OF assms] by blast
  let ?n = "addr_size (ts_type ts)"
  have len: "length (get_address net) = ?n"
    using length_get_address [OF assms] fam by (auto simp: same_family_def)
  have le: "unat ?nb \<le> 8 * ?n" using unat_clamp [of net nb] fam by (auto simp: same_family_def)
  have lenp: "length ?p = unat ?nb" using le len by simp
  have inc: "ts_includes ts h \<longleftrightarrow> get_family h = get_family net \<and>
      take (unat ?nb) (addr_bits (get_address h)) = ?p" if "host_wf h" for h
  proof -
    have "same_family h ts \<longleftrightarrow> get_family h = get_family net"
      using fam host_wf_family [OF that] by (auto simp: same_family_def)
    moreover have "length (get_address h) = ?n" if "get_family h = get_family net"
      using length_get_address [OF \<open>host_wf h\<close>] length_get_address [OF assms] len that by simp
    ultimately show ?thesis
      using includes_range [OF wf that] subnet_range [OF wf sub, of "get_address h"] lenp by auto
  qed
  let ?a = "range_from ?n (unat ?nb) (take ?n (ts_from ts))"
  have "?nb \<noteq> NON_SUBNET_ADDRESS_RANGE"
    using unat_clamp [of net nb] by (auto simp: NON_SUBNET_ADDRESS_RANGE_def split: if_splits)
  moreover have lent: "length (take ?n (ts_from ts)) = ?n"
    using wf addr_size_le [of "ts_type ts"] by (simp add: ts_wf_def)
  then have "length ?a = ?n" using le by simp
  then obtain h where h: "to_subnet ts = Some (True, Some h, ?nb, ts)"
    "get_family h = get_family net" "get_address h = ?a"
    using to_subnet_eq [OF wf] nbits le fam calculation
    by (auto simp: same_family_def host_create_from_chunk_def get_family_def get_address_def)
  obtain m where "from_bits ts = ?p @ replicate m False" using sub by (auto simp: is_subnet_def)
  then have "take (unat ?nb) (addr_bits (take ?n (ts_from ts))) = ?p"
    using lenp by (simp add: from_bits_def)
  then have "addr_bits ?a = ?p @ replicate (length (addr_bits (get_address net)) - unat ?nb) False"
    using addr_bits_range(1) [OF le lent] len by simp
  then show ?thesis using create inc h by (auto simp: Let_def)
qed

theorem subnet_roundtrip_witness:
  "\<exists>ts h. traffic_selector_create_from_subnet
       \<lparr>sa_family = AF_INET, sin_addr = [10, 1, 2, 3], sin_port = [0, 0], socklen = 16\<rparr> 20 0 0 0xffff =
       Some (Some ts) \<and>
     to_subnet ts = Some (True, Some h, 20, ts)"
proof -
  let ?net = "\<lparr>sa_family = AF_INET, sin_addr = [10, 1, 2, 3], sin_port = [0, 0], socklen = 16\<rparr>"
  have "host_wf ?net" by (simp add: host_wf_def)
  moreover have "clamp_bits ?net 20 = 20" by (simp add: clamp_bits_def get_family_def)
  ultimately show ?thesis using subnet_roundtrip [of ?net 20 0 0 "0xffff"] by fastforce
qed

text \<open>
  C22. \<^verbatim>\<open>calc_netbits\<close> recognises exactly the subnets among the address ranges: for a
  range that is one it returns and stores the length of its prefix, for any other range it
  stores the marker for ranges that are no subnets and returns the number of leading bits the
  two ends have in common.
\<close>

theorem calc_netbits_exact:
  assumes "ts_wf ts" "bits_val (from_bits ts) \<le> bits_val (to_bits ts)"
  shows "(\<forall>p. is_subnet ts p \<longrightarrow> calc_netbits ts = (of_nat (length p), ts\<lparr>netbits := of_nat (length p)\<rparr>)) \<and>
    ((\<nexists>p. is_subnet ts p) \<longrightarrow>
      (\<exists>p x F T. from_bits ts = p @ x # F \<and> to_bits ts = p @ (\<not> x) # T \<and>
         calc_netbits ts = (of_nat (length p), ts\<lparr>netbits := NON_SUBNET_ADDRESS_RANGE\<rparr>)))"
  using calc_netbits_subnet [OF assms(1)] calc_netbits_no_subnet [OF assms(1) _ assms(2)] by simp

theorem calc_netbits_exact_witness:
  "bits_val (from_bits wit_a) \<le> bits_val (to_bits wit_a) \<and>
   calc_netbits wit_a = (24, wit_a\<lparr>netbits := 24\<rparr>)"
proof -
  have le: "bits_val (from_bits wit_a) \<le> bits_val (to_bits wit_a)"
    using wit_facts(7) by (simp add: nonempty_val from_val_def to_val_def from_bits_def to_bits_def addr_val_def)
  have "from_bits wit_a = take 24 (from_bits wit_a) @ replicate 8 False"
    "to_bits wit_a = take 24 (from_bits wit_a) @ replicate 8 True"
    "length (take 24 (from_bits wit_a)) = 24"
    by code_simp+
  then have "is_subnet wit_a (take 24 (from_bits wit_a))" unfolding is_subnet_def by blast
  then have "calc_netbits wit_a = (of_nat 24, wit_a\<lparr>netbits := of_nat 24\<rparr>)"
    using calc_netbits_exact [OF wit_facts(1) le] \<open>length (take 24 (from_bits wit_a)) = 24\<close> by metis
  then show ?thesis using le by simp
qed

text \<open>
  C23. The comparison used to sort selectors is a total order: its sign compares type,
  beginning, end (larger ranges first), protocol, first port and last port (larger first)
  lexicographically, so it is zero exactly for selectors that agree in all of them.
\<close>

theorem traffic_selector_cmp_order:
  assumes "ts_wf a" "ts_wf b"
  shows "(traffic_selector_cmp a b < 0 \<longleftrightarrow> (ts_key a, ts_key b) \<in> lexord key_less) \<and>
    (traffic_selector_cmp a b > 0 \<longleftrightarrow> (ts_key b, ts_key a) \<in> lexord key_less) \<and>
    (traffic_selector_cmp a b = 0 \<longleftrightarrow> ts_key a = ts_key b)"
proof -
  have "ts_key a = ts_key b \<longleftrightarrow> ts_equals a b"
    unfolding ts_equals_iff [OF assms] ts_key_def by (simp add: word_uint_eq_iff)
  then show ?thesis using cmp_sign [OF assms] unfolding ts_equals_def by blast
qed

theorem traffic_selector_cmp_order_witness:
  "traffic_selector_cmp wit_a wit_b < 0 \<and> (ts_key wit_a, ts_key wit_b) \<in> lexord key_less"
proof -
  have "traffic_selector_cmp wit_a wit_b < 0" by code_simp
  then show ?thesis using traffic_selector_cmp_order [OF wit_facts(1,2)] by simp
qed



text \<open>
  C27. The shift of small ICMP types in the generic constructor also applies to the ports
  \<^verbatim>\<open>get_subset\<close> has computed: intersecting ports 1 to 200 of any protocol with ICMP
  gives a selector for the types 256 to 51200, which matches packets the first selector
  does not match.
\<close>

theorem icmp_subset_escapes:
  "\<exists>s pk. get_subset (wit_b\<lparr>from_port := 1, to_port := 200\<rparr>)
       (wit_b\<lparr>protocol := IPPROTO_ICMP, from_port := 0, to_port := 0xffff\<rparr>) = Some s \<and>
     ts_matches s pk \<and> \<not> ts_matches (wit_b\<lparr>from_port := 1, to_port := 200\<rparr>) pk"
proof -
  let ?a = "wit_b\<lparr>from_port := 1, to_port := 200\<rparr>"
    and ?b = "wit_b\<lparr>protocol := IPPROTO_ICMP, from_port := 0, to_port := 0xffff\<rparr>"
  let ?pk = "\<lparr>pk_addr = [10, 0, 0, 200], pk_proto = IPPROTO_ICMP, pk_port = Some 2048\<rparr>"
  let ?s = "wit_b\<lparr>protocol := IPPROTO_ICMP, from_port := 256, to_port := 51200\<rparr>"
  have "get_subset ?a ?b = Some ?s" by code_simp
  moreover have "ts_matches ?s ?pk"
    by (simp add: ts_matches_def wit_b_def addr_range_def port_range_def addr_val_Cons)
  moreover have "\<not> ts_matches ?a ?pk"
    by (simp add: ts_matches_def wit_b_def port_range_def)
  ultimately show ?thesis by blast
qed


section \<open>Deviations\<close>

text \<open>
  C28. A range received with its ends swapped around a bit boundary passes for a subnet: for
  128.0.0.0 to 127.255.255.255, which contains no address, \<^const>\<open>to_subnet\<close> reports the
  true subnet 0.0.0.0/0.
\<close>

theorem inverted_range_is_subnet:
  "\<exists>ts h. traffic_selector_create_from_bytes 0 TS_IPV4_ADDR_RANGE [128, 0, 0, 0] 0 [127, 255, 255, 255] 0xffff =
     Some ts \<and> \<not> (\<exists>pk. ts_matches ts pk) \<and> to_subnet ts = Some (True, Some h, 0, ts) \<and>
     get_address h = [0, 0, 0, 0]"
proof -
  let ?ts = "\<lparr>ts_type = TS_IPV4_ADDR_RANGE, protocol = 0, dynamic = False, netbits = 0,
    ts_from = [128, 0, 0, 0] @ replicate 12 0, ts_to = [127, 255, 255, 255] @ replicate 12 0,
    from_port = 0, to_port = 0xffff\<rparr>"
  let ?h = "\<lparr>sa_family = AF_INET, sin_addr = [0, 0, 0, 0], sin_port = [0, 0], socklen = 16\<rparr>"
  have "traffic_selector_create_from_bytes 0 TS_IPV4_ADDR_RANGE [128, 0, 0, 0] 0
      [127, 255, 255, 255] 0xffff = Some ?ts" by code_simp
  moreover have "to_subnet ?ts = Some (True, Some ?h, 0, ?ts)" by code_simp
  moreover have "get_address ?h = [0, 0, 0, 0]" by (simp add: get_address_def)
  moreover have "\<not> (\<exists>pk. ts_matches ?ts pk)"
  proof -
    have "addr_val [127, 255, 255, 255] < addr_val [128, 0, 0, 0]" by (simp add: addr_val_Cons)
    then show ?thesis by (auto simp: ts_matches_def addr_range_def)
  qed
  ultimately show ?thesis by blast
qed

text \<open>A prefix length of 256 in a configured subnet is cut to eight bits and denotes everything.\<close>

lemma cidr_prefix_wraps:
  "map_option (map_option netbits)
     (traffic_selector_create_from_cidr toy_pton ''10.0.0.1/256'' 0 0 0xffff) = Some (Some 0)"
  by code_simp

end
