(* ===== verification/MemPool.thy ===== *)
theory MemPool
  imports Array Hashtable Host
begin

text \<open>
  In-memory pools of virtual IP addresses, \<^verbatim>\<open>attributes/mem_pool.c\<close> of libcharon. A pool
  keeps a hash table from identities to entries and, for each entry, an array of online and
  an array of offline leases; the definitions run on the models of these two containers. The
  table holds pointers: entries are cells of a store addressed by naturals, so that the changes
  made through a pointer are seen through the table. Identities are a type variable, their
  equality and hash are arguments of the table. The hash of the peer's address is a parameter.
\<close>

section \<open>Definitions\<close>

text \<open>\<^verbatim>\<open>unique_lease_t\<close> and \<^verbatim>\<open>entry_t\<close>.\<close>

record unique_lease =
  ul_offset :: u32
  ul_hash :: u32

record 'id entry =
  en_id :: 'id
  en_online :: "unique_lease array"
  en_offline :: "u32 array"

text \<open>\<^verbatim>\<open>private_mem_pool_t\<close>, with the store of the entries.\<close>

record 'id mem_pool =
  mp_name :: string
  mp_base :: "host option"
  base_is_network_id :: bool
  mp_size :: u32
  mp_unused :: u32
  mp_leases :: "('id, nat) hashtable"
  mp_entries :: "nat \<Rightarrow> 'id entry option"
  mp_next :: nat

datatype mem_pool_op = MEM_POOL_EXISTING | MEM_POOL_NEW | MEM_POOL_REASSIGN

text \<open>\<^verbatim>\<open>chunk_hash_inc\<close>, a keyed hash.\<close>

type_synonym hash_inc = "bytes \<Rightarrow> u32 \<Rightarrow> u32"

definition POOL_LIMIT :: nat where "POOL_LIMIT = 31"

text \<open>Allocation, update and release of an entry in the store.\<close>

definition entry_create :: "'id mem_pool \<Rightarrow> 'id \<Rightarrow> nat \<times> 'id mem_pool" where
  "entry_create pool ident =
     (let e = \<lparr>en_id = ident, en_online = array_create 0, en_offline = array_create 0\<rparr>
      in (mp_next pool, pool\<lparr>mp_entries := (mp_entries pool)(mp_next pool \<mapsto> e),
                             mp_next := mp_next pool + 1\<rparr>))"

definition entry_destroy :: "'id mem_pool \<Rightarrow> nat \<Rightarrow> 'id mem_pool" where
  "entry_destroy pool a = pool\<lparr>mp_entries := (mp_entries pool)(a := None)\<rparr>"

definition entry_set :: "'id mem_pool \<Rightarrow> nat \<Rightarrow> 'id entry \<Rightarrow> 'id mem_pool" where
  "entry_set pool a e = pool\<lparr>mp_entries := (mp_entries pool)(a \<mapsto> e)\<rparr>"

text \<open>
  Offsets are unsigned integers here: where the source keeps them in an \<^verbatim>\<open>int\<close> it only
  compares them with unsigned values. The outer \<open>None\<close> is an access to a missing object.
\<close>

definition offset2host :: "'id mem_pool \<Rightarrow> u32 \<Rightarrow> host option option" where
  "offset2host pool offset =
     (let offset = offset - 1
      in if offset > mp_size pool then Some None
         else do {
           base \<leftarrow> mp_base pool;
           let addr = get_address base;
           let pos = (if get_family base = AF_INET6 then 12 else 0);
           n \<leftarrow> load addr pos 4;
           addr \<leftarrow> store addr pos (htoun32 (offset + untoh32 n));
           Some (host_create_from_chunk (get_family base) addr 0)
         })"

text \<open>The result -1 is, as everywhere it is compared, the largest unsigned integer.\<close>

definition host2offset :: "'id mem_pool \<Rightarrow> host \<Rightarrow> u32 option" where
  "host2offset pool addr = do {
     base \<leftarrow> mp_base pool;
     if get_family addr \<noteq> get_family base then Some (- 1)
     else do {
       let hst = get_address addr;
       let bse = get_address base;
       let skip = (if get_family addr = AF_INET6 then 12 else 0);
       if get_family addr = AF_INET6 \<and> take 12 hst \<noteq> take 12 bse then Some (- 1)
       else do {
         h \<leftarrow> load hst skip 4;
         b \<leftarrow> load bse skip 4;
         let hosti = untoh32 h;
         let basei = untoh32 b;
         if hosti > basei + mp_size pool then Some (- 1) else Some (hosti - basei + 1)
       }
     }
   }"

text \<open>The two counters walk over the whole table.\<close>

definition walk_entries :: "'id mem_pool \<Rightarrow> 'id entry list option" where
  "walk_entries this = do {
     (seen, t) \<leftarrow> ht_walk (ht_count (mp_leases this) + 1) (\<lambda>k v. False) (mp_leases this)
                   (ht_create_enumerator (mp_leases this));
     let es = map (\<lambda>(k, a). mp_entries this a) seen;
     (if None \<in> set es then None else Some (map the es))
   }"

definition get_online :: "'id mem_pool \<Rightarrow> u32 option" where
  "get_online this =
     map_option (foldl (\<lambda>count e. count + of_nat (ar_count (en_online e))) 0) (walk_entries this)"

definition get_offline :: "'id mem_pool \<Rightarrow> u32 option" where
  "get_offline this =
     map_option (foldl (\<lambda>count e. count + of_nat (ar_count (en_offline e))) 0) (walk_entries this)"

definition hash_addr :: "hash_inc \<Rightarrow> host option \<Rightarrow> u32" where
  "hash_addr chunk_hash_inc addr = (case addr of
       Some addr \<Rightarrow> chunk_hash_inc (get_address addr) (ucast (get_port addr))
     | None \<Rightarrow> 0)"

text \<open>
  \<^verbatim>\<open>array_insert(entry->online, ARRAY_TAIL, lease)\<close> where \<^verbatim>\<open>lease\<close> points to the
  \<open>j\<close>-th element of the same array: the bytes are copied after room has been made, from where
  the element was. If the block was reallocated the pointer is dangling: \<open>None\<close>.
\<close>

definition reinsert :: "'a array \<Rightarrow> nat \<Rightarrow> 'a array option" where
  "reinsert a j =
     (let i = ar_count a; pos = unat (ar_head a) + j;
          copy = (\<lambda>b. do {
            cs \<leftarrow> load (ar_data b) pos 1;
            d \<leftarrow> store (ar_data b) (unat (ar_head b) + i) cs;
            Some (b\<lparr>ar_data := d\<rparr>)
          })
      in if ar_tail a \<noteq> 0 then Option.bind (insert_tail a i) copy
         else if ar_head a \<noteq> 0 then Option.bind (insert_head a i) copy
         else None)"

text \<open>The search for an online lease of the same client; the position is the result.\<close>

fun find_lease :: "nat \<Rightarrow> unique_lease array \<Rightarrow> nat \<Rightarrow> u32 \<Rightarrow> u32 \<Rightarrow> (u32 \<times> nat) option option" where
  "find_lease 0 a idx off hash = None"
| "find_lease (Suc n) a idx off hash = do {
     (r, idx) \<leftarrow> array_enumerate a idx;
     case r of
       None \<Rightarrow> Some None
     | Some lease \<Rightarrow>
         if ul_offset lease = off \<and> ul_hash lease = hash then Some (Some (ul_offset lease, idx - 1))
         else find_lease n a idx off hash
   }"

definition get_existing ::
  "hash_inc \<Rightarrow> 'id mem_pool \<Rightarrow> 'id \<Rightarrow> host \<Rightarrow> host option \<Rightarrow> (u32 \<times> 'id mem_pool) option" where
  "get_existing chunk_hash_inc this ident requested peer = do {
     r \<leftarrow> ht_get (mp_leases this) ident;
     case r of
       None \<Rightarrow> Some (0, this)
     | Some a \<Rightarrow> do {
         entry \<leftarrow> mp_entries this a;
         (cur, idx) \<leftarrow> array_enumerate (en_offline entry) 0;
         (offset, entry) \<leftarrow> (case cur of
            None \<Rightarrow> Some (0, entry)
          | Some current \<Rightarrow> do {
              on \<leftarrow> array_insert (en_online entry) ARRAY_TAIL
                     \<lparr>ul_offset = current, ul_hash = hash_addr chunk_hash_inc peer\<rparr>;
              (off, _) \<leftarrow> array_remove_at (en_offline entry) idx;
              Some (current, entry\<lparr>en_online := on, en_offline := off\<rparr>)
            });
         let this = entry_set this a entry;
         if offset \<noteq> 0 then Some (offset, this)
         else if peer = None then Some (0, this)
         else do {
           off \<leftarrow> host2offset this requested;
           f \<leftarrow> find_lease (ar_count (en_online entry) + 1) (en_online entry) 0 off
                 (hash_addr chunk_hash_inc peer);
           case f of
             None \<Rightarrow> Some (0, this)
           | Some (offset, j) \<Rightarrow> do {
               on \<leftarrow> reinsert (en_online entry) j;
               Some (offset, entry_set this a (entry\<lparr>en_online := on\<rparr>))
             }
         }
       }
   }"

text \<open>The entry of an identity, created if there is none.\<close>

definition get_entry :: "'id mem_pool \<Rightarrow> 'id \<Rightarrow> (nat \<times> 'id mem_pool) option" where
  "get_entry this ident = do {
     r \<leftarrow> ht_get (mp_leases this) ident;
     case r of
       Some a \<Rightarrow> Some (a, this)
     | None \<Rightarrow> do {
         let (a, this) = entry_create this ident;
         entry \<leftarrow> mp_entries this a;
         (_, t) \<leftarrow> put (mp_leases this) (en_id entry) a;
         Some (a, this\<lparr>mp_leases := t\<rparr>)
       }
   }"

definition add_online :: "'id mem_pool \<Rightarrow> nat \<Rightarrow> unique_lease \<Rightarrow> 'id mem_pool option" where
  "add_online this a lease = do {
     entry \<leftarrow> mp_entries this a;
     on \<leftarrow> array_insert (en_online entry) ARRAY_TAIL lease;
     Some (entry_set this a (entry\<lparr>en_online := on\<rparr>))
   }"

definition get_new ::
  "hash_inc \<Rightarrow> 'id mem_pool \<Rightarrow> 'id \<Rightarrow> host option \<Rightarrow> (u32 \<times> 'id mem_pool) option" where
  "get_new chunk_hash_inc this ident peer =
     (if mp_unused this < mp_size this
      then do {
        (a, this) \<leftarrow> get_entry this ident;
        let this = this\<lparr>mp_unused := mp_unused this + 1\<rparr>;
        let offset = mp_unused this + (if base_is_network_id this then 1 else 0);
        this \<leftarrow> add_online this a \<lparr>ul_offset = offset, ul_hash = hash_addr chunk_hash_inc peer\<rparr>;
        Some (offset, this)
      }
      else Some (0, this))"

text \<open>The loop of \<^verbatim>\<open>get_reassigned\<close>; the first argument bounds its steps.\<close>

fun reassign_loop :: "nat \<Rightarrow> 'id mem_pool \<Rightarrow> ht_enumerator \<Rightarrow> (u32 \<times> 'id mem_pool) option" where
  "reassign_loop 0 this en = None"
| "reassign_loop (Suc n) this en = do {
     (r, en) \<leftarrow> ht_enumerate (mp_leases this) en;
     case r of
       None \<Rightarrow> Some (0, this)
     | Some (_, a) \<Rightarrow> do {
         entry \<leftarrow> mp_entries this a;
         (current, off) \<leftarrow> array_remove (en_offline entry) ARRAY_HEAD;
         let offset = (case current of Some c \<Rightarrow> c | None \<Rightarrow> 0);
         let entry = entry\<lparr>en_offline := off\<rparr>;
         let this = entry_set this a entry;
         (this, en) \<leftarrow>
           (if array_count (Some (en_online entry)) = 0 \<and> array_count (Some (en_offline entry)) = 0
            then do {
              (t, en) \<leftarrow> ht_remove_at (mp_leases this) en;
              Some (entry_destroy (this\<lparr>mp_leases := t\<rparr>) a, en)
            }
            else Some (this, en));
         if offset \<noteq> 0 then Some (offset, this) else reassign_loop n this en
       }
   }"

definition get_reassigned ::
  "hash_inc \<Rightarrow> 'id mem_pool \<Rightarrow> 'id \<Rightarrow> host option \<Rightarrow> (u32 \<times> 'id mem_pool) option" where
  "get_reassigned chunk_hash_inc this ident peer = do {
     (offset, this) \<leftarrow> reassign_loop (ht_count (mp_leases this) + 1) this
                        (ht_create_enumerator (mp_leases this));
     if offset \<noteq> 0
     then do {
       (a, this) \<leftarrow> get_entry this ident;
       this \<leftarrow> add_online this a \<lparr>ul_offset = offset, ul_hash = hash_addr chunk_hash_inc peer\<rparr>;
       Some (offset, this)
     }
     else Some (0, this)
   }"

definition acquire_address ::
  "hash_inc \<Rightarrow> 'id mem_pool \<Rightarrow> 'id \<Rightarrow> host \<Rightarrow> mem_pool_op \<Rightarrow> host option \<Rightarrow>
   (host option \<times> 'id mem_pool) option" where
  "acquire_address chunk_hash_inc this ident requested operation peer =
     (if mp_size this = 0 then Some (Some requested, this)
      else do {
        base \<leftarrow> mp_base this;
        if get_family requested \<noteq> get_family base then Some (None, this)
        else do {
          (offset, this) \<leftarrow> (case operation of
              MEM_POOL_EXISTING \<Rightarrow> get_existing chunk_hash_inc this ident requested peer
            | MEM_POOL_NEW \<Rightarrow> get_new chunk_hash_inc this ident peer
            | MEM_POOL_REASSIGN \<Rightarrow> get_reassigned chunk_hash_inc this ident peer);
          if offset \<noteq> 0
          then do { host \<leftarrow> offset2host this offset; Some (host, this) }
          else Some (None, this)
        }
      })"

text \<open>The loop of \<^verbatim>\<open>release_address\<close>: found, more, and the array.\<close>

fun release_loop :: "nat \<Rightarrow> unique_lease array \<Rightarrow> nat \<Rightarrow> u32 \<Rightarrow> bool \<Rightarrow> (bool \<times> bool \<times> unique_lease array) option" where
  "release_loop 0 a idx offset found = None"
| "release_loop (Suc n) a idx offset found = do {
     (r, idx) \<leftarrow> array_enumerate a idx;
     case r of
       None \<Rightarrow> Some (found, False, a)
     | Some current \<Rightarrow>
         if ul_offset current = offset
         then if \<not> found
              then do { (a, idx) \<leftarrow> array_remove_at a idx; release_loop n a idx offset True }
              else Some (found, True, a)
         else release_loop n a idx offset found
   }"

definition release_address :: "'id mem_pool \<Rightarrow> host \<Rightarrow> 'id \<Rightarrow> (bool \<times> 'id mem_pool) option" where
  "release_address this address ident =
     (if mp_size this \<noteq> 0
      then do {
        r \<leftarrow> ht_get (mp_leases this) ident;
        case r of
          None \<Rightarrow> Some (False, this)
        | Some a \<Rightarrow> do {
            entry \<leftarrow> mp_entries this a;
            offset \<leftarrow> host2offset this address;
            (found, more, on) \<leftarrow> release_loop (ar_count (en_online entry) + 1) (en_online entry) 0 offset False;
            off \<leftarrow> (if found \<and> \<not> more then array_insert (en_offline entry) ARRAY_TAIL offset
                    else Some (en_offline entry));
            Some (found, entry_set this a (entry\<lparr>en_online := on, en_offline := off\<rparr>))
          }
      }
      else Some (False, this))"

definition create_generic :: "('id \<Rightarrow> u32) \<Rightarrow> ('id \<Rightarrow> 'id \<Rightarrow> bool) \<Rightarrow> string \<Rightarrow> 'id mem_pool" where
  "create_generic id_hash id_equals name =
     \<lparr>mp_name = name, mp_base = None, base_is_network_id = False, mp_size = 0, mp_unused = 0,
      mp_leases = hashtable_create id_hash id_equals 16, mp_entries = (\<lambda>_. None), mp_next = 0\<rparr>"

definition network_id_diff :: "host \<Rightarrow> nat \<Rightarrow> u32 option" where
  "network_id_diff host hostbits =
     (if hostbits = 0 then Some 0
      else do {
        let addr = get_address host;
        last \<leftarrow> load addr (length addr - 4) 4;
        let hostbits = 32 - hostbits;
        Some (drop_bit hostbits (push_bit hostbits (untoh32 last)))
      })"

definition mem_pool_create ::
  "('id \<Rightarrow> u32) \<Rightarrow> ('id \<Rightarrow> 'id \<Rightarrow> bool) \<Rightarrow> string \<Rightarrow> host option \<Rightarrow> int \<Rightarrow> 'id mem_pool option" where
  "mem_pool_create id_hash id_equals name base bits =
     (let this = create_generic id_hash id_equals name
      in case base of
           None \<Rightarrow> Some this
         | Some base \<Rightarrow>
             (let addr_bits = (if get_family base = AF_INET then 32 else 128);
                  bits = max 0 (min bits addr_bits);
                  bits = nat (addr_bits - bits);
                  bits = (if bits > POOL_LIMIT then POOL_LIMIT else bits);
                  this = this\<lparr>mp_size := push_bit bits 1, mp_base := Some base\<rparr>
              in do {
                diff \<leftarrow> network_id_diff base bits;
                Some (if mp_size this > 2
                      then (let this = (if diff = 0
                                        then this\<lparr>base_is_network_id := True, mp_size := mp_size this - 1\<rparr>
                                        else this\<lparr>mp_size := mp_size this - diff\<rparr>)
                            in this\<lparr>mp_size := mp_size this - 1\<rparr>)
                      else if diff \<noteq> 0 then this\<lparr>mp_size := mp_size this - 1\<rparr>
                      else this)
              }))"

definition mem_pool_create_range ::
  "('id \<Rightarrow> u32) \<Rightarrow> ('id \<Rightarrow> 'id \<Rightarrow> bool) \<Rightarrow> string \<Rightarrow> host \<Rightarrow> host \<Rightarrow> 'id mem_pool option option" where
  "mem_pool_create_range id_hash id_equals name from to =
     (let fromaddr = get_address from; toaddr = get_address to
      in if get_family from \<noteq> get_family to \<or> length fromaddr \<noteq> length toaddr \<or>
            length fromaddr < 4 \<or> memcmp fromaddr toaddr > 0
         then Some None
         else if length fromaddr > 4 \<and>
            take (length fromaddr - 4) fromaddr \<noteq> take (length toaddr - 4) toaddr
         then Some None
         else do {
           t \<leftarrow> load toaddr (length toaddr - 4) 4;
           f \<leftarrow> load fromaddr (length fromaddr - 4) 4;
           let diff = untoh32 t - untoh32 f;
           Some (Some ((create_generic id_hash id_equals name)
                         \<lparr>mp_base := Some from, mp_size := diff + 1\<rparr>))
         })"


section \<open>Invariant\<close>

text \<open>The offsets an entry holds, and the entries the pool keeps.\<close>

definition offs :: "'id entry \<Rightarrow> u32 set" where
  "offs e = ul_offset ` set (elements (en_online e)) \<union> set (elements (en_offline e))"

definition entry_ok :: "'id entry \<Rightarrow> bool" where
  "entry_ok e \<longleftrightarrow> array_inv (en_online e) \<and> array_inv (en_offline e) \<and>
     distinct (elements (en_offline e)) \<and>
     ul_offset ` set (elements (en_online e)) \<inter> set (elements (en_offline e)) = {}"

text \<open>The offsets held by an identity.\<close>

definition held :: "'id mem_pool \<Rightarrow> 'id \<Rightarrow> u32 set" where
  "held p k = (case ht_abs (mp_leases p) k of
       None \<Rightarrow> {}
     | Some a \<Rightarrow> (case mp_entries p a of None \<Rightarrow> {} | Some e \<Rightarrow> offs e))"

text \<open>
  The table is well-formed and refers to entries, different identities refer to different
  entries, and no offset is held by two of them.
\<close>

definition pool_struct :: "('id \<Rightarrow> u32) \<Rightarrow> ('id \<Rightarrow> 'id \<Rightarrow> bool) \<Rightarrow> 'id mem_pool \<Rightarrow> bool" where
  "pool_struct hash equals p \<longleftrightarrow> ht_inv hash equals (mp_leases p) \<and>
     (\<forall>k a. ht_abs (mp_leases p) k = Some a \<longrightarrow>
        a < mp_next p \<and> (\<exists>e. mp_entries p a = Some e \<and> entry_ok e)) \<and>
     (\<forall>k k' a. ht_abs (mp_leases p) k = Some a \<longrightarrow> ht_abs (mp_leases p) k' = Some a \<longrightarrow> equals k k') \<and>
     (\<forall>k k'. \<not> equals k k' \<longrightarrow> held p k \<inter> held p k' = {})"

text \<open>The offsets handed out so far: an interval behind the network address, if the pool has one.\<close>

definition net_skip :: "'id mem_pool \<Rightarrow> nat" where
  "net_skip p = (if base_is_network_id p then 1 else 0)"

definition handed_out :: "'id mem_pool \<Rightarrow> u32 set" where
  "handed_out p = {off. net_skip p < unat off \<and> unat off \<le> net_skip p + unat (mp_unused p)}"

definition pool_inv :: "('id \<Rightarrow> u32) \<Rightarrow> ('id \<Rightarrow> 'id \<Rightarrow> bool) \<Rightarrow> 'id mem_pool \<Rightarrow> bool" where
  "pool_inv hash equals p \<longleftrightarrow> pool_struct hash equals p \<and> (\<Union>k. held p k) = handed_out p \<and>
     mp_unused p \<le> mp_size p \<and> net_skip p + unat (mp_size p) < 2 ^ 32 \<and>
     (mp_size p \<noteq> 0 \<longrightarrow> (\<exists>b. mp_base p = Some b \<and> host_wf b))"

text \<open>What no operation but \<^const>\<open>get_new\<close> changes.\<close>

definition same_frame :: "'id mem_pool \<Rightarrow> 'id mem_pool \<Rightarrow> bool" where
  "same_frame p q \<longleftrightarrow> mp_name q = mp_name p \<and> mp_base q = mp_base p \<and>
     base_is_network_id q = base_is_network_id p \<and> mp_size q = mp_size p \<and> mp_unused q = mp_unused p"


section \<open>Entries\<close>

lemma elements_count: "array_inv a \<Longrightarrow> length (elements a) = ar_count a"
  by (auto simp: array_inv_iff)

lemma struct_equiv:
  assumes "pool_struct hash equals p"
  shows "equals k k" "equals k l \<Longrightarrow> equals l k" "equals k l \<Longrightarrow> equals l m \<Longrightarrow> equals k m"
proof -
  have "equivp equals" using assms by (auto simp: pool_struct_def ht_inv_def hash_ok_def)
  then show "equals k k" "equals k l \<Longrightarrow> equals l k" "equals k l \<Longrightarrow> equals l m \<Longrightarrow> equals k m"
    by (meson equivp_reflp equivp_symp equivp_transp)+
qed

lemma struct_table: "pool_struct hash equals p \<Longrightarrow> ht_inv hash equals (mp_leases p)"
  by (simp add: pool_struct_def)

lemma struct_entry:
  "pool_struct hash equals p \<Longrightarrow> ht_abs (mp_leases p) k = Some a \<Longrightarrow>
   a < mp_next p \<and> (\<exists>e. mp_entries p a = Some e \<and> entry_ok e)"
  by (simp add: pool_struct_def)

lemma struct_disjoint:
  "pool_struct hash equals p \<Longrightarrow> \<not> equals k k' \<Longrightarrow> held p k \<inter> held p k' = {}"
  by (simp add: pool_struct_def)

lemma same_entry_iff:
  assumes "pool_struct hash equals p" "ht_abs (mp_leases p) ident = Some a"
  shows "ht_abs (mp_leases p) k = Some a \<longleftrightarrow> equals k ident"
proof
  assume "ht_abs (mp_leases p) k = Some a"
  then show "equals k ident" using assms by (auto simp: pool_struct_def)
next
  assume "equals k ident"
  then have "ht_abs (mp_leases p) k = ht_abs (mp_leases p) ident"
    using assms(1) ht_abs_equal by (auto simp: pool_struct_def)
  then show "ht_abs (mp_leases p) k = Some a" using assms(2) by simp
qed

lemma held_entry:
  "ht_abs (mp_leases p) k = Some a \<Longrightarrow> mp_entries p a = Some e \<Longrightarrow> held p k = offs e"
  by (simp add: held_def)

lemma held_equal:
  assumes "pool_struct hash equals p" "equals k l"
  shows "held p k = held p l"
  using ht_abs_equal [OF struct_table [OF assms(1)] assms(2)] by (simp add: held_def)

text \<open>Replacing the entry of an identity.\<close>

lemma held_entry_set:
  assumes "pool_struct hash equals p" "ht_abs (mp_leases p) ident = Some a"
  shows "held (entry_set p a e) k = (if equals k ident then offs e else held p k)"
  using same_entry_iff [OF assms, of k]
  by (auto simp: held_def entry_set_def split: option.splits)

lemma struct_entry_set:
  assumes s: "pool_struct hash equals p" and a: "ht_abs (mp_leases p) ident = Some a" and ok: "entry_ok e"
    and fresh: "\<And>k. \<not> equals k ident \<Longrightarrow> offs e \<inter> held p k = {}"
  shows "pool_struct hash equals (entry_set p a e)"
proof -
  have "held (entry_set p a e) k \<inter> held (entry_set p a e) k' = {}" if "\<not> equals k k'" for k k'
  proof (cases "equals k ident")
    case True
    then have "\<not> equals k' ident" using that struct_equiv [OF s] by metis
    then show ?thesis using True fresh by (simp add: held_entry_set [OF s a])
  next
    case False
    then show ?thesis using that fresh s
      by (auto simp: held_entry_set [OF s a] pool_struct_def)
  qed
  then show ?thesis
    using s ok unfolding pool_struct_def by (auto simp: entry_set_def)
qed

text \<open>Putting a fresh entry into the table.\<close>

lemma fresh_entry:
  assumes s: "pool_struct hash equals p" and None: "ht_abs (mp_leases p) ident = None"
    and u: "ht_inv hash equals u"
      "\<And>k. ht_abs u k = (if equals k ident then Some (mp_next p) else ht_abs (mp_leases p) k)"
    and e: "entry_ok e" "offs e = {}"
    and q: "q = p\<lparr>mp_entries := (mp_entries p)(mp_next p \<mapsto> e), mp_next := mp_next p + 1, mp_leases := u\<rparr>"
  shows "held q = held p" "pool_struct hash equals q"
proof -
  let ?a = "mp_next p"
  have old: "ht_abs (mp_leases p) k = Some b \<Longrightarrow> b < ?a \<and> (\<exists>e. mp_entries p b = Some e \<and> entry_ok e)" for k b
    by (rule struct_entry [OF s])
  have none: "equals k ident \<Longrightarrow> ht_abs (mp_leases p) k = None" for k
    using ht_abs_equal [OF struct_table [OF s], of k ident] None by simp
  show held: "held q = held p"
  proof
    fix k show "held q k = held p k"
      using old [of k] none [of k] e(2)
      by (cases "ht_abs (mp_leases p) k") (auto simp: held_def q u(2))
  qed
  have tab: "ht_abs (mp_leases q) l = (if equals l ident then Some ?a else ht_abs (mp_leases p) l)" for l
    by (simp add: q u(2))
  show "pool_struct hash equals q"
    unfolding pool_struct_def held
  proof (intro conjI allI impI)
    show "ht_inv hash equals (mp_leases q)" using u(1) by (simp add: q)
    fix k k' b assume k: "ht_abs (mp_leases q) k = Some b"
    show "b < mp_next q" "\<exists>e. mp_entries q b = Some e \<and> entry_ok e"
      using k old [of k b] e(1) by (auto simp: q u(2) split: if_splits)
    assume k': "ht_abs (mp_leases q) k' = Some b"
    have inj: "ht_abs (mp_leases p) k = Some b \<Longrightarrow> ht_abs (mp_leases p) k' = Some b \<Longrightarrow> equals k k'"
      using s by (simp add: pool_struct_def)
    show "equals k k'"
    proof (cases "equals k ident"; cases "equals k' ident")
      assume "equals k ident" "equals k' ident"
      then show ?thesis using struct_equiv [OF s] by metis
    next
      assume "\<not> equals k ident" "\<not> equals k' ident"
      then show ?thesis using k k' inj by (simp add: tab)
    qed (use k k' tab old [of k b] old [of k' b] in simp_all)
  next
    fix k k' assume "\<not> equals k k'"
    then show "held p k \<inter> held p k' = {}" using s by (simp add: pool_struct_def)
  qed
qed

lemma get_entry_ok:
  assumes s: "pool_struct hash equals p"
  shows "\<exists>a e q. get_entry p ident = Some (a, q) \<and> pool_struct hash equals q \<and> same_frame p q \<and>
    ht_abs (mp_leases q) ident = Some a \<and> mp_entries q a = Some e \<and> entry_ok e \<and> held q = held p"
proof -
  note inv = struct_table [OF s]
  show ?thesis
  proof (cases "ht_abs (mp_leases p) ident")
    case (Some a)
    then obtain e where "mp_entries p a = Some e" "entry_ok e" using struct_entry [OF s Some] by blast
    then show ?thesis using Some s
      by (simp add: get_entry_def ht_get_ok [OF inv] same_frame_def)
  next
    case None
    let ?a = "mp_next p"
      and ?e = "\<lparr>en_id = ident, en_online = array_create 0, en_offline = array_create 0\<rparr>"
    obtain u where u: "put (mp_leases p) ident ?a = Some (None, u)" "ht_inv hash equals u"
      "\<And>k. ht_abs u k = (if equals k ident then Some ?a else ht_abs (mp_leases p) k)"
      using put_ok [OF inv, of ident ?a] None by auto
    define q where "q = p\<lparr>mp_entries := (mp_entries p)(?a \<mapsto> ?e), mp_next := ?a + 1, mp_leases := u\<rparr>"
    have "get_entry p ident = Some (?a, q)"
      using None u(1) by (simp add: get_entry_def ht_get_ok [OF inv] entry_create_def q_def Let_def)
    moreover have ok: "entry_ok ?e" "offs ?e = {}"
      by (simp_all add: entry_ok_def offs_def array_inv_create elements_create)
    moreover have "ht_abs (mp_leases q) ident = Some ?a" "mp_entries q ?a = Some ?e" "same_frame p q"
      using struct_equiv(1) [OF s] by (simp_all add: q_def u(3) same_frame_def)
    ultimately show ?thesis using fresh_entry [OF s None u(2,3) ok q_def] by blast
  qed
qed

lemma same_frame_refl [simp]: "same_frame p p"
  by (simp add: same_frame_def)

lemma same_frame_trans: "same_frame p q \<Longrightarrow> same_frame q r \<Longrightarrow> same_frame p r"
  by (simp add: same_frame_def)

lemma same_frame_entry_set [simp]: "same_frame p (entry_set q a e) = same_frame p q"
  by (simp add: same_frame_def entry_set_def)

lemma append_elements:
  assumes "array_inv a"
  shows "\<exists>b. array_insert a ARRAY_TAIL x = Some b \<and> array_inv b \<and> elements b = elements a @ [x]"
  using ar.append_law [OF assms] by (simp add: ARRAY_TAIL_def)

text \<open>A new online lease for an offset nobody else holds.\<close>

lemma add_online_ok:
  assumes s: "pool_struct hash equals p" and a: "ht_abs (mp_leases p) ident = Some a"
    and e: "mp_entries p a = Some e" and free: "\<And>k. ul_offset l \<notin> held p k"
  shows "\<exists>q. add_online p a l = Some q \<and> pool_struct hash equals q \<and> same_frame p q \<and>
    held q = (\<lambda>k. if equals k ident then insert (ul_offset l) (held p k) else held p k)"
proof -
  have ok: "entry_ok e" using struct_entry [OF s a] e by auto
  obtain on where on: "array_insert (en_online e) ARRAY_TAIL l = Some on" "array_inv on"
    "elements on = elements (en_online e) @ [l]"
    using append_elements [of "en_online e" l] ok by (auto simp: entry_ok_def)
  let ?e = "e\<lparr>en_online := on\<rparr>"
  have offs: "offs ?e = insert (ul_offset l) (held p ident)"
    unfolding held_entry [of p, OF a e] by (auto simp: offs_def on(3))
  have "ul_offset l \<notin> offs e" using free [of ident] held_entry [of p, OF a e] by simp
  then have ok': "entry_ok ?e" using ok on by (auto simp: entry_ok_def offs_def)
  have disj: "offs ?e \<inter> held p k = {}" if "\<not> equals k ident" for k
    using free [of k] struct_disjoint [OF s, of k ident] that by (auto simp: offs)
  have "pool_struct hash equals (entry_set p a ?e)"
    by (rule struct_entry_set [OF s a ok' disj])
  moreover have "held (entry_set p a ?e) = (\<lambda>k. if equals k ident then insert (ul_offset l) (held p k) else held p k)"
    by (auto simp: fun_eq_iff held_entry_set [OF s a] offs dest: held_equal [OF s, of _ ident])
  moreover have "add_online p a l = Some (entry_set p a ?e)" by (simp add: add_online_def e on(1))
  ultimately show ?thesis by auto
qed

lemma entry_add_online:
  assumes s: "pool_struct hash equals p" and free: "\<And>k. ul_offset l \<notin> held p k"
  shows "\<exists>a q r. get_entry p ident = Some (a, q) \<and> same_frame p q \<and> held q = held p \<and>
    pool_struct hash equals q \<and> add_online q a l = Some r \<and> pool_struct hash equals r \<and> same_frame p r \<and>
    held r = (\<lambda>k. if equals k ident then insert (ul_offset l) (held p k) else held p k)"
proof -
  obtain a e q where q: "get_entry p ident = Some (a, q)" "pool_struct hash equals q" "same_frame p q"
    "ht_abs (mp_leases q) ident = Some a" "mp_entries q a = Some e" "held q = held p"
    using get_entry_ok [OF s] by blast
  obtain r where r: "add_online q a l = Some r" "pool_struct hash equals r" "same_frame q r"
    "held r = (\<lambda>k. if equals k ident then insert (ul_offset l) (held q k) else held q k)"
    using add_online_ok [OF q(2,4,5), of l] free q(6) by auto
  have "same_frame p r" using same_frame_trans [OF q(3) r(3)] .
  with q r show ?thesis by force
qed

lemma held_unused: "held (p\<lparr>mp_unused := n\<rparr>) = held p"
  by (rule ext) (simp add: held_def split: option.split)

lemma struct_unused: "pool_struct hash equals (p\<lparr>mp_unused := n\<rparr>) = pool_struct hash equals p"
  by (simp add: pool_struct_def held_unused)

lemma add_online_unused:
  "add_online (p\<lparr>mp_unused := n\<rparr>) a l = map_option (\<lambda>q. q\<lparr>mp_unused := n\<rparr>) (add_online p a l)"
  by (auto simp: add_online_def entry_set_def split: bind_splits)

text \<open>\<^const>\<open>get_new\<close> hands out the next offset while there is one.\<close>

lemma get_new_ok:
  assumes inv: "pool_inv hash equals p"
  shows "\<exists>off q. get_new hi p ident peer = Some (off, q) \<and> pool_inv hash equals q \<and>
    (if mp_unused p < mp_size p
     then off \<noteq> 0 \<and> mp_unused q = mp_unused p + 1 \<and> off \<notin> handed_out p \<and>
       held q = (\<lambda>k. if equals k ident then insert off (held p k) else held p k)
     else off = 0 \<and> q = p) \<and> mp_size q = mp_size p \<and> net_skip q = net_skip p \<and> mp_base q = mp_base p"
proof (cases "mp_unused p < mp_size p")
  case True
  let ?u = "mp_unused p + 1"
  let ?off = "mp_unused p + 1 + (if base_is_network_id p then 1 else 0)"
  let ?l = "\<lparr>ul_offset = ?off, ul_hash = hash_addr hi peer\<rparr>"
  have s: "pool_struct hash equals p" and cover: "(\<Union>k. held p k) = handed_out p"
    and bound: "net_skip p + unat (mp_size p) < 2 ^ 32"
    using inv by (auto simp: pool_inv_def)
  have lt: "unat (mp_unused p) < unat (mp_size p)" using True by (simp add: word_less_nat_alt)
  have u: "unat ?u = unat (mp_unused p) + 1"
    using lt bound by (simp add: unat_word_ariths)
  have off: "unat ?off = unat (mp_unused p) + 1 + net_skip p"
    using lt bound u by (auto simp: unat_word_ariths net_skip_def)
  have "?off \<notin> handed_out p" using off by (simp add: handed_out_def)
  then have free: "ul_offset ?l \<notin> held p k" for k
    unfolding cover [symmetric] by simp
  obtain a q r where q: "get_entry p ident = Some (a, q)" "same_frame p q"
    "add_online q a ?l = Some r" "pool_struct hash equals r" "same_frame p r"
    "held r = (\<lambda>k. if equals k ident then insert (ul_offset ?l) (held p k) else held p k)"
    using entry_add_online [OF s free, of ident] by blast
  let ?r = "r\<lparr>mp_unused := ?u\<rparr>"
  have new: "get_new hi p ident peer = Some (?off, ?r)"
    using True q by (simp add: get_new_def Let_def same_frame_def add_online_unused)
  have held: "held ?r = (\<lambda>k. if equals k ident then insert ?off (held p k) else held p k)"
    by (simp only: held_unused q(6) unique_lease.select_convs)
  have "(\<Union>k. held ?r k) = insert ?off (\<Union>k. held p k)"
    using struct_equiv(1) [OF s, of ident] by (auto simp: held split: if_splits)
  moreover have "handed_out ?r = insert ?off (handed_out p)"
  proof -
    have "net_skip ?r = net_skip p" using q(5) by (simp add: net_skip_def same_frame_def)
    then show ?thesis
      using off u by (auto simp: handed_out_def word_unat_eq_iff)
  qed
  moreover have "mp_unused ?r \<le> mp_size ?r"
    using u lt q(5) by (simp add: word_le_nat_alt same_frame_def)
  ultimately have "pool_inv hash equals ?r"
    using inv q(4,5) cover by (simp add: pool_inv_def struct_unused same_frame_def net_skip_def)
  moreover have "?off \<noteq> 0" using off by (auto simp: word_unat_eq_iff)
  moreover have "?off \<notin> handed_out p" using off by (simp add: handed_out_def)
  ultimately show ?thesis
    using new held True q(5) by (simp add: same_frame_def net_skip_def)
next
  case False
  then show ?thesis using inv by (simp add: get_new_def)
qed


section \<open>Releasing\<close>

fun drop_first :: "('a \<Rightarrow> bool) \<Rightarrow> 'a list \<Rightarrow> 'a list" where
  "drop_first P [] = []"
| "drop_first P (x # xs) = (if P x then xs else x # drop_first P xs)"

lemma set_drop_first:
  "(\<exists>x \<in> set xs. f x = c) \<Longrightarrow> insert c (f ` set (drop_first (\<lambda>x. f x = c) xs)) = f ` set xs"
  by (induction xs) auto

lemma drop_first_none: "(\<forall>x \<in> set xs. \<not> P x) \<Longrightarrow> drop_first P xs = xs"
  by (induction xs) auto

lemma release_loop_found:
  assumes "array_inv a" "length (elements a) - i < n" "i \<le> length (elements a)"
  shows "release_loop n a i off True =
    Some (True, off \<in> ul_offset ` set (drop i (elements a)), a)"
  using assms
proof (induction n arbitrary: i)
  case (Suc n)
  show ?case
  proof (cases "i < length (elements a)")
    case True
    then have "drop i (elements a) = elements a ! i # drop (i + 1) (elements a)"
      by (simp add: Cons_nth_drop_Suc)
    then show ?thesis
      using True Suc.IH [of "i + 1"] Suc.prems array_enumerate_list [OF Suc.prems(1), of i] by auto
  next
    case False
    then show ?thesis using Suc.prems array_enumerate_list [OF Suc.prems(1), of i] by simp
  qed
qed simp

lemma release_loop_ok:
  assumes "array_inv a" "length (elements a) - i < n" "i \<le> length (elements a)"
  shows "\<exists>more b. release_loop n a i off False =
      Some (off \<in> ul_offset ` set (drop i (elements a)), more, b) \<and> array_inv b \<and>
    elements b = take i (elements a) @ drop_first (\<lambda>x. ul_offset x = off) (drop i (elements a)) \<and>
    (off \<in> ul_offset ` set (drop i (elements a)) \<longrightarrow>
     more = (off \<in> ul_offset ` set (drop_first (\<lambda>x. ul_offset x = off) (drop i (elements a)))))"
  using assms
proof (induction n arbitrary: i)
  case (Suc n)
  let ?xs = "elements a"
  note enum = array_enumerate_list [OF Suc.prems(1), of i]
  show ?case
  proof (cases "i < length ?xs")
    case True
    then have d: "drop i ?xs = ?xs ! i # drop (i + 1) ?xs" by (simp add: Cons_nth_drop_Suc)
    have t: "take (i + 1) ?xs = take i ?xs @ [?xs ! i]" using True by (simp add: take_Suc_conv_app_nth)
    show ?thesis
    proof (cases "ul_offset (?xs ! i) = off")
      case eq: True
      obtain b where b: "array_remove_at a (i + 1) = Some (b, i)" "array_inv b"
        "elements b = take i ?xs @ drop (i + 1) ?xs"
        using array_remove_at_list [OF Suc.prems(1) True] by blast
      have "release_loop n b i off True = Some (True, off \<in> ul_offset ` set (drop i (elements b)), b)"
        using b True Suc.prems by (intro release_loop_found) auto
      moreover have "drop i (elements b) = drop (i + 1) ?xs" using b(3) True by simp
      ultimately show ?thesis using True eq d b enum by simp
    next
      case False
      then show ?thesis using Suc.IH [of "i + 1"] Suc.prems True enum t by (simp add: d)
    qed
  next
    case False
    then show ?thesis using Suc.prems enum by auto
  qed
qed simp

text \<open>Releasing moves an offset from online to offline, or drops one of several online leases.\<close>

lemma release_entry_ok:
  assumes ok: "entry_ok e"
  shows "\<exists>more on. release_loop (ar_count (en_online e) + 1) (en_online e) 0 off False =
      Some (off \<in> ul_offset ` set (elements (en_online e)), more, on) \<and>
    (\<exists>ofl. (if off \<in> ul_offset ` set (elements (en_online e)) \<and> \<not> more
           then array_insert (en_offline e) ARRAY_TAIL off else Some (en_offline e)) = Some ofl \<and>
      entry_ok (e\<lparr>en_online := on, en_offline := ofl\<rparr>) \<and>
      offs (e\<lparr>en_online := on, en_offline := ofl\<rparr>) = offs e)"
proof -
  let ?xs = "elements (en_online e)" and ?P = "\<lambda>x. ul_offset x = off"
  have on: "array_inv (en_online e)" and ofl: "array_inv (en_offline e)"
    and dist: "distinct (elements (en_offline e))"
    and disj: "ul_offset ` set ?xs \<inter> set (elements (en_offline e)) = {}"
    using ok by (simp_all add: entry_ok_def)
  obtain more b where b: "release_loop (ar_count (en_online e) + 1) (en_online e) 0 off False =
      Some (off \<in> ul_offset ` set ?xs, more, b)" "array_inv b" "elements b = drop_first ?P ?xs"
    "off \<in> ul_offset ` set ?xs \<longrightarrow> more = (off \<in> ul_offset ` set (drop_first ?P ?xs))"
    using release_loop_ok [OF on, of 0 "ar_count (en_online e) + 1" off] elements_count [OF on] by auto
  obtain o2 where o2: "array_insert (en_offline e) ARRAY_TAIL off = Some o2" "array_inv o2"
    "elements o2 = elements (en_offline e) @ [off]"
    using append_elements [OF ofl] by blast
  show ?thesis
  proof (cases "off \<in> ul_offset ` set ?xs")
    case True
    then have ins: "insert off (ul_offset ` set (drop_first ?P ?xs)) = ul_offset ` set ?xs"
      by (intro set_drop_first) auto
    show ?thesis
    proof (cases more)
      case m: True
      then have "ul_offset ` set (drop_first ?P ?xs) = ul_offset ` set ?xs"
        using ins b(4) True by auto
      then have "entry_ok (e\<lparr>en_online := b\<rparr>)" "offs (e\<lparr>en_online := b\<rparr>) = offs e"
        using b(2,3) ofl dist disj by (simp_all add: entry_ok_def offs_def)
      then show ?thesis using b(1) True m by auto
    next
      case m: False
      then have notin: "off \<notin> ul_offset ` set (drop_first ?P ?xs)" using b(4) True by simp
      have "off \<notin> set (elements (en_offline e))" using disj True by auto
      moreover have "ul_offset ` set (drop_first ?P ?xs) \<inter> set (elements (en_offline e)) = {}"
        using ins disj by blast
      ultimately have "entry_ok (e\<lparr>en_online := b, en_offline := o2\<rparr>)"
        using b(2,3) o2 dist notin by (auto simp: entry_ok_def)
      moreover have "offs (e\<lparr>en_online := b, en_offline := o2\<rparr>) = offs e"
        using b(3) o2(3) by (simp add: offs_def flip: ins)
      ultimately show ?thesis using b(1) True m o2(1) by auto
    qed
  next
    case False
    then have "drop_first ?P ?xs = ?xs" by (intro drop_first_none) auto
    then have "entry_ok (e\<lparr>en_online := b\<rparr>)" "offs (e\<lparr>en_online := b\<rparr>) = offs e"
      using b(2,3) ofl dist disj by (simp_all add: entry_ok_def offs_def)
    then show ?thesis using b(1) False by auto
  qed
qed


section \<open>Existing leases\<close>

lemma find_lease_ok:
  assumes "array_inv a" "length (elements a) - i < n" "i \<le> length (elements a)"
  shows "find_lease n a i off h = Some None \<or>
    (\<exists>j < length (elements a). find_lease n a i off h = Some (Some (off, j)) \<and>
       ul_offset (elements a ! j) = off)"
  using assms
proof (induction n arbitrary: i)
  case (Suc n)
  note enum = array_enumerate_list [OF Suc.prems(1), of i]
  show ?case
  proof (cases "i < length (elements a)")
    case True
    then show ?thesis using Suc.IH [of "i + 1"] Suc.prems enum by auto
  next
    case False
    then show ?thesis using enum by simp
  qed
qed simp

declare find_lease.simps [simp del]

lemma load_one: "pos < length m \<Longrightarrow> load m pos 1 = Some [m ! pos]"
  by (simp add: load_def take_Suc hd_drop_conv_nth)

text \<open>
  The lease that is inserted again comes from the array: the one pointed at where the
  elements stay in place, its successor where they are moved to the front by one.
\<close>

lemma reinsert_tail:
  assumes inv: "array_inv a" and j: "j < length (elements a)" and tail: "ar_tail a \<noteq> 0"
  shows "\<exists>b. reinsert a j = Some b \<and> array_inv b \<and> elements b = elements a @ [elements a ! j]"
proof -
  let ?xs = "elements a" and ?x = "elements a ! j"
  obtain hs ts where p: "ar_data a = hs @ map Some ?xs @ ts" "length hs = unat (ar_head a)"
    "length ts = unat (ar_tail a)" "length ?xs = ar_count a"
    "unat (ar_head a) + unat (ar_tail a) + min 1 (ar_count a) \<le> 255"
    using inv by (auto simp: array_inv_iff)
  have t: "unat (ar_tail a) > 0" using tail by (simp add: unat_gt_0)
  then obtain c ts' where ts: "ts = c # ts'" using p(3) by (cases ts) auto
  have room: "make_tail_room a 1 = a" using t by (simp add: make_tail_room_def word_less_nat_alt)
  let ?b = "a\<lparr>ar_count := ar_count a + 1, ar_tail := ar_tail a - 1\<rparr>"
  have ins: "insert_tail a (ar_count a) = Some ?b"
    using p ts by (simp add: insert_tail_def room Let_def)
  have ld: "load (ar_data ?b) (unat (ar_head a) + j) 1 = Some [Some ?x]"
    using p j by (simp add: load_def nth_append take_Suc hd_drop_conv_nth)
  have st: "store (ar_data ?b) (unat (ar_head ?b) + ar_count a) [Some ?x] =
      Some (hs @ map Some (?xs @ [?x]) @ ts')"
    using p ts by (simp add: store_def)
  have "reinsert a j = Some (?b\<lparr>ar_data := hs @ map Some (?xs @ [?x]) @ ts'\<rparr>)"
    using tail ins ld st by (simp add: reinsert_def Let_def)
  moreover have "array_inv (?b\<lparr>ar_data := hs @ map Some (?xs @ [?x]) @ ts'\<rparr>) \<and>
      elements (?b\<lparr>ar_data := hs @ map Some (?xs @ [?x]) @ ts'\<rparr>) = ?xs @ [?x]"
    using p ts t tail by (intro array_invI [of _ hs _ ts']) (auto simp: unat_pred)
  ultimately show ?thesis by blast
qed

lemma reinsert_head:
  assumes inv: "array_inv a" and j: "j < length (elements a)" and tail: "ar_tail a = 0" "ar_head a \<noteq> 0"
  shows "\<exists>b. reinsert a j = Some b \<and> array_inv b \<and>
    elements b = elements a @ [elements a ! min (j + 1) (length (elements a) - 1)]"
proof -
  let ?xs = "elements a" and ?n = "length (elements a)"
  define x where "x = elements a ! min (j + 1) (length (elements a) - 1)"
  obtain hs where p: "ar_data a = hs @ map Some ?xs" "length hs = unat (ar_head a)"
    "?n = ar_count a" "unat (ar_head a) + min 1 (ar_count a) \<le> 255"
    using inv tail by (auto simp: array_inv_iff)
  have h: "hs \<noteq> []" "unat (ar_head a) > 0" using tail p(2) by (auto simp: unat_gt_0 unat_eq_0)
  have room: "make_head_room a 1 = Some a" using h by (simp add: make_head_room_def word_less_nat_alt)
  let ?d = "butlast hs @ map Some ?xs @ [Some (last ?xs)]"
  let ?b = "a\<lparr>ar_data := ?d, ar_head := ar_head a - 1, ar_count := ar_count a + 1\<rparr>"
  have "(last hs # map Some ?xs) ! ?n = Some (last ?xs)"
    using j by (auto simp: last_conv_nth nth_Cons')
  then have ins: "insert_head a (ar_count a) = Some ?b"
    using memmove_down [OF h(1), of ?n "map Some ?xs"] p room
    by (simp add: insert_head_def)
  have pos: "unat (ar_head a) + j = length (butlast hs) + (j + 1)" using p(2) h by simp
  have "(map Some ?xs @ [Some (last ?xs)]) ! (j + 1) = Some x"
  proof -
    have "?xs \<noteq> []" using j by auto
    then show ?thesis using j by (auto simp: x_def nth_append min_def last_conv_nth)
  qed
  then have ld: "load (ar_data ?b) (unat (ar_head a) + j) 1 = Some [Some x]"
    using j unfolding pos by (subst load_one) (simp_all add: nth_append)
  have st: "store (ar_data ?b) (unat (ar_head ?b) + ar_count a) [Some x] =
      Some (butlast hs @ map Some (?xs @ [x]))"
    using p h tail by (simp add: store_def unat_pred)
  have "reinsert a j = Some (?b\<lparr>ar_data := butlast hs @ map Some (?xs @ [x])\<rparr>)"
    using tail ins ld st by (simp add: reinsert_def Let_def)
  moreover have "array_inv (?b\<lparr>ar_data := butlast hs @ map Some (?xs @ [x])\<rparr>) \<and>
      elements (?b\<lparr>ar_data := butlast hs @ map Some (?xs @ [x])\<rparr>) = ?xs @ [x]"
    using p tail h by (intro array_invI [of _ "butlast hs" _ "[]"]) (auto simp: unat_pred)
  ultimately show ?thesis unfolding x_def by blast
qed

lemma reinsert_ok:
  assumes "array_inv a" "j < length (elements a)"
  shows "reinsert a j = None \<and> ar_tail a = 0 \<and> ar_head a = 0 \<or>
    (\<exists>b x. reinsert a j = Some b \<and> array_inv b \<and> elements b = elements a @ [x] \<and> x \<in> set (elements a))"
proof (cases "ar_tail a = 0"; cases "ar_head a = 0")
  assume "ar_tail a = 0" "ar_head a \<noteq> 0"
  moreover have "min (j + 1) (length (elements a) - 1) < length (elements a)" using assms(2) by auto
  ultimately show ?thesis using reinsert_head [OF assms] by (meson nth_mem)
qed (use reinsert_tail [OF assms] assms(2) in \<open>auto simp: reinsert_def Let_def\<close>)

text \<open>An entry changed in a way that keeps its offsets.\<close>

lemma entry_set_same:
  assumes s: "pool_struct hash equals p" and a: "ht_abs (mp_leases p) ident = Some a"
    and e: "mp_entries p a = Some e" and e': "entry_ok e'" "offs e' = offs e"
  shows "pool_struct hash equals (entry_set p a e')" "held (entry_set p a e') = held p"
proof -
  have h: "offs e' = held p ident" using e'(2) held_entry [of p, OF a e] by simp
  show "held (entry_set p a e') = held p"
    by (auto simp: fun_eq_iff held_entry_set [OF s a] h dest: held_equal [OF s, of _ ident])
  show "pool_struct hash equals (entry_set p a e')"
    by (rule struct_entry_set [OF s a e'(1)]) (use h struct_disjoint [OF s] in blast)
qed

lemma inv_frame:
  assumes "pool_inv hash equals p" "pool_struct hash equals q" "held q = held p" "same_frame p q"
  shows "pool_inv hash equals q"
  using assms by (simp add: pool_inv_def same_frame_def handed_out_def net_skip_def)

lemma inv_struct: "pool_inv hash equals p \<Longrightarrow> pool_struct hash equals p"
  by (simp add: pool_inv_def)

lemma held_nonzero:
  assumes "pool_inv hash equals p"
  shows "0 \<notin> held p k"
proof
  assume "0 \<in> held p k"
  then have "0 \<in> handed_out p" using assms by (auto simp: pool_inv_def)
  then show False by (simp add: handed_out_def)
qed

text \<open>The offline lease an entry offers first moves to its online leases.\<close>

lemma refresh_entry:
  assumes ok: "entry_ok e" and c: "elements (en_offline e) = c # cs"
  shows "array_enumerate (en_offline e) 0 = Some (Some c, 1) \<and>
    (\<exists>on ofl. array_insert (en_online e) ARRAY_TAIL \<lparr>ul_offset = c, ul_hash = h\<rparr> = Some on \<and>
       array_remove_at (en_offline e) 1 = Some (ofl, 0) \<and>
       entry_ok (e\<lparr>en_online := on, en_offline := ofl\<rparr>) \<and>
       offs (e\<lparr>en_online := on, en_offline := ofl\<rparr>) = offs e)"
proof -
  let ?l = "\<lparr>ul_offset = c, ul_hash = h\<rparr>"
  have on: "array_inv (en_online e)" and ofl: "array_inv (en_offline e)"
    and dist: "distinct (c # cs)" and disj: "ul_offset ` set (elements (en_online e)) \<inter> set (c # cs) = {}"
    using ok c by (simp_all add: entry_ok_def)
  obtain o1 where o1: "array_insert (en_online e) ARRAY_TAIL ?l = Some o1" "array_inv o1"
    "elements o1 = elements (en_online e) @ [?l]"
    using append_elements [OF on] by blast
  obtain o2 where o2: "array_remove_at (en_offline e) 1 = Some (o2, 0)" "array_inv o2" "elements o2 = cs"
    using array_remove_at_list [OF ofl, of 0] c by auto
  have "array_enumerate (en_offline e) 0 = Some (Some c, 1)"
    using array_enumerate_list [OF ofl, of 0] c by simp
  moreover have "entry_ok (e\<lparr>en_online := o1, en_offline := o2\<rparr>)"
    using o1 o2 dist disj by (auto simp: entry_ok_def)
  moreover have "offs (e\<lparr>en_online := o1, en_offline := o2\<rparr>) = offs e"
    using o1(3) o2(3) c by (auto simp: offs_def)
  ultimately show ?thesis using o1(1) o2(1) by blast
qed

lemma host2offset_total:
  assumes "pool_inv hash equals p" "mp_size p \<noteq> 0" "host_wf h"
  shows "host2offset p h \<noteq> None"
proof -
  obtain b where b: "mp_base p = Some b" "host_wf b" using assms by (auto simp: pool_inv_def)
  have "length (get_address x) = (if get_family x = AF_INET then 4 else 16)" if "host_wf x" for x
    using that by (auto simp: host_wf_def get_address_def get_family_def split: family.splits)
  then show ?thesis
    using b assms(3) host_wf_family [OF b(2)] by (auto simp: host2offset_def Let_def)
qed

text \<open>
  The outcomes of \<^const>\<open>get_existing\<close>: the pool keeps its invariant and an offset it returns is
  held by the identity; or the lease to insert again is left dangling.
\<close>

definition existing_outcome ::
  "('id \<Rightarrow> u32) \<Rightarrow> ('id \<Rightarrow> 'id \<Rightarrow> bool) \<Rightarrow> 'id mem_pool \<Rightarrow> 'id \<Rightarrow> host option \<Rightarrow>
   (u32 \<times> 'id mem_pool) option \<Rightarrow> bool" where
  "existing_outcome hash equals p ident peer r = (case r of
       None \<Rightarrow> peer \<noteq> None \<and> (\<exists>a e. ht_abs (mp_leases p) ident = Some a \<and> mp_entries p a = Some e \<and>
         elements (en_offline e) = [] \<and> ar_tail (en_online e) = 0 \<and> ar_head (en_online e) = 0)
     | Some (off, q) \<Rightarrow> pool_inv hash equals q \<and> same_frame p q \<and> held q = held p \<and>
         (if off = 0
          then (\<forall>a e. ht_abs (mp_leases p) ident = Some a \<and> mp_entries p a = Some e \<longrightarrow>
                  elements (en_offline e) = [])
          else off \<in> held p ident))"

lemma get_existing_offline:
  assumes inv: "pool_inv hash equals p" and a: "ht_abs (mp_leases p) ident = Some a"
    and e: "mp_entries p a = Some e" and c: "elements (en_offline e) = c # cs"
  shows "existing_outcome hash equals p ident peer (get_existing hi p ident requested peer)"
proof -
  note s = inv_struct [OF inv]
  have ok: "entry_ok e" using struct_entry [OF s a] e by auto
  obtain o1 o2 where r: "array_enumerate (en_offline e) 0 = Some (Some c, 1)"
    "array_insert (en_online e) ARRAY_TAIL \<lparr>ul_offset = c, ul_hash = hash_addr hi peer\<rparr> = Some o1"
    "array_remove_at (en_offline e) 1 = Some (o2, 0)"
    "entry_ok (e\<lparr>en_online := o1, en_offline := o2\<rparr>)"
    "offs (e\<lparr>en_online := o1, en_offline := o2\<rparr>) = offs e"
    using refresh_entry [OF ok c] by blast
  let ?q = "entry_set p a (e\<lparr>en_online := o1, en_offline := o2\<rparr>)"
  have ch: "c \<in> held p ident" using c by (simp add: held_entry [of p, OF a e] offs_def)
  then have nz: "c \<noteq> 0" using held_nonzero [OF inv] by metis
  then have "get_existing hi p ident requested peer = Some (c, ?q)"
    using a e r(1,2,3) by (simp add: get_existing_def ht_get_ok [OF struct_table [OF s]] Let_def)
  moreover have "pool_inv hash equals ?q"
    using inv_frame [OF inv] entry_set_same [OF s a e r(4,5)] by simp
  ultimately show ?thesis
    using entry_set_same [OF s a e r(4,5)] ch nz by (simp add: existing_outcome_def)
qed

lemma get_existing_online:
  assumes inv: "pool_inv hash equals p" and a: "ht_abs (mp_leases p) ident = Some a"
    and e: "mp_entries p a = Some e" and nil: "elements (en_offline e) = []"
    and peer: "peer \<noteq> None" and off: "host2offset p requested = Some off"
  shows "existing_outcome hash equals p ident peer (get_existing hi p ident requested peer)"
proof -
  note s = inv_struct [OF inv]
  have ok: "entry_ok e" using struct_entry [OF s a] e by auto
  then have on: "array_inv (en_online e)" and ofl: "array_inv (en_offline e)" by (simp_all add: entry_ok_def)
  have enum: "array_enumerate (en_offline e) 0 = Some (None, 0)"
    using array_enumerate_list [OF ofl, of 0] nil by simp
  have same: "entry_set p a e = p" using e by (simp add: entry_set_def fun_upd_idem)
  let ?f = "find_lease (ar_count (en_online e) + 1) (en_online e) 0 off (hash_addr hi peer)"
  have eq: "get_existing hi p ident requested peer = do {
      f \<leftarrow> ?f;
      case f of
        None \<Rightarrow> Some (0, p)
      | Some (offset, j) \<Rightarrow> do {
          on \<leftarrow> reinsert (en_online e) j;
          Some (offset, entry_set p a (e\<lparr>en_online := on\<rparr>))
        }
    }"
    using a e enum peer off
    by (auto simp: get_existing_def ht_get_ok [OF struct_table [OF s]] same)
  consider "?f = Some None"
    | j where "j < length (elements (en_online e))" "?f = Some (Some (off, j))"
      "ul_offset (elements (en_online e) ! j) = off"
    using find_lease_ok [OF on, of 0 "ar_count (en_online e) + 1"] elements_count [OF on] by force
  then show ?thesis
  proof cases
    case 1
    then show ?thesis using eq a e nil inv by (simp add: existing_outcome_def)
  next
    case 2
    have offh: "off \<in> held p ident" using 2 by (auto simp: held_entry [of p, OF a e] offs_def)
    then have nz: "off \<noteq> 0" using held_nonzero [OF inv] by metis
    from reinsert_ok [OF on 2(1)] show ?thesis
    proof (elim disjE exE conjE)
      assume "reinsert (en_online e) j = None" "ar_tail (en_online e) = 0" "ar_head (en_online e) = 0"
      then show ?thesis using eq 2(2) a e nil peer by (simp add: existing_outcome_def)
    next
      fix b x assume b: "reinsert (en_online e) j = Some b" "array_inv b"
        "elements b = elements (en_online e) @ [x]" "x \<in> set (elements (en_online e))"
      then have e': "entry_ok (e\<lparr>en_online := b\<rparr>)" "offs (e\<lparr>en_online := b\<rparr>) = offs e"
        using ok by (auto simp: entry_ok_def offs_def)
      have "pool_inv hash equals (entry_set p a (e\<lparr>en_online := b\<rparr>))"
        using inv_frame [OF inv] entry_set_same [OF s a e e'] by simp
      then show ?thesis
        using eq 2(2) b(1) entry_set_same [OF s a e e'] offh nz by (simp add: existing_outcome_def)
    qed
  qed
qed

lemma get_existing_ok:
  assumes inv: "pool_inv hash equals p" and "mp_size p \<noteq> 0" "host_wf requested"
  shows "existing_outcome hash equals p ident peer (get_existing hi p ident requested peer)"
proof (cases "ht_abs (mp_leases p) ident")
  case None
  then show ?thesis
    using inv by (simp add: get_existing_def ht_get_ok [OF struct_table [OF inv_struct [OF inv]]]
        existing_outcome_def)
next
  case (Some a)
  note s = inv_struct [OF inv]
  obtain e where e: "mp_entries p a = Some e" and ok: "entry_ok e" using struct_entry [OF s Some] by blast
  show ?thesis
  proof (cases "elements (en_offline e)")
    case (Cons c cs)
    then show ?thesis by (rule get_existing_offline [OF inv Some e])
  next
    case Nil
    obtain off where off: "host2offset p requested = Some off" using host2offset_total [OF assms] by blast
    have "array_enumerate (en_offline e) 0 = Some (None, 0)"
      using array_enumerate_list [of "en_offline e" 0] Nil ok by (simp add: entry_ok_def)
    moreover have "entry_set p a e = p" using e by (simp add: entry_set_def fun_upd_idem)
    ultimately have "peer = None \<Longrightarrow> get_existing hi p ident requested peer = Some (0, p)"
      using Some e by (simp add: get_existing_def ht_get_ok [OF struct_table [OF s]])
    then show ?thesis
      using get_existing_online [OF inv Some e Nil _ off] Some e Nil inv
      by (cases "peer = None") (auto simp: existing_outcome_def)
  qed
qed


section \<open>Reassigning\<close>

lemma pair_abs:
  assumes "ht_inv hash equals t" "pr \<in># contents t"
  shows "ht_abs t (pr_key pr) = Some (pr_value pr)"
proof -
  have "equals (pr_key pr) (pr_key pr)"
    using assms(1) by (auto simp: ht_inv_def hash_ok_def intro: equivp_reflp)
  then show ?thesis using assms(2) by (auto simp: ht_abs_Some [OF assms(1)])
qed

lemma ht_abs_unlink:
  assumes t: "ht_inv hash equals t" and u: "ht_inv hash equals u"
    and c: "contents t = add_mset pr (contents u)"
  shows "ht_abs u k = (if equals k (pr_key pr) then None else ht_abs t k)"
proof -
  have eq: "equivp equals" and dist: "keys_distinct equals (add_mset pr (contents u))"
    using t by (auto simp: ht_inv_def hash_ok_def c)
  then have fresh: "\<forall>q \<in># contents u. \<not> equals (pr_key pr) (pr_key q)"
    by (simp add: keys_distinct_add equivp_reflp_symp_transp)
  have trans: "equals k (pr_key pr) \<Longrightarrow> equals k l \<Longrightarrow> equals (pr_key pr) l" for l
    using eq by (meson equivp_symp equivp_transp)
  show ?thesis
  proof (cases "equals k (pr_key pr)")
    case True
    then have "ht_abs u k \<noteq> Some v" for v
      using fresh trans by (auto simp: ht_abs_Some [OF u])
    then show ?thesis using True by (cases "ht_abs u k") auto
  next
    case False
    then have "ht_abs u k = Some v \<longleftrightarrow> ht_abs t k = Some v" for v
      by (auto simp: ht_abs_Some [OF u] ht_abs_Some [OF t] c)
    then show ?thesis using False by (metis not_Some_eq)
  qed
qed

text \<open>An entry that loses offsets, and one that is removed.\<close>

lemma entry_set_subset:
  assumes s: "pool_struct hash equals p" and a: "ht_abs (mp_leases p) ident = Some a"
    and e: "mp_entries p a = Some e" and e': "entry_ok e'" "offs e' \<subseteq> offs e"
  shows "pool_struct hash equals (entry_set p a e')"
  by (rule struct_entry_set [OF s a e'(1)])
    (use e'(2) held_entry [of p, OF a e] struct_disjoint [OF s] in blast)

lemma entry_destroy_ok:
  assumes s: "pool_struct hash equals p" and u: "ht_inv hash equals u"
    and c: "contents (mp_leases p) = add_mset pr (contents u)"
  defines "q \<equiv> entry_destroy (p\<lparr>mp_leases := u\<rparr>) (pr_value pr)"
  shows "pool_struct hash equals q" "same_frame p q"
    "held q = (\<lambda>k. if equals k (pr_key pr) then {} else held p k)"
proof -
  note t = struct_table [OF s]
  have abs: "ht_abs (mp_leases q) k = (if equals k (pr_key pr) then None else ht_abs (mp_leases p) k)" for k
    using ht_abs_unlink [OF t u c] by (simp add: q_def entry_destroy_def)
  have a: "ht_abs (mp_leases p) (pr_key pr) = Some (pr_value pr)"
    by (rule pair_abs [OF t]) (simp add: c)
  have other: "\<not> equals k (pr_key pr) \<Longrightarrow> ht_abs (mp_leases p) k \<noteq> Some (pr_value pr)" for k
    using same_entry_iff [OF s a, of k] by simp
  have ent: "mp_entries q b = (if b = pr_value pr then None else mp_entries p b)" for b
    by (simp add: q_def entry_destroy_def)
  show held: "held q = (\<lambda>k. if equals k (pr_key pr) then {} else held p k)"
    using other by (auto simp: fun_eq_iff held_def abs ent split: option.splits)
  show "same_frame p q" by (simp add: q_def entry_destroy_def same_frame_def)
  show "pool_struct hash equals q"
    unfolding pool_struct_def
  proof (intro conjI allI impI)
    show "ht_inv hash equals (mp_leases q)" using u by (simp add: q_def entry_destroy_def)
    fix k k' b assume k: "ht_abs (mp_leases q) k = Some b"
    then have k2: "ht_abs (mp_leases p) k = Some b" "b \<noteq> pr_value pr"
      using other [of k] by (auto simp: abs split: if_splits)
    have "mp_next q = mp_next p" by (simp add: q_def entry_destroy_def)
    then show "b < mp_next q" "\<exists>e. mp_entries q b = Some e \<and> entry_ok e"
      using struct_entry [OF s k2(1)] k2(2) by (simp_all add: ent)
    assume "ht_abs (mp_leases q) k' = Some b"
    then have "ht_abs (mp_leases p) k' = Some b" by (auto simp: abs split: if_splits)
    then show "equals k k'" using s k2(1) by (simp add: pool_struct_def)
  next
    fix k k' assume "\<not> equals k k'"
    then show "held q k \<inter> held q k' = {}" using struct_disjoint [OF s] by (simp add: held)
  qed
qed

text \<open>One step of the loop on the pair an enumerator delivers.\<close>

lemma offline_head:
  assumes ok: "entry_ok e"
  shows "\<exists>ofl. array_remove (en_offline e) ARRAY_HEAD =
      Some (case elements (en_offline e) of [] \<Rightarrow> None | c # cs \<Rightarrow> Some c, ofl) \<and>
    entry_ok (e\<lparr>en_offline := ofl\<rparr>) \<and> elements ofl = tl (elements (en_offline e)) \<and>
    offs (e\<lparr>en_offline := ofl\<rparr>) =
      (case elements (en_offline e) of [] \<Rightarrow> offs e | c # cs \<Rightarrow> offs e - {c})"
proof (cases "elements (en_offline e)")
  case Nil
  then obtain b where "array_remove (en_offline e) ARRAY_HEAD = Some (None, b)" "array_inv b" "elements b = []"
    using ar.dequeue_empty [of "en_offline e"] ok by (auto simp: entry_ok_def ARRAY_HEAD_def)
  then show ?thesis using ok Nil by (simp add: entry_ok_def offs_def)
next
  case (Cons c cs)
  then obtain b where "array_remove (en_offline e) ARRAY_HEAD = Some (Some c, b)" "array_inv b" "elements b = cs"
    using ar.dequeue_law [of "en_offline e" c cs] ok by (auto simp: entry_ok_def ARRAY_HEAD_def)
  then show ?thesis using ok Cons by (auto simp: entry_ok_def offs_def)
qed

text \<open>An entry without leases is removed from the table while it is walked over.\<close>

lemma drop_if_empty:
  assumes s: "pool_struct hash equals p" and e: "mp_entries p (pr_value pr) = Some e"
    and en: "en_row en < length (ht_table (mp_leases p))" "en_current en = Some i"
      "i < length (ht_table (mp_leases p) ! en_row en)" "ht_table (mp_leases p) ! en_row en ! i = pr"
      "en_prev en = (if i = 0 then None else Some (i - 1))"
  shows "\<exists>q en'. (if array_count (Some (en_online e)) = 0 \<and> array_count (Some (en_offline e)) = 0
      then do { (u, en) \<leftarrow> ht_remove_at (mp_leases p) en;
                Some (entry_destroy (p\<lparr>mp_leases := u\<rparr>) (pr_value pr), en) }
      else Some (p, en)) = Some (q, en') \<and>
    pool_struct hash equals q \<and> same_frame p q \<and> rest (mp_leases q) en' = rest (mp_leases p) en \<and>
    en_count en' = en_count en \<and> (\<forall>b. b \<noteq> pr_value pr \<longrightarrow> mp_entries q b = mp_entries p b) \<and>
    held q = held p"
proof (cases "array_count (Some (en_online e)) = 0 \<and> array_count (Some (en_offline e)) = 0")
  case True
  note t = struct_table [OF s]
  have mem: "pr \<in># contents (mp_leases p)" using en(1,3,4) by (auto simp: set_contents)
  have a: "ht_abs (mp_leases p) (pr_key pr) = Some (pr_value pr)" by (rule pair_abs [OF t mem])
  have ok: "array_inv (en_online e)" "array_inv (en_offline e)"
    using struct_entry [OF s a] e by (auto simp: entry_ok_def)
  obtain u en2 where u: "ht_remove_at (mp_leases p) en = Some (u, en2)" "ht_inv hash equals u"
    "rest u en2 = rest (mp_leases p) en" "en_count en2 = en_count en"
    "contents (mp_leases p) = add_mset pr (contents u)"
    using ht_remove_at_rest [OF t en(1,2,3,5)] en(4) by auto
  note d = entry_destroy_ok [OF s u(2,5)]
  have "offs e = {}"
    using True elements_count [OF ok(1)] elements_count [OF ok(2)] by (simp add: array_count_def offs_def)
  then have "held p k = {}" if "equals k (pr_key pr)" for k
    using held_equal [OF s that] held_entry [of p, OF a e] by simp
  then have "held (entry_destroy (p\<lparr>mp_leases := u\<rparr>) (pr_value pr)) = held p"
    using d(3) by (auto simp: fun_eq_iff)
  then show ?thesis using True u d(1,2) by (simp add: entry_destroy_def)
qed (use s in auto)

lemma reassign_step:
  assumes s: "pool_struct hash equals p" and r: "rest (mp_leases p) en = pr # ps"
    and n: "en_count en = length (rest (mp_leases p) en)"
  shows "\<exists>e q en'. mp_entries p (pr_value pr) = Some e \<and> ht_abs (mp_leases p) (pr_key pr) = Some (pr_value pr) \<and>
    reassign_loop (Suc m) p en =
      (case elements (en_offline e) of
         c # cs \<Rightarrow> if c \<noteq> 0 then Some (c, q) else reassign_loop m q en'
       | [] \<Rightarrow> reassign_loop m q en') \<and>
    pool_struct hash equals q \<and> same_frame p q \<and> rest (mp_leases q) en' = ps \<and> en_count en' = length ps \<and>
    (\<forall>b. b \<noteq> pr_value pr \<longrightarrow> mp_entries q b = mp_entries p b) \<and>
    held q = (\<lambda>k. if equals k (pr_key pr)
      then (case elements (en_offline e) of [] \<Rightarrow> held p k | c # cs \<Rightarrow> held p k - {c}) else held p k)"
proof -
  let ?t = "mp_leases p" and ?a = "pr_value pr"
  note t = struct_table [OF s]
  have sized: "sized ?t" using t by (simp add: ht_inv_def)
  obtain en1 i where en1: "ht_enumerate ?t en = Some (Some (pr_key pr, ?a), en1)" "rest ?t en1 = ps"
    "en_count en1 = length ps" "en_row en1 < length (ht_table ?t)" "en_current en1 = Some i"
    "i < length (ht_table ?t ! en_row en1)" "ht_table ?t ! en_row en1 ! i = pr"
    "en_prev en1 = (if i = 0 then None else Some (i - 1))"
    using enumerate_Cons [OF sized r] n r by auto
  have mem: "pr \<in># contents ?t" using en1(4,6,7) by (auto simp: set_contents)
  have a: "ht_abs ?t (pr_key pr) = Some ?a" by (rule pair_abs [OF t mem])
  obtain e where e: "mp_entries p ?a = Some e" "entry_ok e" using struct_entry [OF s a] by blast
  obtain ofl where ofl: "array_remove (en_offline e) ARRAY_HEAD =
      Some (case elements (en_offline e) of [] \<Rightarrow> None | c # cs \<Rightarrow> Some c, ofl)"
    "entry_ok (e\<lparr>en_offline := ofl\<rparr>)"
    "offs (e\<lparr>en_offline := ofl\<rparr>) =
      (case elements (en_offline e) of [] \<Rightarrow> offs e | c # cs \<Rightarrow> offs e - {c})"
    using offline_head [OF e(2)] by blast
  define e1 p1 where "e1 = e\<lparr>en_offline := ofl\<rparr>" and "p1 = entry_set p ?a e1"
  have s1: "pool_struct hash equals p1"
    unfolding p1_def e1_def
    by (rule entry_set_subset [OF s a e(1) ofl(2)]) (auto simp: ofl(3) split: list.split)
  have f1: "same_frame p p1" "mp_leases p1 = ?t" "\<forall>b. b \<noteq> ?a \<longrightarrow> mp_entries p1 b = mp_entries p b"
    "mp_entries p1 ?a = Some e1"
    by (simp_all add: p1_def entry_set_def same_frame_def)
  obtain q en' where q: "(if array_count (Some (en_online e1)) = 0 \<and> array_count (Some (en_offline e1)) = 0
      then do { (u, en) \<leftarrow> ht_remove_at (mp_leases p1) en1;
                Some (entry_destroy (p1\<lparr>mp_leases := u\<rparr>) ?a, en) }
      else Some (p1, en1)) = Some (q, en')" "pool_struct hash equals q" "same_frame p1 q"
    "rest (mp_leases q) en' = ps" "en_count en' = length ps"
    "\<forall>b. b \<noteq> ?a \<longrightarrow> mp_entries q b = mp_entries p1 b" "held q = held p1"
    using drop_if_empty [OF s1 f1(4), of en1 i] en1 f1(2) by auto
  have "reassign_loop (Suc m) p en =
      (case elements (en_offline e) of
         c # cs \<Rightarrow> if c \<noteq> 0 then Some (c, q) else reassign_loop m q en'
       | [] \<Rightarrow> reassign_loop m q en')"
    using q(1) unfolding p1_def e1_def
    by (cases "elements (en_offline e)")
      (simp_all add: en1(1) e(1) ofl(1) Let_def split del: if_split cong: if_cong)
  moreover have "held q = (\<lambda>k. if equals k (pr_key pr)
      then (case elements (en_offline e) of [] \<Rightarrow> held p k | c # cs \<Rightarrow> held p k - {c}) else held p k)"
    unfolding q(7) p1_def held_entry_set [OF s a] e1_def ofl(3)
    using held_equal [OF s, of _ "pr_key pr"] held_entry [of p, OF a e(1)]
    by (auto simp: fun_eq_iff split: list.split)
  ultimately show ?thesis using e(1) a q(2,4-6) same_frame_trans [OF f1(1) q(3)] f1(3) by auto
qed

declare reassign_loop.simps [simp del]

lemma reassign_loop_ok:
  assumes "pool_struct hash equals p" "\<And>k. 0 \<notin> held p k"
    "en_count en = length (rest (mp_leases p) en)" "length (rest (mp_leases p) en) < n"
  shows "\<exists>off q. reassign_loop n p en = Some (off, q) \<and> pool_struct hash equals q \<and> same_frame p q \<and>
    (if off = 0
     then held q = held p \<and> (\<forall>pr \<in> set (rest (mp_leases p) en). \<forall>e.
       mp_entries p (pr_value pr) = Some e \<longrightarrow> elements (en_offline e) = [])
     else \<exists>k. off \<in> held p k \<and> held q = (\<lambda>k'. if equals k' k then held p k' - {off} else held p k'))"
  using assms
proof (induction n arbitrary: p en)
  case (Suc n)
  note s = Suc.prems(1) and nz = Suc.prems(2)
  show ?case
  proof (cases "rest (mp_leases p) en")
    case Nil
    then have "reassign_loop (Suc n) p en = Some (0, p)"
      using Suc.prems(3) by (simp add: reassign_loop.simps enumerate_None)
    then show ?thesis using s Nil by simp
  next
    case (Cons pr ps)
    obtain e q en' where st: "mp_entries p (pr_value pr) = Some e"
      "ht_abs (mp_leases p) (pr_key pr) = Some (pr_value pr)"
      "reassign_loop (Suc n) p en = (case elements (en_offline e) of
         c # cs \<Rightarrow> if c \<noteq> 0 then Some (c, q) else reassign_loop n q en'
       | [] \<Rightarrow> reassign_loop n q en')"
      "pool_struct hash equals q" "same_frame p q" "rest (mp_leases q) en' = ps" "en_count en' = length ps"
      "\<forall>b. b \<noteq> pr_value pr \<longrightarrow> mp_entries q b = mp_entries p b"
      "held q = (\<lambda>k. if equals k (pr_key pr)
        then (case elements (en_offline e) of [] \<Rightarrow> held p k | c # cs \<Rightarrow> held p k - {c}) else held p k)"
      using reassign_step [OF s Cons Suc.prems(3), of n] by blast
    show ?thesis
    proof (cases "elements (en_offline e)")
      case c: (Cons c cs)
      have ch: "c \<in> held p (pr_key pr)" using c by (simp add: held_entry [of p, OF st(2,1)] offs_def)
      then have "c \<noteq> 0" using nz by metis
      moreover have "held q = (\<lambda>k. if equals k (pr_key pr) then held p k - {c} else held p k)"
        by (simp only: st(9) c list.case)
      ultimately show ?thesis using st(3,4,5) c ch by auto
    next
      case nil: Nil
      have h: "held q = held p" by (simp only: st(9) nil list.case if_cancel)
      obtain off q2 where IH: "reassign_loop n q en' = Some (off, q2)" "pool_struct hash equals q2"
        "same_frame q q2" "if off = 0
          then held q2 = held p \<and> (\<forall>pr \<in> set ps. \<forall>e. mp_entries q (pr_value pr) = Some e \<longrightarrow> elements (en_offline e) = [])
          else \<exists>k. off \<in> held p k \<and> held q2 = (\<lambda>k'. if equals k' k then held p k' - {off} else held p k')"
        using Suc.IH [OF st(4), of en', unfolded h st(6)] st(7) Suc.prems(4) Cons nz by auto
      have "\<forall>pr \<in> set ps. \<forall>e. mp_entries q (pr_value pr) = Some e \<longrightarrow> elements (en_offline e) = [] \<Longrightarrow>
          \<forall>pr' \<in> set (pr # ps). \<forall>e. mp_entries p (pr_value pr') = Some e \<longrightarrow> elements (en_offline e) = []"
        using st(1,8) nil by (metis option.inject set_ConsD)
      then show ?thesis
        using IH st(3) nil h Cons same_frame_trans [OF st(5) IH(3)] by (auto split: if_splits)
    qed
  qed
qed simp

lemma get_reassigned_ok:
  assumes inv: "pool_inv hash equals p"
  shows "\<exists>off q. get_reassigned hi p ident peer = Some (off, q) \<and> pool_inv hash equals q \<and> same_frame p q \<and>
    (if off = 0
     then held q = held p \<and> (\<forall>k a e. ht_abs (mp_leases p) k = Some a \<and> mp_entries p a = Some e \<longrightarrow>
       elements (en_offline e) = [])
     else off \<in> held q ident)"
proof -
  note s = inv_struct [OF inv]
  let ?t = "mp_leases p" and ?en = "ht_create_enumerator (mp_leases p)"
  have r: "rest ?t ?en = concat (ht_table ?t)"
    by (cases "ht_table ?t") (auto simp: rest_def ht_create_enumerator_def position_def)
  then have len: "en_count ?en = length (rest ?t ?en)" "length (rest ?t ?en) < ht_count ?t + 1"
    using struct_table [OF s] by (simp_all add: contents_def ht_inv_def ht_create_enumerator_def)
  obtain off q where q: "reassign_loop (ht_count ?t + 1) p ?en = Some (off, q)" "pool_struct hash equals q"
    "same_frame p q" "if off = 0
     then held q = held p \<and> (\<forall>pr \<in> set (rest ?t ?en). \<forall>e.
       mp_entries p (pr_value pr) = Some e \<longrightarrow> elements (en_offline e) = [])
     else \<exists>k. off \<in> held p k \<and> held q = (\<lambda>k'. if equals k' k then held p k' - {off} else held p k')"
    using reassign_loop_ok [OF s held_nonzero [OF inv] len] by blast
  show ?thesis
  proof (cases "off = 0")
    case True
    have "elements (en_offline e) = []" if "ht_abs ?t k = Some a" "mp_entries p a = Some e" for k a e
      using q(4) True that by (auto simp: ht_abs_Some [OF struct_table [OF s]] contents_def r)
    then show ?thesis
      using q True inv_frame [OF inv q(2)] by (auto simp: get_reassigned_def)
  next
    case False
    then obtain k where k: "off \<in> held p k"
      "held q = (\<lambda>k'. if equals k' k then held p k' - {off} else held p k')"
      using q(4) by auto
    let ?l = "\<lparr>ul_offset = off, ul_hash = hash_addr hi peer\<rparr>"
    have free: "ul_offset ?l \<notin> held q k'" for k'
      using k struct_disjoint [OF s, of k' k] by auto
    obtain a q1 q2 where a: "get_entry q ident = Some (a, q1)" "add_online q1 a ?l = Some q2"
      "pool_struct hash equals q2" "same_frame q q2"
      "held q2 = (\<lambda>k. if equals k ident then insert (ul_offset ?l) (held q k) else held q k)"
      using entry_add_online [OF q(2) free, of ident] by blast
    have "off \<in> held q2 ident" using struct_equiv(1) [OF s] by (simp add: a(5))
    moreover have other: "x \<in> held q2 k' \<longleftrightarrow> x \<in> held p k'" if "x \<noteq> off" for x k'
      using that by (simp add: a(5) k(2))
    ultimately have "x \<in> (\<Union>k. held q2 k) \<longleftrightarrow> x \<in> (\<Union>k. held p k)" for x
      using k(1) by (cases "x = off") (blast, simp)
    then have "(\<Union>k. held q2 k) = (\<Union>k. held p k)" by blast
    then have "pool_inv hash equals q2"
      using inv a(3) same_frame_trans [OF q(3) a(4)]
      by (simp add: pool_inv_def same_frame_def handed_out_def net_skip_def)
    moreover have "off \<in> held q2 ident" using struct_equiv(1) [OF s] by (simp add: a(5))
    ultimately show ?thesis
      using q(1) False a(1,2) same_frame_trans [OF q(3) a(4)] by (auto simp: get_reassigned_def)
  qed
qed


section \<open>Addresses\<close>

text \<open>The part of an address a pool counts in, and the part in front of it.\<close>

definition low32 :: "host \<Rightarrow> u32" where
  "low32 h = untoh32 (drop (length (get_address h) - 4) (get_address h))"

definition high_part :: "host \<Rightarrow> bytes" where
  "high_part h = take (length (get_address h) - 4) (get_address h)"

lemma address_length:
  "host_wf h \<Longrightarrow> length (get_address h) = (if get_family h = AF_INET6 then 16 else 4)"
  by (auto simp: host_wf_def get_address_def get_family_def split: family.splits)

lemma htoun32_low: "length bs = 4 \<Longrightarrow> untoh32 bs = w \<longleftrightarrow> bs = htoun32 w"
  using htoun32_untoh32 by auto

lemma host_parts:
  assumes "host_wf g" "host_wf h" "get_family g = get_family h"
  shows "low32 g = low32 h \<and> high_part g = high_part h \<longleftrightarrow> get_address g = get_address h"
proof -
  have len: "length (get_address g) = length (get_address h)" "4 \<le> length (get_address h)"
    using assms by (auto simp: address_length)
  let ?n = "length (get_address h) - 4"
  have "low32 g = low32 h \<longleftrightarrow> drop ?n (get_address g) = drop ?n (get_address h)"
    using len htoun32_untoh32 [of "drop ?n (get_address g)"] htoun32_untoh32 [of "drop ?n (get_address h)"]
    unfolding low32_def by (metis diff_diff_cancel length_drop)
  then show ?thesis
    unfolding high_part_def len(1) by (metis append_take_drop_id)
qed

lemma load_tail: "4 \<le> length m \<Longrightarrow> load m (length m - 4) 4 = Some (drop (length m - 4) m)"
  by (simp add: load_def)

lemma store_tail:
  "4 \<le> length m \<Longrightarrow> store m (length m - 4) (htoun32 w) = Some (take (length m - 4) m @ htoun32 w)"
  by (simp add: store_def)

lemma offset2host_ok:
  assumes b: "mp_base p = Some b" "host_wf b" and off: "off - 1 \<le> mp_size p"
  shows "\<exists>h. offset2host p off = Some (Some h) \<and> host_wf h \<and> get_family h = get_family b \<and>
    high_part h = high_part b \<and> low32 h = low32 b + (off - 1)"
proof -
  let ?a = "get_address b" and ?f = "get_family b"
  have fam: "?f = AF_INET \<or> ?f = AF_INET6" by (rule host_wf_family [OF b(2)])
  have len: "length ?a = (if ?f = AF_INET6 then 16 else 4)" by (rule address_length [OF b(2)])
  then have pos: "(if ?f = AF_INET6 then 12 else 0) = length ?a - 4" "4 \<le> length ?a" by simp_all
  let ?addr = "take (length ?a - 4) ?a @ htoun32 (off - 1 + low32 b)"
  have "offset2host p off = Some (host_create_from_chunk ?f ?addr 0)"
    using leD [OF off] b(1)
    by (simp add: offset2host_def Let_def pos load_tail store_tail low32_def split del: if_split)
  moreover obtain h where h: "host_create_from_chunk ?f ?addr 0 = Some h"
    "get_family h = ?f" "get_address h = ?addr"
    using fam len by (auto simp: host_create_from_chunk_def get_family_def get_address_def)
  moreover have "high_part h = high_part b" "low32 h = low32 b + (off - 1)"
    using h(3) pos(2) by (simp_all add: high_part_def low32_def add.commute)
  ultimately show ?thesis using host_wf_from_chunk [OF h(1)] by auto
qed

lemma offset_in_range:
  assumes "pool_inv hash equals p" "off \<in> handed_out p"
  shows "off - 1 \<le> mp_size p" "off \<noteq> 0"
proof -
  have "unat off \<le> net_skip p + unat (mp_size p)" "net_skip p < unat off" "net_skip p \<le> 1"
    using assms by (auto simp: pool_inv_def handed_out_def word_le_nat_alt net_skip_def)
  then have "unat off - 1 \<le> unat (mp_size p)" "unat off > 0" by linarith+
  moreover from this have "unat (off - 1) = unat off - 1" by (metis unat_gt_0 unat_minus_one)
  ultimately show "off - 1 \<le> mp_size p" "off \<noteq> 0" by (auto simp: word_le_nat_alt)
qed

lemma held_offset2host:
  assumes inv: "pool_inv hash equals p" and b: "mp_base p = Some b" "host_wf b" and off: "off \<in> held p k"
  shows "\<exists>h. offset2host p off = Some (Some h) \<and> host_wf h \<and> get_family h = get_family b \<and>
    high_part h = high_part b \<and> low32 h = low32 b + (off - 1)"
proof -
  have "off \<in> handed_out p" using inv off by (auto simp: pool_inv_def)
  then show ?thesis using offset2host_ok [OF b] offset_in_range [OF inv] by blast
qed

text \<open>The addresses an identity holds.\<close>

definition held_addresses :: "'id mem_pool \<Rightarrow> 'id \<Rightarrow> bytes set" where
  "held_addresses p k = {get_address h | h off. off \<in> held p k \<and> offset2host p off = Some (Some h)}"

lemma addresses_disjoint:
  assumes inv: "pool_inv hash equals p" and size: "mp_size p \<noteq> 0" and ne: "\<not> equals k k'"
  shows "held_addresses p k \<inter> held_addresses p k' = {}"
proof (rule equals0I)
  fix x assume "x \<in> held_addresses p k \<inter> held_addresses p k'"
  then obtain g h o1 o2 where g: "x = get_address g" "o1 \<in> held p k" "offset2host p o1 = Some (Some g)"
    and h: "x = get_address h" "o2 \<in> held p k'" "offset2host p o2 = Some (Some h)"
    unfolding held_addresses_def by blast
  obtain b where b: "mp_base p = Some b" "host_wf b" using inv size by (auto simp: pool_inv_def)
  have "low32 g = low32 b + (o1 - 1)" "low32 h = low32 b + (o2 - 1)"
    using held_offset2host [OF inv b g(2)] held_offset2host [OF inv b h(2)] g(3) h(3) by auto
  moreover have "low32 g = low32 h" using g(1) h(1) by (simp add: low32_def)
  ultimately have "o1 = o2" by simp
  then show False using struct_disjoint [OF inv_struct [OF inv] ne] g(2) h(2) by auto
qed

lemma host2offset_back:
  assumes b: "mp_base p = Some b" "host_wf b" and h: "host_wf h" "get_family h = get_family b"
    "high_part h = high_part b" "low32 h = low32 b + (off - 1)"
    and off: "off - 1 \<le> mp_size p" and room: "unat (low32 b) + unat (mp_size p) < 2 ^ 32"
  shows "host2offset p h = Some off"
proof -
  have len: "length (get_address h) = length (get_address b)" "4 \<le> length (get_address b)"
    using address_length [OF b(2)] address_length [OF h(1)] h(2) by auto
  have pos: "(if get_family h = AF_INET6 then 12 else 0) = length (get_address b) - 4"
    using address_length [OF b(2)] h(2) by simp
  have twelve: "(get_family b = AF_INET6 \<and> take 12 (get_address h) \<noteq> take 12 (get_address b)) = False"
    using h(3) len(1) address_length [OF b(2)] by (auto simp: high_part_def)
  have "unat (off - 1) \<le> unat (mp_size p)" using off by (simp add: word_le_nat_alt)
  then have "unat (low32 h) \<le> unat (low32 b + mp_size p)"
    using room h(4) by (simp add: unat_word_ariths)
  then have ld: "load (get_address h) (length (get_address b) - 4) 4 = Some (drop (length (get_address b) - 4) (get_address h))"
    "load (get_address b) (length (get_address b) - 4) 4 = Some (drop (length (get_address b) - 4) (get_address b))"
    and le: "\<not> low32 h > low32 b + mp_size p"
    using load_tail [of "get_address h"] load_tail [of "get_address b"] len by (simp_all add: word_le_nat_alt not_less)
  show ?thesis
    using le
    by (simp add: host2offset_def Let_def b(1) h(2) twelve pos [unfolded h(2)] ld split del: if_split)
      (simp add: h(4) flip: low32_def [of b] low32_def [of h, unfolded len(1)])
qed


section \<open>Operations on the pool\<close>

lemma release_ok:
  assumes inv: "pool_inv hash equals p" and wf: "host_wf addr"
  shows "\<exists>f q. release_address p addr ident = Some (f, q) \<and> pool_inv hash equals q \<and> same_frame p q \<and>
    held q = held p"
proof (cases "mp_size p = 0")
  case True
  then show ?thesis using inv by (auto simp: release_address_def)
next
  case False
  note s = inv_struct [OF inv]
  note get = ht_get_ok [OF struct_table [OF s]]
  show ?thesis
  proof (cases "ht_abs (mp_leases p) ident")
    case None
    then show ?thesis using inv False by (auto simp: release_address_def get)
  next
    case (Some a)
    obtain e where e: "mp_entries p a = Some e" "entry_ok e" using struct_entry [OF s Some] by blast
    obtain off where off: "host2offset p addr = Some off" using host2offset_total [OF inv False wf] by blast
    obtain more on ofl where r: "release_loop (ar_count (en_online e) + 1) (en_online e) 0 off False =
        Some (off \<in> ul_offset ` set (elements (en_online e)), more, on)"
      "(if off \<in> ul_offset ` set (elements (en_online e)) \<and> \<not> more
        then array_insert (en_offline e) ARRAY_TAIL off else Some (en_offline e)) = Some ofl"
      "entry_ok (e\<lparr>en_online := on, en_offline := ofl\<rparr>)"
      "offs (e\<lparr>en_online := on, en_offline := ofl\<rparr>) = offs e"
      using release_entry_ok [OF e(2)] by blast
    let ?q = "entry_set p a (e\<lparr>en_online := on, en_offline := ofl\<rparr>)"
    have "release_address p addr ident = Some (off \<in> ul_offset ` set (elements (en_online e)), ?q)"
      using False Some e(1) off r(1,2)
      by (simp add: release_address_def get split del: if_split del: release_loop.simps)
    then show ?thesis
      using entry_set_same [OF s Some e(1) r(3,4)] inv_frame [OF inv] by simp
  qed
qed

text \<open>The outcomes of \<^const>\<open>acquire_address\<close>.\<close>

definition dangling :: "'id mem_pool \<Rightarrow> 'id \<Rightarrow> bool" where
  "dangling p ident \<longleftrightarrow> (\<exists>a e. ht_abs (mp_leases p) ident = Some a \<and> mp_entries p a = Some e \<and>
     elements (en_offline e) = [] \<and> ar_tail (en_online e) = 0 \<and> ar_head (en_online e) = 0)"

definition same_pool :: "'id mem_pool \<Rightarrow> 'id mem_pool \<Rightarrow> bool" where
  "same_pool p q \<longleftrightarrow> mp_base q = mp_base p \<and> mp_size q = mp_size p \<and> net_skip q = net_skip p"

lemma same_frame_pool: "same_frame p q \<Longrightarrow> same_pool p q"
  by (simp add: same_frame_def same_pool_def net_skip_def)

definition lease_op :: "hash_inc \<Rightarrow> 'id mem_pool \<Rightarrow> 'id \<Rightarrow> host \<Rightarrow> mem_pool_op \<Rightarrow> host option \<Rightarrow>
    (u32 \<times> 'id mem_pool) option" where
  "lease_op hi p ident requested operation peer = (case operation of
       MEM_POOL_EXISTING \<Rightarrow> get_existing hi p ident requested peer
     | MEM_POOL_NEW \<Rightarrow> get_new hi p ident peer
     | MEM_POOL_REASSIGN \<Rightarrow> get_reassigned hi p ident peer)"

lemma lease_op_ok:
  assumes inv: "pool_inv hash equals p" and "mp_size p \<noteq> 0" "host_wf requested"
  shows "(case lease_op hi p ident requested operation peer of
      None \<Rightarrow> operation = MEM_POOL_EXISTING \<and> peer \<noteq> None \<and> dangling p ident
    | Some (off, q) \<Rightarrow> pool_inv hash equals q \<and> same_pool p q \<and> (off \<noteq> 0 \<longrightarrow> off \<in> held q ident))"
proof (cases operation)
  case MEM_POOL_EXISTING
  then show ?thesis
    using get_existing_ok [OF assms, of ident peer hi] same_frame_pool
    by (auto simp: lease_op_def existing_outcome_def dangling_def split: option.splits if_splits)
next
  case MEM_POOL_NEW
  then show ?thesis
    using get_new_ok [OF inv, of hi ident peer] struct_equiv(1) [OF inv_struct [OF inv]]
    by (auto simp: lease_op_def same_pool_def split: if_splits)
next
  case MEM_POOL_REASSIGN
  then show ?thesis
    using get_reassigned_ok [OF inv, of hi ident peer] same_frame_pool
    by (auto simp: lease_op_def split: if_splits)
qed

lemma acquire_address_eq:
  assumes "mp_size p \<noteq> 0" "mp_base p = Some b" "get_family requested = get_family b"
  shows "acquire_address hi p ident requested operation peer = do {
    (offset, this) \<leftarrow> lease_op hi p ident requested operation peer;
    if offset \<noteq> 0 then do { host \<leftarrow> offset2host this offset; Some (host, this) } else Some (None, this)
  }"
  using assms by (simp add: acquire_address_def lease_op_def)

lemma acquire_ok:
  assumes inv: "pool_inv hash equals p" and wf: "host_wf requested"
  shows "(case acquire_address hi p ident requested operation peer of
      None \<Rightarrow> operation = MEM_POOL_EXISTING \<and> peer \<noteq> None \<and> dangling p ident
    | Some (r, q) \<Rightarrow> pool_inv hash equals q \<and> same_pool p q \<and>
        (mp_size p \<noteq> 0 \<longrightarrow> (\<forall>h. r = Some h \<longrightarrow> get_address h \<in> held_addresses q ident)))"
proof (cases "mp_size p = 0")
  case True
  then show ?thesis using inv by (simp add: acquire_address_def same_pool_def)
next
  case False
  then obtain b where b: "mp_base p = Some b" "host_wf b" using inv by (auto simp: pool_inv_def)
  show ?thesis
  proof (cases "get_family requested = get_family b")
    case True
    note eq = acquire_address_eq [OF False b(1) True]
    show ?thesis
    proof (cases "lease_op hi p ident requested operation peer")
      case None
      then show ?thesis using lease_op_ok [OF inv False wf, where hi = hi and ident = ident and operation = operation and peer = peer] eq by simp
    next
      case (Some oq)
      then obtain off q where op: "lease_op hi p ident requested operation peer = Some (off, q)"
        "pool_inv hash equals q" "same_pool p q" "off \<noteq> 0 \<longrightarrow> off \<in> held q ident"
        using lease_op_ok [OF inv False wf, where hi = hi and ident = ident and operation = operation and peer = peer] by (cases oq) auto
      have b': "mp_base q = Some b" using op(3) b(1) by (simp add: same_pool_def)
      show ?thesis
      proof (cases "off = 0")
        case True
        then show ?thesis using eq op by simp
      next
        case nz: False
        then obtain h where "offset2host q off = Some (Some h)"
          using held_offset2host [OF op(2) b' b(2)] op(4) by blast
        then show ?thesis using eq op nz by (auto simp: held_addresses_def)
      qed
    qed
  next
    case ne: False
    then show ?thesis using inv False b by (simp add: acquire_address_def same_pool_def)
  qed
qed

text \<open>Creation.\<close>

lemma fresh_inv:
  assumes "hash_ok hash equals" "mp_leases p = hashtable_create hash equals 16"
    "mp_unused p = 0" "net_skip p + unat (mp_size p) < 2 ^ 32"
    "mp_size p \<noteq> 0 \<longrightarrow> (\<exists>b. mp_base p = Some b \<and> host_wf b)"
  shows "pool_inv hash equals p"
proof -
  have t: "ht_inv hash equals (mp_leases p)" "ht_abs (mp_leases p) k = None" for k
    using hashtable_create_ok [OF assms(1,2)] by (simp_all add: fun_eq_iff)
  then have "held p k = {}" for k by (simp add: held_def)
  then show ?thesis
    using assms t by (auto simp: pool_inv_def pool_struct_def handed_out_def)
qed

text \<open>The number of host bits of a pool.\<close>

definition host_bits :: "host \<Rightarrow> int \<Rightarrow> nat" where
  "host_bits base bits =
     (let len = (if get_family base = AF_INET then 32 else 128)
      in min 31 (nat (len - max 0 (min bits len))))"

lemma host_bits_le: "host_bits base bits \<le> 31"
  by (simp add: host_bits_def Let_def)

lemma host_bits_limit:
  "(if nat ((if get_family b = AF_INET then 32 else 128) -
        max 0 (min bits (if get_family b = AF_INET then 32 else 128))) > POOL_LIMIT then POOL_LIMIT
      else nat ((if get_family b = AF_INET then 32 else 128) -
        max 0 (min bits (if get_family b = AF_INET then 32 else 128)))) = host_bits b bits"
  by (simp add: host_bits_def POOL_LIMIT_def Let_def min_def)

lemma shift_out: "n \<le> 32 \<Longrightarrow> drop_bit (32 - n) (push_bit (32 - n) (w :: u32)) = take_bit n w"
  by (rule bit_word_eqI) (auto simp: bit_simps)

lemma network_id_diff_ok:
  assumes "host_wf b" "n \<le> 31"
  shows "\<exists>d. network_id_diff b n = Some d \<and> unat d = unat (low32 b) mod 2 ^ n"
proof (cases "n = 0")
  case False
  have "4 \<le> length (get_address b)" using address_length [OF assms(1)] by simp
  then have "network_id_diff b n = Some (take_bit n (low32 b))"
    using False assms(2) by (simp add: network_id_diff_def load_tail Let_def low32_def shift_out)
  moreover have "unat (take_bit n (low32 b)) = take_bit n (unat (low32 b))"
    by (simp add: unsigned_take_bit_eq)
  ultimately show ?thesis by (metis take_bit_nat_def)
qed (simp add: network_id_diff_def)

lemma unat_pool_size: "n \<le> 31 \<Longrightarrow> unat (push_bit n 1 :: u32) = 2 ^ n"
  using unat_exp [of n] by (simp add: push_bit_eq_mult)

text \<open>Size and first offset of a pool made from a subnet with \<open>n\<close> host bits.\<close>

lemma mem_pool_create_shape:
  assumes wf: "host_wf b" and p: "mem_pool_create hash equals name (Some b) bits = Some p"
  defines "n \<equiv> host_bits b bits" and "d \<equiv> unat (low32 b) mod 2 ^ host_bits b bits"
  shows "mp_base p = Some b" "mp_unused p = 0" "mp_leases p = hashtable_create hash equals 16"
    "net_skip p = (if n \<ge> 2 \<and> d = 0 then 1 else 0)"
    "unat (mp_size p) = (if n \<ge> 2 then (if d = 0 then 2 ^ n - 2 else 2 ^ n - d - 1)
                         else if d \<noteq> 0 then 2 ^ n - 1 else 2 ^ n)"
proof -
  have n: "n \<le> 31" unfolding n_def by (rule host_bits_le)
  obtain w where w: "network_id_diff b n = Some w" "unat w = d"
    using network_id_diff_ok [OF wf n] by (auto simp: d_def n_def)
  define c where "c = (create_generic hash equals name)\<lparr>mp_size := push_bit n 1, mp_base := Some b\<rparr>"
  have create: "p = (if mp_size c > 2
        then (let this = (if w = 0
                          then c\<lparr>base_is_network_id := True, mp_size := mp_size c - 1\<rparr>
                          else c\<lparr>mp_size := mp_size c - w\<rparr>)
              in this\<lparr>mp_size := mp_size this - 1\<rparr>)
        else if w \<noteq> 0 then c\<lparr>mp_size := mp_size c - 1\<rparr> else c)"
    using p unfolding mem_pool_create_def Let_def option.case host_bits_limit n_def [symmetric] w(1) c_def by simp
  have size: "unat (mp_size c) = 2 ^ n" using unat_pool_size [OF n] by (simp add: c_def)
  have two: "mp_size c > 2 \<longleftrightarrow> n \<ge> 2"
  proof -
    have "(2 :: nat) < 2 ^ n \<longleftrightarrow> n \<ge> 2"
      using power_strict_increasing_iff [of "2 :: nat" 1 n] by auto
    then show ?thesis using size by (simp add: word_less_nat_alt)
  qed
  have dlt: "d < 2 ^ n" by (simp add: d_def n_def)
  have w0: "w = 0 \<longleftrightarrow> d = 0" using w(2) by (auto simp: unat_eq_0)
  have c: "mp_base c = Some b" "mp_unused c = 0" "mp_leases c = hashtable_create hash equals 16"
    "\<not> base_is_network_id c"
    by (simp_all add: c_def create_generic_def)
  show "mp_base p = Some b" "mp_unused p = 0" "mp_leases p = hashtable_create hash equals 16"
    "net_skip p = (if n \<ge> 2 \<and> d = 0 then 1 else 0)"
    unfolding create two w0 using c by (simp_all add: Let_def net_skip_def)
  have sub: "unat (x - y) = unat x - unat y" if "unat y \<le> unat x" for x y :: u32
    using that by (simp add: unat_sub word_le_nat_alt)
  have pow: "n \<ge> 2 \<Longrightarrow> (4 :: nat) \<le> 2 ^ n" using power_increasing [of 2 n "2 :: nat"] by simp
  show "unat (mp_size p) = (if n \<ge> 2 then (if d = 0 then 2 ^ n - 2 else 2 ^ n - d - 1)
                         else if d \<noteq> 0 then 2 ^ n - 1 else 2 ^ n)"
    unfolding create two w0
    using sub [of 1 "mp_size c"] sub [of w "mp_size c"] sub [of 1 "mp_size c - 1"]
      sub [of 1 "mp_size c - w"] size w(2) dlt pow
    by (auto simp: Let_def)
qed

lemma mem_pool_create_inv:
  assumes "hash_ok hash equals" "host_wf b" "mem_pool_create hash equals name (Some b) bits = Some p"
  shows "pool_inv hash equals p"
proof -
  note shape = mem_pool_create_shape [OF assms(2,3)]
  have "(2 :: nat) ^ host_bits b bits \<le> 2 ^ 31" using host_bits_le by (intro power_increasing) auto
  then have "net_skip p + unat (mp_size p) < 2 ^ 32" unfolding shape(4,5) by auto
  then show ?thesis using fresh_inv [OF assms(1) shape(3,2)] shape(1) assms(2) by blast
qed

lemma mem_pool_create_total:
  assumes "host_wf b"
  shows "\<exists>p. mem_pool_create hash equals name (Some b) bits = Some p"
proof -
  obtain w where "network_id_diff b (host_bits b bits) = Some w"
    using network_id_diff_ok [OF assms host_bits_le] by blast
  then show ?thesis
    unfolding mem_pool_create_def Let_def option.case host_bits_limit by simp
qed

lemma mem_pool_create_range_inv:
  assumes "hash_ok hash equals" "host_wf from" "mem_pool_create_range hash equals name from to = Some (Some p)"
  shows "pool_inv hash equals p"
proof -
  have "mp_leases p = hashtable_create hash equals 16" "mp_unused p = 0" "mp_base p = Some from"
    "net_skip p = 0"
    using assms(3) by (auto simp: mem_pool_create_range_def Let_def create_generic_def net_skip_def
        split: if_splits bind_splits)
  moreover have "unat (mp_size p) < 2 ^ 32" using unsigned_less [where ?'a = nat, of "mp_size p"] by simp
  ultimately show ?thesis using fresh_inv [OF assms(1)] assms(2) by simp
qed


section \<open>Properties\<close>

text \<open>The states of a pool: it is created and then used in any order by any identities.\<close>

inductive pool_run :: "hash_inc \<Rightarrow> 'id mem_pool \<Rightarrow> 'id mem_pool \<Rightarrow> bool" for hi p0 where
  start: "pool_run hi p0 p0"
| acquire: "pool_run hi p0 p \<Longrightarrow> host_wf requested \<Longrightarrow>
    acquire_address hi p ident requested operation peer = Some (r, q) \<Longrightarrow> pool_run hi p0 q"
| release: "pool_run hi p0 p \<Longrightarrow> host_wf addr \<Longrightarrow>
    release_address p addr ident = Some (f, q) \<Longrightarrow> pool_run hi p0 q"

lemma pool_run_inv:
  assumes "pool_run hi p0 p" "pool_inv hash equals p0"
  shows "pool_inv hash equals p \<and> same_pool p0 p"
  using assms
proof (induction rule: pool_run.induct)
  case (acquire p requested ident operation peer r q)
  then show ?case
    using acquire_ok [of hash equals p requested operation peer ident hi] by (auto simp: same_pool_def)
next
  case (release p addr ident f q)
  then have "pool_inv hash equals q" "same_frame p q"
    using release_ok [of hash equals p addr ident] by auto
  then show ?case using release same_frame_pool [of p q] by (auto simp: same_pool_def)
qed (simp add: same_pool_def)

lemma created_run:
  assumes "equivp equals" "\<forall>k k'. equals k k' \<longrightarrow> hash k = hash k'" "host_wf base"
    "mem_pool_create hash equals name (Some base) bits = Some p0" "pool_run hi p0 p"
  shows "pool_inv hash equals p \<and> same_pool p0 p"
  using pool_run_inv [OF assms(5) mem_pool_create_inv [OF _ assms(3,4)]] assms(1,2)
  by (simp add: hash_ok_def)


text \<open>A pool for the witnesses: 10.0.0.0/30, identities are numbers.\<close>

definition wit_base :: host where
  "wit_base = \<lparr>sa_family = AF_INET, sin_addr = [10, 0, 0, 0], sin_port = [0, 0], socklen = 16\<rparr>"

definition wit_hash :: hash_inc where
  "wit_hash bs w = w + of_nat (length bs)"

lemma wit_base_wf: "host_wf wit_base"
  by (simp add: host_wf_def wit_base_def)

lemma wit_pool:
  "\<exists>p0 r p. mem_pool_create of_nat (=) ''pool'' (Some wit_base) 30 = Some (p0 :: nat mem_pool) \<and>
     mp_size p0 = 2 \<and> acquire_address wit_hash p0 7 wit_base MEM_POOL_NEW None = Some (r, p) \<and>
     pool_run wit_hash p0 p \<and> 2 \<in> held p 7"
proof -
  obtain p0 where p0: "mem_pool_create of_nat (=) ''pool'' (Some wit_base) 30 = Some (p0 :: nat mem_pool)"
    using mem_pool_create_total [OF wit_base_wf] by blast
  note shape = mem_pool_create_shape [OF wit_base_wf p0]
  have bits: "host_bits wit_base 30 = 2" "low32 wit_base = 0x0a000000" by code_simp+
  have size: "mp_size p0 = 2" and skip: "base_is_network_id p0"
    using shape(4,5) by (auto simp: bits word_unat_eq_iff net_skip_def split: if_splits)
  have inv: "pool_inv of_nat (=) p0"
    using mem_pool_create_inv [OF _ wit_base_wf p0] by (simp add: hash_ok_def identity_equivp)
  have off: "off = 2" if "get_new wit_hash p0 7 None = Some (off, q)" for off q
    using that shape(2) size skip
    by (auto simp: get_new_def Let_def get_entry_def entry_create_def split: bind_splits option.splits)
  have lt: "mp_unused p0 < mp_size p0" using size shape(2) by simp
  have new: "get_new wit_hash p0 7 None = Some (off, q) \<Longrightarrow>
      pool_inv of_nat (=) q \<and> mp_base q = Some wit_base \<and> off \<in> held q 7" for off q
    using get_new_ok [OF inv, of wit_hash 7 None] lt shape(1) by auto
  moreover obtain off q where g: "get_new wit_hash p0 7 None = Some (off, q)"
    using get_new_ok [OF inv, of wit_hash 7 None] by blast
  ultimately have q: "get_new wit_hash p0 7 None = Some (2, q)" "pool_inv of_nat (=) q"
    "mp_base q = Some wit_base" "2 \<in> held q 7"
    using off [OF g] by auto
  obtain h where "offset2host q 2 = Some (Some h)"
    using held_offset2host [OF q(2,3) wit_base_wf q(4)] by blast
  then have a: "acquire_address wit_hash p0 7 wit_base MEM_POOL_NEW None = Some (Some h, q)"
    using acquire_address_eq [OF _ shape(1) refl, of wit_hash 7 MEM_POOL_NEW None] size q(1)
    by (simp add: lease_op_def)
  then show ?thesis using p0 size q(4) pool_run.acquire [OF pool_run.start wit_base_wf a] by blast
qed








lemma offset_interval:
  fixes w :: u32
  assumes "unat w + s + m \<le> 2 ^ 32" "s + m < 2 ^ 32"
  shows "{unat (w + (off - 1)) | off. s < unat off \<and> unat off \<le> s + m} = {unat w + s..<unat w + s + m}"
proof -
  have shift: "unat (w + (off - 1)) = unat w + unat off - 1" if "0 < unat off" "unat off \<le> s + m" for off
  proof -
    have "unat (off - 1) = unat off - 1" using that(1) by (metis unat_gt_0 unat_minus_one)
    moreover have "unat w + (unat off - 1) < 2 ^ 32" using that assms(1) by linarith
    ultimately show ?thesis using that(1) by (simp add: unat_word_ariths)
  qed
  have "\<exists>off. a = unat (w + (off - 1)) \<and> s < unat off \<and> unat off \<le> s + m"
    if "unat w + s \<le> a" "a < unat w + s + m" for a
  proof -
    have "a - unat w + 1 < 2 ^ 32" using that assms(2) by linarith
    then have "unat (of_nat (a - unat w + 1) :: u32) = a - unat w + 1"
      unfolding unsigned_of_nat by (simp add: take_bit_nat_eq_self)
    then show ?thesis using shift [of "of_nat (a - unat w + 1)"] that
      by (intro exI [of _ "of_nat (a - unat w + 1)"]) auto
  qed
  then show ?thesis using shift by fastforce
qed

lemma subnet_top:
  assumes "(low :: nat) < 2 ^ 32" "n \<le> 32"
  shows "low - low mod 2 ^ n + 2 ^ n \<le> 2 ^ 32"
proof -
  have split: "(2 :: nat) ^ 32 = 2 ^ n * 2 ^ (32 - n)" using assms(2) by (simp flip: power_add)
  then have "low div 2 ^ n < 2 ^ (32 - n)"
    using assms(1) by (simp add: div_less_iff_less_mult mult.commute)
  then have "2 ^ n * (low div 2 ^ n + 1) \<le> 2 ^ n * 2 ^ (32 - n)" by (intro mult_le_mono2) simp
  moreover have "low - low mod 2 ^ n = 2 ^ n * (low div 2 ^ n)" by (simp add: minus_mod_eq_mult_div)
  ultimately show ?thesis unfolding split by (simp add: algebra_simps)
qed




end
