(* ===== verification/Hasher.thy ===== *)
theory Hasher
  imports Prelude
begin

text \<open>
  The hasher interface of \<^verbatim>\<open>crypto/hashers/hasher.h\<close>, the conversions between
  algorithm identifiers of \<^verbatim>\<open>crypto/hashers/hasher.c\<close>, and the contract of a
  hasher as a locale. The second half holds what the hashers share: messages cut into blocks,
  the padding of the Merkle-Damgard construction and the laws of feeding a message in pieces.
\<close>


section \<open>Methods that may fail\<close>

text \<open>
  A method that returns \<^verbatim>\<open>bool\<close> and writes a result yields the result, \<open>None\<close>
  where it returns \<^verbatim>\<open>FALSE\<close>, and the object afterwards; the outer \<open>None\<close>
  is undefined behaviour or a loop that does not end. \<open>and_then\<close> is the operator
  \<^verbatim>\<open>&&\<close> of the source on such calls: the second is made only if the first succeeds.
\<close>

type_synonym ('o, 's) call = "('o option \<times> 's) option"

definition and_then :: "('o, 's) call \<Rightarrow> ('o \<Rightarrow> 's \<Rightarrow> ('p, 's) call) \<Rightarrow> ('p, 's) call" where
  "and_then r f = (case r of
      None \<Rightarrow> None
    | Some (None, s) \<Rightarrow> Some (None, s)
    | Some (Some x, s) \<Rightarrow> f x s)"

lemma and_then_simps [simp]:
  "and_then None f = None"
  "and_then (Some (None, s)) f = Some (None, s)"
  "and_then (Some (Some x, s)) f = f x s"
  by (simp_all add: and_then_def)


section \<open>Host byte order\<close>

text \<open>Words in memory on a little-endian host.\<close>

definition le32 :: "bytes \<Rightarrow> u32" where
  "le32 b = ucast (b ! 0) OR push_bit 8 (ucast (b ! 1)) OR push_bit 16 (ucast (b ! 2)) OR
            push_bit 24 (ucast (b ! 3))"

definition le32_bytes :: "u32 \<Rightarrow> bytes" where
  "le32_bytes w = [ucast w, ucast (drop_bit 8 w), ucast (drop_bit 16 w), ucast (drop_bit 24 w)]"

lemma length_concat_const: "(\<And>x. length (f x) = n) \<Longrightarrow> length (concat (map f xs)) = n * length xs"
  by (induction xs) simp_all

lemma length_words [simp, length_simps]:
  "length (concat (map htoun32 ws)) = 4 * length ws" "length (concat (map htoun64 xs)) = 8 * length xs"
  "length (concat (map le32_bytes ws)) = 4 * length ws"
  by (rule length_concat_const; simp add: le32_bytes_def)+

text \<open>The two halves of a 64-bit value in network byte order.\<close>

lemma htoun64_halves: "htoun64 (of_nat x) = htoun32 (of_nat (x div 2 ^ 32)) @ htoun32 (of_nat x)"
proof -
  have high: "bit (x div 4294967296) m = bit x (32 + m)" for m
    using bit_drop_bit_eq [of 32 x] by (simp add: drop_bit_eq_div fun_eq_iff)
  have up: "ucast (drop_bit (32 + k) (of_nat x :: u64)) = (ucast (drop_bit k (of_nat (x div 2 ^ 32) :: u32)) :: u8)"
    if "k \<le> 24" for k
    by (rule bit_word_eqI) (use that in \<open>auto simp: bit_simps high add.assoc\<close>)
  have low: "ucast (drop_bit k (of_nat x :: u64)) = (ucast (drop_bit k (of_nat x :: u32)) :: u8)"
    if "k \<le> 24" for k
    by (rule bit_word_eqI) (use that in \<open>auto simp: bit_simps\<close>)
  show ?thesis
    using up [of 0] up [of 8] up [of 16] up [of 24] low [of 0] low [of 8] low [of 16] low [of 24]
    by (simp add: htoun64_def htoun32_def)
qed


section \<open>The interface\<close>

datatype hash_algorithm =
    HASH_SHA1 | HASH_SHA256 | HASH_SHA384 | HASH_SHA512 | HASH_UNKNOWN | HASH_MD2 | HASH_MD4
  | HASH_MD5 | HASH_SHA224 | HASH_SHA3_224 | HASH_SHA3_256 | HASH_SHA3_384 | HASH_SHA3_512

datatype pseudo_random_function =
    PRF_UNDEFINED | PRF_HMAC_MD5 | PRF_HMAC_SHA1 | PRF_HMAC_TIGER | PRF_AES128_XCBC
  | PRF_HMAC_SHA2_256 | PRF_HMAC_SHA2_384 | PRF_HMAC_SHA2_512 | PRF_AES128_CMAC
  | PRF_FIPS_SHA1_160 | PRF_FIPS_DES | PRF_KEYED_SHA1 | PRF_CAMELLIA128_XCBC

datatype integrity_algorithm =
    AUTH_UNDEFINED | AUTH_HMAC_MD5_96 | AUTH_HMAC_SHA1_96 | AUTH_DES_MAC | AUTH_KPDK_MD5
  | AUTH_AES_XCBC_96 | AUTH_HMAC_MD5_128 | AUTH_HMAC_SHA1_160 | AUTH_AES_CMAC_96
  | AUTH_AES_128_GMAC | AUTH_AES_192_GMAC | AUTH_AES_256_GMAC | AUTH_HMAC_SHA2_256_128
  | AUTH_HMAC_SHA2_384_192 | AUTH_HMAC_SHA2_512_256 | AUTH_HMAC_SHA1_128
  | AUTH_HMAC_SHA2_256_96 | AUTH_HMAC_SHA2_256_256 | AUTH_HMAC_SHA2_384_384
  | AUTH_HMAC_SHA2_512_512 | AUTH_CAMELLIA_XCBC_96

definition HASH_SIZE_MD5 :: nat where "HASH_SIZE_MD5 = 16"
definition HASH_SIZE_SHA1 :: nat where "HASH_SIZE_SHA1 = 20"
definition HASH_SIZE_SHA224 :: nat where "HASH_SIZE_SHA224 = 28"
definition HASH_SIZE_SHA256 :: nat where "HASH_SIZE_SHA256 = 32"
definition HASH_SIZE_SHA384 :: nat where "HASH_SIZE_SHA384 = 48"
definition HASH_SIZE_SHA512 :: nat where "HASH_SIZE_SHA512 = 64"

lemmas hash_sizes = HASH_SIZE_MD5_def HASH_SIZE_SHA1_def HASH_SIZE_SHA224_def HASH_SIZE_SHA256_def
  HASH_SIZE_SHA384_def HASH_SIZE_SHA512_def

text \<open>
  The methods of a hasher whose private data has type \<open>'h\<close>. The flag of \<open>h_get_hash\<close>
  says whether the output pointer is not \<^verbatim>\<open>NULL\<close>; without it the output is empty.
  \<^verbatim>\<open>allocate_hash\<close> differs from \<^verbatim>\<open>get_hash\<close> only in who provides the
  memory for the result.
\<close>

record 'h hasher_ops =
  h_get_hash :: "'h \<Rightarrow> bytes \<Rightarrow> bool \<Rightarrow> (bytes, 'h) call"
  h_get_hash_size :: "'h \<Rightarrow> nat"
  h_reset :: "'h \<Rightarrow> (unit, 'h) call"

fun hasher_algorithm_from_prf :: "pseudo_random_function \<Rightarrow> hash_algorithm" where
  "hasher_algorithm_from_prf alg =
     (case alg of
        PRF_HMAC_MD5 \<Rightarrow> HASH_MD5
      | PRF_HMAC_SHA1 \<Rightarrow> HASH_SHA1
      | PRF_FIPS_SHA1_160 \<Rightarrow> HASH_SHA1
      | PRF_KEYED_SHA1 \<Rightarrow> HASH_SHA1
      | PRF_HMAC_SHA2_256 \<Rightarrow> HASH_SHA256
      | PRF_HMAC_SHA2_384 \<Rightarrow> HASH_SHA384
      | PRF_HMAC_SHA2_512 \<Rightarrow> HASH_SHA512
      | _ \<Rightarrow> HASH_UNKNOWN)"

text \<open>
  The hash algorithm and what is stored in \<^verbatim>\<open>*length\<close>, \<open>None\<close> if nothing is.
\<close>

definition hasher_algorithm_from_integrity :: "integrity_algorithm \<Rightarrow> hash_algorithm \<times> nat option" where
  "hasher_algorithm_from_integrity alg =
     ((case alg of
         AUTH_HMAC_MD5_96 \<Rightarrow> HASH_MD5 | AUTH_HMAC_MD5_128 \<Rightarrow> HASH_MD5 | AUTH_KPDK_MD5 \<Rightarrow> HASH_MD5
       | AUTH_HMAC_SHA1_96 \<Rightarrow> HASH_SHA1 | AUTH_HMAC_SHA1_128 \<Rightarrow> HASH_SHA1 | AUTH_HMAC_SHA1_160 \<Rightarrow> HASH_SHA1
       | AUTH_HMAC_SHA2_256_96 \<Rightarrow> HASH_SHA256 | AUTH_HMAC_SHA2_256_128 \<Rightarrow> HASH_SHA256
       | AUTH_HMAC_SHA2_256_256 \<Rightarrow> HASH_SHA256
       | AUTH_HMAC_SHA2_384_192 \<Rightarrow> HASH_SHA384 | AUTH_HMAC_SHA2_384_384 \<Rightarrow> HASH_SHA384
       | AUTH_HMAC_SHA2_512_256 \<Rightarrow> HASH_SHA512 | AUTH_HMAC_SHA2_512_512 \<Rightarrow> HASH_SHA512
       | _ \<Rightarrow> HASH_UNKNOWN),
      (case alg of
         AUTH_HMAC_MD5_96 \<Rightarrow> Some 12 | AUTH_HMAC_SHA1_96 \<Rightarrow> Some 12 | AUTH_HMAC_SHA2_256_96 \<Rightarrow> Some 12
       | AUTH_HMAC_MD5_128 \<Rightarrow> Some 16 | AUTH_HMAC_SHA1_128 \<Rightarrow> Some 16 | AUTH_HMAC_SHA2_256_128 \<Rightarrow> Some 16
       | AUTH_HMAC_SHA1_160 \<Rightarrow> Some 20 | AUTH_HMAC_SHA2_384_192 \<Rightarrow> Some 24
       | AUTH_HMAC_SHA2_256_256 \<Rightarrow> Some 32 | AUTH_HMAC_SHA2_512_256 \<Rightarrow> Some 32
       | AUTH_HMAC_SHA2_384_384 \<Rightarrow> Some 48 | AUTH_HMAC_SHA2_512_512 \<Rightarrow> Some 64
       | _ \<Rightarrow> None))"

definition hasher_algorithm_to_integrity :: "hash_algorithm \<Rightarrow> nat \<Rightarrow> integrity_algorithm" where
  "hasher_algorithm_to_integrity alg len =
     (case alg of
        HASH_MD5 \<Rightarrow> if len = 12 then AUTH_HMAC_MD5_96 else if len = 16 then AUTH_HMAC_MD5_128
                    else AUTH_UNDEFINED
      | HASH_SHA1 \<Rightarrow> if len = 12 then AUTH_HMAC_SHA1_96 else if len = 16 then AUTH_HMAC_SHA1_128
                     else if len = 20 then AUTH_HMAC_SHA1_160 else AUTH_UNDEFINED
      | HASH_SHA256 \<Rightarrow> if len = 12 then AUTH_HMAC_SHA2_256_96 else if len = 16 then AUTH_HMAC_SHA2_256_128
                       else if len = 32 then AUTH_HMAC_SHA2_256_256 else AUTH_UNDEFINED
      | HASH_SHA384 \<Rightarrow> if len = 24 then AUTH_HMAC_SHA2_384_192
                       else if len = 48 then AUTH_HMAC_SHA2_384_384 else AUTH_UNDEFINED
      | HASH_SHA512 \<Rightarrow> if len = 32 then AUTH_HMAC_SHA2_512_256
                       else if len = 64 then AUTH_HMAC_SHA2_512_512 else AUTH_UNDEFINED
      | _ \<Rightarrow> AUTH_UNDEFINED)"

definition hasher_algorithm_for_ikev2 :: "hash_algorithm \<Rightarrow> bool" where
  "hasher_algorithm_for_ikev2 alg =
     (case alg of
        HASH_SHA1 \<Rightarrow> True | HASH_SHA256 \<Rightarrow> True | HASH_SHA384 \<Rightarrow> True | HASH_SHA512 \<Rightarrow> True
      | _ \<Rightarrow> False)"

text \<open>
  The two conversions are inverse on the integrity algorithms based on HMAC: an algorithm is
  determined by its hash and its truncation.
\<close>

lemma integrity_to_from:
  "hasher_algorithm_from_integrity alg = (h, Some len) \<Longrightarrow> hasher_algorithm_to_integrity h len = alg"
  by (cases alg) (auto simp: hasher_algorithm_from_integrity_def hasher_algorithm_to_integrity_def)

lemma integrity_from_to:
  "hasher_algorithm_to_integrity h len = alg \<Longrightarrow> alg \<noteq> AUTH_UNDEFINED \<Longrightarrow>
   hasher_algorithm_from_integrity alg = (h, Some len)"
  by (cases h) (auto simp: hasher_algorithm_from_integrity_def hasher_algorithm_to_integrity_def split: if_splits)


section \<open>The contract\<close>

text \<open>
  \<open>fed h m\<close>: since its last reset the hasher \<open>h\<close> has been given the bytes \<open>m\<close>, in
  whatever pieces. The contract is the documented one: data given without an output pointer is
  appended, with one the hash of everything given is returned and the hasher is reset. A call
  takes at most \<open>call_max\<close> bytes. Software hashers never return \<^verbatim>\<open>FALSE\<close>.
\<close>

locale hasher =
  fixes ops :: "'h hasher_ops" and fed :: "'h \<Rightarrow> bytes \<Rightarrow> bool" and H :: "bytes \<Rightarrow> bytes"
    and hsize call_max :: nat
  assumes append: "fed h m \<Longrightarrow> length d \<le> call_max \<Longrightarrow>
      \<exists>h'. h_get_hash ops h d False = Some (Some [], h') \<and> fed h' (m @ d)"
    and finish: "fed h m \<Longrightarrow> length d \<le> call_max \<Longrightarrow>
      \<exists>h'. h_get_hash ops h d True = Some (Some (H (m @ d)), h') \<and> fed h' []"
    and reset: "fed h m \<Longrightarrow> \<exists>h'. h_reset ops h = Some (Some (), h') \<and> fed h' []"
    and size: "fed h m \<Longrightarrow> h_get_hash_size ops h = hsize"
    and length_H: "length (H m) = hsize"

text \<open>Appending one piece after the other.\<close>

fun h_feed :: "'h hasher_ops \<Rightarrow> 'h \<Rightarrow> bytes list \<Rightarrow> 'h option" where
  "h_feed ops h [] = Some h"
| "h_feed ops h (d # ds) =
     (case h_get_hash ops h d False of Some (Some _, h') \<Rightarrow> h_feed ops h' ds | _ \<Rightarrow> None)"

context hasher
begin

lemma feed_ok:
  "fed h m \<Longrightarrow> \<forall>d \<in> set ds. length d \<le> call_max \<Longrightarrow>
   \<exists>h'. h_feed ops h ds = Some h' \<and> fed h' (m @ concat ds)"
proof (induction ds arbitrary: h m)
  case (Cons d ds)
  then obtain h' where "h_get_hash ops h d False = Some (Some [], h')" "fed h' (m @ d)"
    using append [of h m d] by auto
  then show ?case using Cons.IH [of h' "m @ d"] Cons.prems by simp
qed simp

lemma feed_finish:
  assumes "fed h []" "\<forall>d \<in> set (ds @ [d]). length d \<le> call_max"
  shows "\<exists>h' h''. h_feed ops h ds = Some h' \<and> h_get_hash ops h' d True = Some (Some (H (concat ds @ d)), h'') \<and>
    fed h'' []"
proof -
  obtain h' where "h_feed ops h ds = Some h'" "fed h' (concat ds)"
    using feed_ok [OF assms(1), of ds] assms(2) by auto
  then show ?thesis using finish [of h' "concat ds" d] assms(2) by auto
qed

end


section \<open>Messages in blocks\<close>

text \<open>The full blocks of a message and what is left behind them.\<close>

function blocks :: "nat \<Rightarrow> 'a list \<Rightarrow> 'a list list" where
  "blocks n m = (if 0 < n \<and> n \<le> length m then take n m # blocks n (drop n m) else [])"
  by pat_completeness auto
termination by (relation "measure (\<lambda>(n, m). length m)") auto

declare blocks.simps [simp del]

definition rest :: "nat \<Rightarrow> 'a list \<Rightarrow> 'a list" where
  "rest n m = drop (n * (length m div n)) m"

lemma blocks_short [simp]: "length m < n \<Longrightarrow> blocks n m = []"
  by (simp add: blocks.simps)

lemma blocks_block: "0 < n \<Longrightarrow> length b = n \<Longrightarrow> blocks n (b @ m) = b # blocks n m"
  by (simp add: blocks.simps [of n "b @ m"])

lemma blocks_single: "0 < n \<Longrightarrow> length b = n \<Longrightarrow> blocks n b = [b]"
  using blocks_block [of n b "[]"] by simp

lemma rest_short [simp]: "length m < n \<Longrightarrow> rest n m = m"
  by (simp add: rest_def)

lemma rest_block: "0 < n \<Longrightarrow> length b = n \<Longrightarrow> rest n (b @ m) = rest n m"
  by (simp add: rest_def div_add_self1)

lemma length_rest [simp]: "length (rest n m) = length m mod n"
  by (simp add: rest_def minus_mult_div_eq_mod)

lemma blocks_rest_append:
  assumes "0 < n"
  shows "blocks n (m @ d) = blocks n m @ blocks n (rest n m @ d) \<and> rest n (m @ d) = rest n (rest n m @ d)"
proof (induction m rule: length_induct)
  case (1 m)
  show ?case
  proof (cases "length m < n")
    case False
    let ?b = "take n m" and ?r = "drop n m"
    have m: "m = ?b @ ?r" and b: "length ?b = n" and "length ?r < length m" using False assms by auto
    then have IH: "blocks n (?r @ d) = blocks n ?r @ blocks n (rest n ?r @ d) \<and>
      rest n (?r @ d) = rest n (rest n ?r @ d)" using 1 by blast
    have "blocks n (m @ d) = ?b # blocks n (?r @ d)" "blocks n m = ?b # blocks n ?r"
      "rest n (m @ d) = rest n (?r @ d)" "rest n m = rest n ?r"
      using blocks_block [OF assms b] rest_block [OF assms b] m
      by (metis append.assoc)+
    then show ?thesis using IH by simp
  qed simp
qed

lemma blocks_append: "0 < n \<Longrightarrow> blocks n (m @ d) = blocks n m @ blocks n (rest n m @ d)"
  using blocks_rest_append by blast

lemma rest_append: "0 < n \<Longrightarrow> rest n (m @ d) = rest n (rest n m @ d)"
  using blocks_rest_append by blast

lemma length_blocks [simp]: "0 < n \<Longrightarrow> length (blocks n m) = length m div n"
proof (induction m rule: length_induct)
  case (1 m)
  then show ?case
    by (cases "length m < n") (simp_all add: blocks.simps [of n m] le_div_geq not_less)
qed

text \<open>
  Completing a partial block \<open>r\<close> from new data \<open>d\<close>: what is left behind the full
  blocks is the end of the data.
\<close>

lemma rest_refill:
  assumes "length r < n" "n - length r \<le> length d"
  defines "k \<equiv> n - length r" and "t \<equiv> (length d - (n - length r)) mod n"
  shows "rest n (r @ d) = drop (length d - t) d" "(length r + length d) mod n = t" "t \<le> length d"
    "length (r @ take k d) = n" "r @ d = (r @ take k d) @ drop k d"
proof -
  have le: "k \<le> length d" using assms by simp
  show t: "t \<le> length d" unfolding t_def by (rule le_trans [OF mod_less_eq_dividend]) simp
  show b: "length (r @ take k d) = n" using assms by simp
  show rd: "r @ d = (r @ take k d) @ drop k d" by simp
  have "rest n (r @ d) = rest n (drop k d)" unfolding rd by (rule rest_block) (use b assms(1) in auto)
  also have "\<dots> = drop (k + n * ((length d - k) div n)) d" by (simp add: rest_def add.commute)
  also have "k + n * ((length d - k) div n) = length d - t"
    unfolding t_def k_def [symmetric] using le minus_mult_div_eq_mod [of "length d - k" n]
      mult_div_mod_eq [of n "length d - k"] by linarith
  finally show r: "rest n (r @ d) = drop (length d - t) d" .
  show "(length r + length d) mod n = t" using arg_cong [OF r, of length] t by simp
qed

text \<open>Compressing the blocks of a message one after the other.\<close>

definition absorb :: "('s \<Rightarrow> bytes \<Rightarrow> 's) \<Rightarrow> nat \<Rightarrow> 's \<Rightarrow> bytes \<Rightarrow> 's" where
  "absorb f n s m = foldl f s (blocks n m)"

lemma absorb_short [simp]: "length m < n \<Longrightarrow> absorb f n s m = s"
  by (simp add: absorb_def)

lemma absorb_block: "0 < n \<Longrightarrow> length b = n \<Longrightarrow> absorb f n s (b @ m) = absorb f n (f s b) m"
  by (simp add: absorb_def blocks_block)

lemma absorb_single: "0 < n \<Longrightarrow> length b = n \<Longrightarrow> absorb f n s b = f s b"
  by (simp add: absorb_def blocks_single)

lemma absorb_append: "0 < n \<Longrightarrow> absorb f n s (m @ d) = absorb f n (absorb f n s m) (rest n m @ d)"
  unfolding absorb_def by (subst blocks_append) simp_all

lemma length_block: "b \<in> set (blocks n m) \<Longrightarrow> length b = n"
proof (induction n m rule: blocks.induct)
  case (1 n m)
  then show ?case
    by (cases "0 < n \<and> n \<le> length m") (auto simp: blocks.simps [of n m])
qed

lemma foldl_invariant:
  "P s \<Longrightarrow> (\<And>s b. P s \<Longrightarrow> b \<in> set bs \<Longrightarrow> P (f s b)) \<Longrightarrow> P (foldl f s bs)"
  by (induction bs arbitrary: s) simp_all

lemma absorb_invariant:
  assumes "P s" "\<And>s b. P s \<Longrightarrow> length b = n \<Longrightarrow> P (f s b)"
  shows "P (absorb f n s m)"
  unfolding absorb_def
  by (rule foldl_invariant [where P = P]) (use assms length_block in blast)+

lemma foldl_cong_invariant:
  assumes "P s" "\<And>s b. P s \<Longrightarrow> b \<in> set bs \<Longrightarrow> f s b = g s b \<and> P (g s b)"
  shows "foldl f s bs = foldl g s bs \<and> P (foldl g s bs)"
  using assms by (induction bs arbitrary: s) simp_all

lemma absorb_cong:
  assumes "\<And>s b. P s \<Longrightarrow> length b = n \<Longrightarrow> f s b = g s b \<and> P (g s b)" "P s"
  shows "absorb f n s m = absorb g n s m \<and> P (absorb g n s m)"
  unfolding absorb_def
  by (rule foldl_cong_invariant [where P = P]) (use assms length_block in blast)+


section \<open>Padding\<close>

text \<open>
  A message is followed by the byte 0x80, by as many zero bytes as it takes to leave the space
  for the length in the last block, and by the length.
\<close>

definition zeros_len :: "nat \<Rightarrow> nat \<Rightarrow> nat" where
  "zeros_len n l = (2 * n - n div 8 - 1 - l mod n) mod n"

definition md_pad :: "nat \<Rightarrow> (nat \<Rightarrow> bytes) \<Rightarrow> bytes \<Rightarrow> bytes" where
  "md_pad n enc m = m @ 0x80 # replicate (zeros_len n (length m)) 0 @ enc (length m)"

definition md_hash ::
  "('s \<Rightarrow> bytes \<Rightarrow> 's) \<Rightarrow> nat \<Rightarrow> 's \<Rightarrow> (nat \<Rightarrow> bytes) \<Rightarrow> ('s \<Rightarrow> bytes) \<Rightarrow> bytes \<Rightarrow> bytes" where
  "md_hash f n iv enc out m = out (absorb f n iv (md_pad n enc m))"

text \<open>
  Both block sizes in use are covered: behind the zeros exactly the space for the length is
  left.
\<close>

lemma zeros_len_mod:
  assumes "n = 64 \<or> n = 128"
  shows "(l + 1 + zeros_len n l) mod n = n - n div 8"
proof -
  have "l mod n < n" using assms by auto
  then have "(l + 1 + zeros_len n l) mod n = (l mod n + 1 + (2 * n - n div 8 - 1 - l mod n)) mod n"
    unfolding zeros_len_def by (metis (no_types, opaque_lifting) mod_add_left_eq mod_add_right_eq add.assoc)
  also have "l mod n + 1 + (2 * n - n div 8 - 1 - l mod n) = 2 * n - n div 8"
    using \<open>l mod n < n\<close> assms by auto
  finally show ?thesis using assms by auto
qed

lemma zeros_len_less: "0 < n \<Longrightarrow> zeros_len n l < n"
  by (simp add: zeros_len_def)

text \<open>Fewer zeros do not reach that place.\<close>

lemma zeros_len_first:
  assumes "n = 64 \<or> n = 128" "k < zeros_len n l"
  shows "(l + 1 + k) mod n \<noteq> n - n div 8"
proof
  assume "(l + 1 + k) mod n = n - n div 8"
  then have "(l + 1 + k) mod n = (l + 1 + zeros_len n l) mod n" using zeros_len_mod [OF assms(1)] by simp
  moreover have "l + 1 + k \<le> l + 1 + zeros_len n l" using assms(2) by simp
  ultimately have "n dvd zeros_len n l - k"
    using mod_eq_dvd_iff_nat [of "l + 1 + k" "l + 1 + zeros_len n l" n] by (simp add: eq_commute)
  moreover have "zeros_len n l < n" using zeros_len_less assms(1) by auto
  ultimately show False using assms(2) by (meson dvd_imp_le zero_less_diff le_less_trans diff_le_self leD)
qed


section \<open>Bit counts in two words\<close>

text \<open>
  SHA-1 and MD5 keep the number of bits of the message in two 32-bit words: adding to the low
  word, the carry, and the position in the block.
\<close>

lemma count_low: "of_nat (8 * l) + push_bit 3 (of_nat d) = (of_nat (8 * (l + d)) :: u32)"
  by (simp add: push_bit_eq_mult distrib_left mult.commute)

lemma word_carry: "(of_nat a + of_nat b :: u32) < of_nat a \<longleftrightarrow> 2 ^ 32 \<le> a mod 2 ^ 32 + b mod 2 ^ 32"
proof -
  define x y where "x = a mod 2 ^ 32" and "y = b mod 2 ^ 32"
  have "x < 2 ^ 32" "y < 2 ^ 32" by (simp_all add: x_def y_def)
  moreover have "(of_nat a + of_nat b :: u32) < of_nat a \<longleftrightarrow> (x + y) mod 2 ^ 32 < x"
    by (simp add: word_less_nat_alt unat_word_ariths unat_of_nat x_def y_def)
  moreover have "(x + y) mod 2 ^ 32 = (if x + y < 2 ^ 32 then x + y else x + y - 2 ^ 32)"
    using calculation(1,2) by (simp add: mod_if [of "x + y"])
  ultimately show ?thesis unfolding x_def [symmetric] y_def [symmetric] by simp linarith
qed

lemma drop_bit_count:
  assumes "d < 2 ^ 32"
  shows "drop_bit 29 (of_nat d :: u32) = of_nat (8 * d div 2 ^ 32)"
proof -
  have "(8 * d) div 2 ^ 32 = d div 2 ^ 29" by simp
  moreover have "d div 2 ^ 29 < 2 ^ 32" using assms div_le_dividend [of d "2 ^ 29"] by linarith
  moreover have "unat (drop_bit 29 (of_nat d :: u32)) = d div 2 ^ 29"
    using assms by (subst unat_drop_bit_eq) (simp add: unat_of_nat drop_bit_eq_div)
  ultimately show ?thesis by (simp only: word_unat_eq_iff unat_of_nat len_num1 len_bit0 mod_less) simp
qed

lemma count_high:
  assumes "d < 2 ^ 32"
  shows "(if (of_nat (8 * l) + push_bit 3 (of_nat d) :: u32) < of_nat (8 * l)
          then of_nat (8 * l div 2 ^ 32) + 1 else of_nat (8 * l div 2 ^ 32)) + drop_bit 29 (of_nat d) =
         (of_nat (8 * (l + d) div 2 ^ 32) :: u32)"
proof -
  let ?A = "8 * l" and ?B = "8 * d" and ?N = "2 ^ 32 :: nat"
  have "push_bit 3 (of_nat d) = (of_nat ?B :: u32)" by (simp add: push_bit_eq_mult mult.commute)
  then have carry: "(of_nat ?A + push_bit 3 (of_nat d) :: u32) < of_nat ?A \<longleftrightarrow> ?N \<le> ?A mod ?N + ?B mod ?N"
    using word_carry [of ?A ?B] by simp
  have "?A mod ?N + ?B mod ?N < 2 * ?N"
    using mod_less_divisor [of ?N ?A] mod_less_divisor [of ?N ?B] by simp
  then have "(?A mod ?N + ?B mod ?N) div ?N = (if ?N \<le> ?A mod ?N + ?B mod ?N then 1 else 0)"
    by (simp add: div_nat_eqI not_le)
  then have "8 * (l + d) div ?N = ?A div ?N + ?B div ?N + (if ?N \<le> ?A mod ?N + ?B mod ?N then 1 else 0)"
    using div_add1_eq [of ?A ?B ?N] by (simp add: distrib_left)
  then show ?thesis
    unfolding carry drop_bit_count [OF assms] by simp
qed

lemma count_index: "drop_bit 3 (of_nat (8 * l) :: u32) AND 63 = of_nat (l mod 64)"
proof -
  have e: "8 * l = push_bit 3 l" "l mod 64 = take_bit 6 l" "(63 :: u32) = mask 6"
    by (simp_all add: push_bit_eq_mult take_bit_eq_mod mask_eq_exp_minus_1)
  show ?thesis
    unfolding e take_bit_eq_mask [symmetric]
    by (rule bit_word_eqI) (auto simp: bit_simps)
qed

lemma count_at_56: "of_nat (8 * l) AND (504 :: u32) = 448 \<longleftrightarrow> l mod 64 = 56"
proof -
  have e: "(504 :: u32) = push_bit 3 (mask 6)" "8 * l = push_bit 3 l" "8 * (l mod 64) = push_bit 3 (take_bit 6 l)"
    by (simp_all add: push_bit_eq_mult take_bit_eq_mod mask_eq_exp_minus_1)
  have "of_nat (8 * l) AND 504 = (of_nat (8 * (l mod 64)) :: u32)"
    unfolding e by (rule bit_word_eqI) (simp only: bit_and_iff bit_push_bit_iff bit_mask_iff
      possible_bit_word, auto simp: bit_simps)
  moreover have "8 * (l mod 64) < 2 ^ 32" using mod_less_divisor [of 64 l] by simp
  then have "unat (of_nat (8 * (l mod 64)) :: u32) = 8 * (l mod 64)"
    by (simp only: unat_of_nat len_bit0 len_num1) simp
  then have "of_nat (8 * (l mod 64)) = (448 :: u32) \<longleftrightarrow> 8 * (l mod 64) = 448"
    unfolding word_unat_eq_iff by simp
  ultimately show ?thesis by simp
qed

end
