(* ===== verification/Sha1.thy ===== *)
theory Sha1
  imports Hasher
begin

text \<open>
  The SHA-1 hasher of \<^verbatim>\<open>plugins/sha1/sha1_hasher.c\<close>: the unrolled compression
  function with its circular message schedule, the buffering of partial blocks with the 64-bit
  bit count in two words, and the padding. The specification is the one of FIPS 180-4; the
  hasher computes it for a message given in any pieces.
\<close>


section \<open>The compression function\<close>

definition rol :: "u32 \<Rightarrow> nat \<Rightarrow> u32" where
  "rol val bits = push_bit bits val OR drop_bit (32 - bits) val"

text \<open>
  The macros work on the variables \<open>a\<close> to \<open>e\<close>, here numbered 0 to 4, and on the
  block seen as sixteen words in the byte order of a little-endian host.
\<close>

type_synonym sha1_vars = "u32 list \<times> u32 list"

definition blk0 :: "nat \<Rightarrow> u32 list \<Rightarrow> u32 list" where
  "blk0 i l = l[i := (rol (l ! i) 24 AND 0xFF00FF00) OR (rol (l ! i) 8 AND 0x00FF00FF)]"

definition blk :: "nat \<Rightarrow> u32 list \<Rightarrow> u32 list" where
  "blk i l = l[i mod 16 := rol (l ! ((i + 13) mod 16) XOR l ! ((i + 8) mod 16) XOR
                               l ! ((i + 2) mod 16) XOR l ! (i mod 16)) 1]"

fun R0 :: "nat \<Rightarrow> nat \<Rightarrow> nat \<Rightarrow> nat \<Rightarrow> nat \<Rightarrow> nat \<Rightarrow> sha1_vars \<Rightarrow> sha1_vars" where
  "R0 v w x y z i (r, l) =
     (let l = blk0 i l;
          r = r[z := r ! z + (((r ! w AND (r ! x XOR r ! y)) XOR r ! y) + l ! i + 0x5A827999 + rol (r ! v) 5)]
      in (r[w := rol (r ! w) 30], l))"

fun R1 :: "nat \<Rightarrow> nat \<Rightarrow> nat \<Rightarrow> nat \<Rightarrow> nat \<Rightarrow> nat \<Rightarrow> sha1_vars \<Rightarrow> sha1_vars" where
  "R1 v w x y z i (r, l) =
     (let l = blk i l;
          r = r[z := r ! z + (((r ! w AND (r ! x XOR r ! y)) XOR r ! y) + l ! (i mod 16) + 0x5A827999 + rol (r ! v) 5)]
      in (r[w := rol (r ! w) 30], l))"

fun R2 :: "nat \<Rightarrow> nat \<Rightarrow> nat \<Rightarrow> nat \<Rightarrow> nat \<Rightarrow> nat \<Rightarrow> sha1_vars \<Rightarrow> sha1_vars" where
  "R2 v w x y z i (r, l) =
     (let l = blk i l;
          r = r[z := r ! z + ((r ! w XOR r ! x XOR r ! y) + l ! (i mod 16) + 0x6ED9EBA1 + rol (r ! v) 5)]
      in (r[w := rol (r ! w) 30], l))"

fun R3 :: "nat \<Rightarrow> nat \<Rightarrow> nat \<Rightarrow> nat \<Rightarrow> nat \<Rightarrow> nat \<Rightarrow> sha1_vars \<Rightarrow> sha1_vars" where
  "R3 v w x y z i (r, l) =
     (let l = blk i l;
          r = r[z := r ! z + ((((r ! w OR r ! x) AND r ! y) OR (r ! w AND r ! x)) + l ! (i mod 16) + 0x8F1BBCDC + rol (r ! v) 5)]
      in (r[w := rol (r ! w) 30], l))"

fun R4 :: "nat \<Rightarrow> nat \<Rightarrow> nat \<Rightarrow> nat \<Rightarrow> nat \<Rightarrow> nat \<Rightarrow> sha1_vars \<Rightarrow> sha1_vars" where
  "R4 v w x y z i (r, l) =
     (let l = blk i l;
          r = r[z := r ! z + ((r ! w XOR r ! x XOR r ! y) + l ! (i mod 16) + 0xCA62C1D6 + rol (r ! v) 5)]
      in (r[w := rol (r ! w) 30], l))"

definition sha1_rounds :: "(sha1_vars \<Rightarrow> sha1_vars) list" where
  "sha1_rounds =
    [R0 0 1 2 3 4 0, R0 4 0 1 2 3 1, R0 3 4 0 1 2 2, R0 2 3 4 0 1 3,
     R0 1 2 3 4 0 4, R0 0 1 2 3 4 5, R0 4 0 1 2 3 6, R0 3 4 0 1 2 7,
     R0 2 3 4 0 1 8, R0 1 2 3 4 0 9, R0 0 1 2 3 4 10, R0 4 0 1 2 3 11,
     R0 3 4 0 1 2 12, R0 2 3 4 0 1 13, R0 1 2 3 4 0 14, R0 0 1 2 3 4 15,
     R1 4 0 1 2 3 16, R1 3 4 0 1 2 17, R1 2 3 4 0 1 18, R1 1 2 3 4 0 19,
     R2 0 1 2 3 4 20, R2 4 0 1 2 3 21, R2 3 4 0 1 2 22, R2 2 3 4 0 1 23,
     R2 1 2 3 4 0 24, R2 0 1 2 3 4 25, R2 4 0 1 2 3 26, R2 3 4 0 1 2 27,
     R2 2 3 4 0 1 28, R2 1 2 3 4 0 29, R2 0 1 2 3 4 30, R2 4 0 1 2 3 31,
     R2 3 4 0 1 2 32, R2 2 3 4 0 1 33, R2 1 2 3 4 0 34, R2 0 1 2 3 4 35,
     R2 4 0 1 2 3 36, R2 3 4 0 1 2 37, R2 2 3 4 0 1 38, R2 1 2 3 4 0 39,
     R3 0 1 2 3 4 40, R3 4 0 1 2 3 41, R3 3 4 0 1 2 42, R3 2 3 4 0 1 43,
     R3 1 2 3 4 0 44, R3 0 1 2 3 4 45, R3 4 0 1 2 3 46, R3 3 4 0 1 2 47,
     R3 2 3 4 0 1 48, R3 1 2 3 4 0 49, R3 0 1 2 3 4 50, R3 4 0 1 2 3 51,
     R3 3 4 0 1 2 52, R3 2 3 4 0 1 53, R3 1 2 3 4 0 54, R3 0 1 2 3 4 55,
     R3 4 0 1 2 3 56, R3 3 4 0 1 2 57, R3 2 3 4 0 1 58, R3 1 2 3 4 0 59,
     R4 0 1 2 3 4 60, R4 4 0 1 2 3 61, R4 3 4 0 1 2 62, R4 2 3 4 0 1 63,
     R4 1 2 3 4 0 64, R4 0 1 2 3 4 65, R4 4 0 1 2 3 66, R4 3 4 0 1 2 67,
     R4 2 3 4 0 1 68, R4 1 2 3 4 0 69, R4 0 1 2 3 4 70, R4 4 0 1 2 3 71,
     R4 3 4 0 1 2 72, R4 2 3 4 0 1 73, R4 1 2 3 4 0 74, R4 0 1 2 3 4 75,
     R4 4 0 1 2 3 76, R4 3 4 0 1 2 77, R4 2 3 4 0 1 78, R4 1 2 3 4 0 79]"

text \<open>\<^verbatim>\<open>memcpy(block, buffer, 64)\<close> on a little-endian host.\<close>

definition block_words :: "bytes \<Rightarrow> u32 list" where
  "block_words buffer = map (\<lambda>i. le32 (take 4 (drop (4 * i) buffer))) [0..<16]"

definition SHA1Transform :: "u32 list \<Rightarrow> bytes \<Rightarrow> u32 list" where
  "SHA1Transform state buffer =
     map2 (+) state (fst (foldl (\<lambda>s f. f s) (state, block_words buffer) sha1_rounds))"


section \<open>The hasher\<close>

record sha1_hasher =
  sh_state :: "u32 list"
  sh_count0 :: u32
  sh_count1 :: u32
  sh_buffer :: bytes

text \<open>The loop over the blocks inside the data.\<close>

partial_function (option) sha1_blocks :: "bytes \<Rightarrow> u32 \<Rightarrow> u32 \<Rightarrow> u32 list \<Rightarrow> (u32 \<times> u32 list) option" where
  "sha1_blocks data len i state =
     (if i + 63 < len
      then do { b \<leftarrow> load data (unat i) 64; sha1_blocks data len (i + 64) (SHA1Transform state b) }
      else Some (i, state))"

definition SHA1Update :: "sha1_hasher \<Rightarrow> bytes \<Rightarrow> u32 \<Rightarrow> sha1_hasher option" where
  "SHA1Update this data len =
     (let j = sh_count0 this;
          c0 = j + push_bit 3 len;
          c1 = (if c0 < j then sh_count1 this + 1 else sh_count1 this) + drop_bit 29 len;
          this = this\<lparr>sh_count0 := c0, sh_count1 := c1\<rparr>;
          j = drop_bit 3 j AND 63
      in if j + len > 63
         then do {
           d \<leftarrow> load data 0 (unat (64 - j));
           b \<leftarrow> store (sh_buffer this) (unat j) d;
           (i, state) \<leftarrow> sha1_blocks data len (64 - j) (SHA1Transform (sh_state this) b);
           d \<leftarrow> load data (unat i) (unat (len - i));
           b \<leftarrow> store b 0 d;
           Some (this\<lparr>sh_state := state, sh_buffer := b\<rparr>)
         }
         else do {
           d \<leftarrow> load data 0 (unat len);
           b \<leftarrow> store (sh_buffer this) (unat j) d;
           Some (this\<lparr>sh_buffer := b\<rparr>)
         })"

text \<open>The padding loop of \<^verbatim>\<open>SHA1Final\<close>.\<close>

partial_function (option) sha1_pad_loop :: "sha1_hasher \<Rightarrow> sha1_hasher option" where
  "sha1_pad_loop this =
     (if sh_count0 this AND 504 \<noteq> 448 then do { this \<leftarrow> SHA1Update this [0] 1; sha1_pad_loop this }
      else Some this)"

definition SHA1Final :: "sha1_hasher \<Rightarrow> (bytes \<times> sha1_hasher) option" where
  "SHA1Final this =
     (let finalcount = map (\<lambda>i. ucast (drop_bit ((3 - i mod 4) * 8) (if i \<ge> 4 then sh_count0 this else sh_count1 this) AND 255)) [0..<8]
      in do {
        this \<leftarrow> SHA1Update this [0x80] 1;
        this \<leftarrow> sha1_pad_loop this;
        this \<leftarrow> SHA1Update this finalcount 8;
        Some (map (\<lambda>i. ucast (drop_bit ((3 - i mod 4) * 8) (sh_state this ! (i div 4)) AND 255)) [0..<20], this)
      })"

definition sha1_reset :: "sha1_hasher \<Rightarrow> sha1_hasher" where
  "sha1_reset this = this\<lparr>
     sh_state := [0x67452301, 0xEFCDAB89, 0x98BADCFE, 0x10325476, 0xC3D2E1F0],
     sh_count0 := 0, sh_count1 := 0\<rparr>"

text \<open>The data length is a \<^verbatim>\<open>size_t\<close>, passed as a \<^verbatim>\<open>uint32_t\<close>.\<close>

definition sha1_get_hash :: "sha1_hasher \<Rightarrow> bytes \<Rightarrow> bool \<Rightarrow> (bytes, sha1_hasher) call" where
  "sha1_get_hash this chunk buffer = do {
     this \<leftarrow> SHA1Update this chunk (of_nat (length chunk));
     if buffer
     then do { (digest, this) \<leftarrow> SHA1Final this; Some (Some digest, sha1_reset this) }
     else Some (Some [], this)
   }"

definition sha1_get_hash_size :: "sha1_hasher \<Rightarrow> nat" where
  "sha1_get_hash_size this = HASH_SIZE_SHA1"

definition sha1_ops :: "sha1_hasher hasher_ops" where
  "sha1_ops = \<lparr>h_get_hash = sha1_get_hash, h_get_hash_size = sha1_get_hash_size,
     h_reset = (\<lambda>this. Some (Some (), sha1_reset this))\<rparr>"

text \<open>\<^verbatim>\<open>INIT\<close> allocates the object with zero bytes.\<close>

definition sha1_hasher_create :: "hash_algorithm \<Rightarrow> sha1_hasher option" where
  "sha1_hasher_create algo =
     (if algo \<noteq> HASH_SHA1 then None
      else Some (sha1_reset \<lparr>sh_state = replicate 5 0, sh_count0 = 0, sh_count1 = 0, sh_buffer = replicate 64 0\<rparr>))"


section \<open>Specification\<close>

text \<open>
  FIPS 180-4, section 6.1.2: the message schedule and the eighty steps on the five working
  variables.
\<close>

fun sha1_W :: "bytes \<Rightarrow> nat \<Rightarrow> u32" where
  "sha1_W M t =
     (if t < 16 then untoh32 (take 4 (drop (4 * t) M))
      else rol (sha1_W M (t - 3) XOR sha1_W M (t - 8) XOR sha1_W M (t - 14) XOR sha1_W M (t - 16)) 1)"

declare sha1_W.simps [simp del]

definition sha1_f :: "nat \<Rightarrow> u32 \<Rightarrow> u32 \<Rightarrow> u32 \<Rightarrow> u32" where
  "sha1_f t x y z =
     (if t < 20 then (x AND y) XOR (NOT x AND z)
      else if t < 40 then x XOR y XOR z
      else if t < 60 then (x AND y) XOR (x AND z) XOR (y AND z)
      else x XOR y XOR z)"

definition sha1_K :: "nat \<Rightarrow> u32" where
  "sha1_K t = (if t < 20 then 0x5A827999 else if t < 40 then 0x6ED9EBA1
               else if t < 60 then 0x8F1BBCDC else 0xCA62C1D6)"

fun sha1_step :: "bytes \<Rightarrow> u32 \<times> u32 \<times> u32 \<times> u32 \<times> u32 \<Rightarrow> nat \<Rightarrow> u32 \<times> u32 \<times> u32 \<times> u32 \<times> u32" where
  "sha1_step M (a, b, c, d, e) t =
     (rol a 5 + sha1_f t b c d + e + sha1_K t + sha1_W M t, a, rol b 30, c, d)"

definition sha1_compress :: "u32 list \<Rightarrow> bytes \<Rightarrow> u32 list" where
  "sha1_compress H M =
     (let (a, b, c, d, e) = foldl (sha1_step M) (H ! 0, H ! 1, H ! 2, H ! 3, H ! 4) [0..<80]
      in [a + H ! 0, b + H ! 1, c + H ! 2, d + H ! 3, e + H ! 4])"

definition sha1_init :: "u32 list" where
  "sha1_init = [0x67452301, 0xEFCDAB89, 0x98BADCFE, 0x10325476, 0xC3D2E1F0]"

text \<open>The length in bits as a 64-bit number behind the padding, five words as the digest.\<close>

definition sha1 :: "bytes \<Rightarrow> bytes" where
  "sha1 = md_hash sha1_compress 64 sha1_init (\<lambda>l. htoun64 (of_nat (8 * l))) (\<lambda>H. concat (map htoun32 H))"


section \<open>The unrolled rounds compute the specification\<close>

lemma bit_masks:
  "\<forall>n \<in> set [0..<32]. bit (0xFF00FF00 :: u32) n = (8 \<le> n \<and> n < 16 \<or> 24 \<le> n)"
  "\<forall>n \<in> set [0..<32]. bit (0x00FF00FF :: u32) n = (n < 8 \<or> 16 \<le> n \<and> n < 24)"
  by code_simp+

lemma swap_bytes:
  assumes "length b = 4"
  shows "(rol (le32 b) 24 AND 0xFF00FF00) OR (rol (le32 b) 8 AND 0x00FF00FF) = untoh32 b"
proof -
  obtain p q r s where b: "b = [p, q, r, s]" using assms by (auto simp: numeral_eq_Suc length_Suc_conv)
  show ?thesis
  proof (rule bit_word_eqI)
    fix n assume "n < LENGTH(32)"
    then consider "n < 8" | "8 \<le> n" "n < 16" | "16 \<le> n" "n < 24" | "24 \<le> n" "n < 32"
      by fastforce
    moreover have "n \<in> set [0..<32]" using \<open>n < LENGTH(32)\<close> by simp
    note mask = bspec [OF bit_masks(1) this] bspec [OF bit_masks(2) this]
    ultimately show "bit ((rol (le32 b) 24 AND 0xFF00FF00) OR (rol (le32 b) 8 AND 0x00FF00FF)) n = bit (untoh32 b) n"
      unfolding b bit_or_iff bit_and_iff mask
      by cases (auto simp: rol_def le32_def untoh32_def bit_simps less_diff_conv2)
  qed
qed

lemma choose_eq: "((x AND (y XOR z)) XOR z :: u32) = (x AND y) XOR (NOT x AND z)"
  by (rule bit_word_eqI) (auto simp: bit_simps)

lemma majority_eq: "(((x OR y) AND z) OR (x AND y) :: u32) = (x AND y) XOR (x AND z) XOR (y AND z)"
  by (rule bit_word_eqI) (auto simp: bit_simps)

text \<open>The position of the working variable \<open>k\<close> of the specification before step \<open>t\<close>.\<close>

definition var :: "nat \<Rightarrow> nat \<Rightarrow> nat" where
  "var t k = (k + 4 * t) mod 5"

definition sha1_op :: "nat \<Rightarrow> nat \<Rightarrow> nat \<Rightarrow> nat \<Rightarrow> nat \<Rightarrow> nat \<Rightarrow> sha1_vars \<Rightarrow> sha1_vars" where
  "sha1_op v w x y z t =
     (if t < 16 then R0 v w x y z t else if t < 20 then R1 v w x y z t else if t < 40 then R2 v w x y z t
      else if t < 60 then R3 v w x y z t else R4 v w x y z t)"

lemma sha1_rounds_eq:
  "sha1_rounds = map (\<lambda>t. sha1_op (var t 0) (var t 1) (var t 2) (var t 3) (var t 4) t) [0..<80]"
proof -
  have "[0..<80] = 0 # 1 # [2..<80]" by (simp add: upt_conv_Cons)
  then show ?thesis
    by (simp add: sha1_rounds_def upt_rec_numeral var_def sha1_op_def) (simp add: numeral_2_eq_2)
qed

text \<open>
  What holds before step \<open>t\<close>: the variables are a rotation of those of the specification,
  and the block holds the last sixteen words of the schedule and the words not yet swapped.
\<close>

definition sched :: "bytes \<Rightarrow> nat \<Rightarrow> u32 list \<Rightarrow> bool" where
  "sched M t l \<longleftrightarrow> length l = 16 \<and> (\<forall>k. k < t \<and> t \<le> k + 16 \<longrightarrow> l ! (k mod 16) = sha1_W M k) \<and>
     (\<forall>k. t \<le> k \<and> k < 16 \<longrightarrow> l ! k = le32 (take 4 (drop (4 * k) M)))"

fun vars :: "nat \<Rightarrow> u32 list \<Rightarrow> u32 \<times> u32 \<times> u32 \<times> u32 \<times> u32" where
  "vars t r = (r ! var t 0, r ! var t 1, r ! var t 2, r ! var t 3, r ! var t 4)"

declare vars.simps [simp del]

lemma sched_blk0:
  assumes "sched M t l" "t < 16" "length M = 64"
  shows "sched M (Suc t) (blk0 t l)" "blk0 t l ! t = sha1_W M t"
proof -
  have t: "l ! t = le32 (take 4 (drop (4 * t) M))" "length l = 16" using assms by (auto simp: sched_def)
  have len: "length (take 4 (drop (4 * t) M)) = 4" using assms by simp
  show w: "blk0 t l ! t = sha1_W M t"
    using assms t swap_bytes [OF len] by (simp add: blk0_def sha1_W.simps [of M t])
  show "sched M (Suc t) (blk0 t l)"
    unfolding sched_def
  proof (intro conjI allI impI)
    show "length (blk0 t l) = 16" using t by (simp add: blk0_def)
    fix k
    show "blk0 t l ! (k mod 16) = sha1_W M k" if "k < Suc t \<and> Suc t \<le> k + 16"
    proof (cases "k = t")
      case False
      then show ?thesis using that assms by (auto simp: sched_def blk0_def)
    qed (use w assms in simp)
    show "blk0 t l ! k = le32 (take 4 (drop (4 * k) M))" if "Suc t \<le> k \<and> k < 16"
      using that assms by (auto simp: sched_def blk0_def)
  qed
qed

lemma sched_blk:
  assumes s: "sched M t l" and t: "16 \<le> t"
  shows "sched M (Suc t) (blk t l)" "blk t l ! (t mod 16) = sha1_W M t"
proof -
  have old: "k < t \<Longrightarrow> t \<le> k + 16 \<Longrightarrow> l ! (k mod 16) = sha1_W M k" for k
    using s by (simp add: sched_def)
  have sub16: "(t + (16 - k)) mod 16 = (t - k) mod 16" if "k \<le> 16" for k
  proof -
    have "t + (16 - k) = t - k + 16" using that t by simp
    then show ?thesis by (simp only: mod_add_self2)
  qed
  have m: "(t + 13) mod 16 = (t - 3) mod 16" "(t + 8) mod 16 = (t - 8) mod 16"
    "(t + 2) mod 16 = (t - 14) mod 16" "(t - 16) mod 16 = t mod 16"
    using sub16 [of 3] sub16 [of 8] sub16 [of 14] sub16 [of 16] by simp_all
  show w: "blk t l ! (t mod 16) = sha1_W M t"
    using s t old [of "t - 3"] old [of "t - 8"] old [of "t - 14"] old [of "t - 16"] m
    by (simp add: blk_def sched_def sha1_W.simps [of M t])
  show "sched M (Suc t) (blk t l)"
    unfolding sched_def
  proof (intro conjI allI impI)
    show "length (blk t l) = 16" using s by (simp add: blk_def sched_def)
    fix k
    show "blk t l ! (k mod 16) = sha1_W M k" if "k < Suc t \<and> Suc t \<le> k + 16"
    proof (cases "k = t")
      case False
      then have "k < t" "t - k < 16" using that by auto
      then have "\<not> 16 dvd t - k" using nat_dvd_not_less [of "t - k" 16] by simp
      then have "k mod 16 \<noteq> t mod 16"
        using \<open>k < t\<close> mod_eq_dvd_iff_nat [of k t 16] by (metis less_imp_le)
      then show ?thesis using that False old [of k] by (simp add: blk_def)
    qed (use w in simp)
  qed (use t in simp)
qed

lemma var_Suc: "var (Suc t) (Suc k) = var t k"
proof -
  have "Suc k + 4 * Suc t = k + 4 * t + 5" by simp
  then show ?thesis by (simp only: var_def mod_add_self2)
qed

lemma var_facts:
  "var (Suc t) 0 = var t 4" "var (Suc t) 1 = var t 0" "var (Suc t) 2 = var t 1"
  "var (Suc t) 3 = var t 2" "var (Suc t) 4 = var t 3"
proof -
  show "var (Suc t) 0 = var t 4" by (simp add: var_def)
  show "var (Suc t) 1 = var t 0" using var_Suc [of t 0] by simp
  show "var (Suc t) 2 = var t 1" using var_Suc [of t 1] by (simp only: Suc_1)
  show "var (Suc t) 3 = var t 2" "var (Suc t) 4 = var t 3"
    using var_Suc [of t 2] var_Suc [of t 3] by simp_all
qed

lemma var_less: "var t k < 5"
  by (simp add: var_def)

lemma var_inj:
  assumes "j < 5" "k < 5" "j \<noteq> k"
  shows "var t j \<noteq> var t k"
proof
  assume eq: "var t j = var t k"
  have "5 dvd k' - j'" if "j' \<le> k'" "(j' + 4 * t) mod 5 = (k' + 4 * t) mod 5" for j' k' :: nat
    using mod_eq_dvd_iff_nat [of "j' + 4 * t" "k' + 4 * t" 5] that by simp
  then have "5 dvd k - j" "5 dvd j - k" using eq by (cases "j \<le> k"; simp add: var_def)+
  then show False using assms by (auto dest!: dvd_imp_le)
qed

text \<open>One step on the variables, with the word of the schedule.\<close>

definition sha1_update :: "nat \<Rightarrow> u32 \<Rightarrow> u32 list \<Rightarrow> u32 list" where
  "sha1_update t W r =
     (let r = r[var t 4 := r ! var t 4 + (sha1_f t (r ! var t 1) (r ! var t 2) (r ! var t 3) + W +
                                         sha1_K t + rol (r ! var t 0) 5)]
      in r[var t 1 := rol (r ! var t 1) 30])"

lemma length_sha1_update [simp]: "length (sha1_update t W r) = length r"
  by (simp add: sha1_update_def Let_def)

lemma sha1_op_eq:
  "sha1_op (var t 0) (var t 1) (var t 2) (var t 3) (var t 4) t (r, l) =
     (let l' = (if t < 16 then blk0 t l else blk t l) in (sha1_update t (l' ! (t mod 16)) r, l'))"
proof -
  consider "t < 16" | "16 \<le> t" "t < 20" | "20 \<le> t" "t < 40" | "40 \<le> t" "t < 60" | "60 \<le> t" by linarith
  then show ?thesis
    by cases (simp_all add: sha1_op_def sha1_update_def Let_def sha1_f_def sha1_K_def choose_eq majority_eq)
qed

lemma sha1_update_step:
  assumes "length r = 5"
  shows "vars (Suc t) (sha1_update t (sha1_W M t) r) = sha1_step M (vars t r) t"
proof -
  have d: "var t 4 \<noteq> var t 0" "var t 4 \<noteq> var t 1" "var t 4 \<noteq> var t 2" "var t 4 \<noteq> var t 3"
    "var t 1 \<noteq> var t 0" "var t 1 \<noteq> var t 2" "var t 1 \<noteq> var t 3" "var t 1 \<noteq> var t 4"
    by (rule var_inj; simp)+
  have b: "var t k < length r" for k using assms by (simp add: var_less)
  show ?thesis
    by (simp add: vars.simps sha1_update_def Let_def var_facts(1-5) b d d [symmetric] ac_simps del: One_nat_def)
qed

lemma sha1_rounds_foldl:
  assumes "length r = 5" "length M = 64" "t \<le> 80"
  shows "\<exists>r' l'. foldl (\<lambda>s f. f s) (r, block_words M)
      (map (\<lambda>t. sha1_op (var t 0) (var t 1) (var t 2) (var t 3) (var t 4) t) [0..<t]) = (r', l') \<and>
    length r' = 5 \<and> vars t r' = foldl (sha1_step M) (vars 0 r) [0..<t] \<and> sched M t l'"
  using assms(3)
proof (induction t)
  case 0
  show ?case using assms by (simp add: sched_def block_words_def)
next
  case (Suc t)
  then obtain r' l' where IH: "foldl (\<lambda>s f. f s) (r, block_words M)
      (map (\<lambda>t. sha1_op (var t 0) (var t 1) (var t 2) (var t 3) (var t 4) t) [0..<t]) = (r', l')"
    "length r' = 5" "vars t r' = foldl (sha1_step M) (vars 0 r) [0..<t]" "sched M t l'"
    by auto
  let ?l = "if t < 16 then blk0 t l' else blk t l'"
  have w: "sched M (Suc t) ?l" "?l ! (t mod 16) = sha1_W M t"
    using sched_blk0 [OF IH(4) _ assms(2)] sched_blk [OF IH(4)] by auto
  show ?case
    using IH(1-3) w sha1_update_step [OF IH(2), of t M]
    by (simp add: sha1_op_eq [simplified] Let_def)
qed

lemma SHA1Transform_eq:
  assumes "length H = 5" "length M = 64"
  shows "SHA1Transform H M = sha1_compress H M"
proof -
  obtain r l where r: "foldl (\<lambda>s f. f s) (H, block_words M) sha1_rounds = (r, l)" "length r = 5"
    "vars 80 r = foldl (sha1_step M) (vars 0 H) [0..<80]"
    using sha1_rounds_foldl [OF assms, of 80] by (auto simp: sha1_rounds_eq)
  obtain a b c d e where H: "H = [a, b, c, d, e]" using assms(1) by (auto simp: numeral_eq_Suc length_Suc_conv)
  obtain a' b' c' d' e' where r': "r = [a', b', c', d', e']" using r(2) by (auto simp: numeral_eq_Suc length_Suc_conv)
  have "foldl (sha1_step M) (a, b, c, d, e) [0..<80] = (a', b', c', d', e')"
    using r(3) by (simp add: H r' vars.simps var_def)
  then show ?thesis
    using r(1) by (simp add: SHA1Transform_def sha1_compress_def H r' add.commute)
qed


section \<open>Feeding the hasher\<close>

text \<open>
  The hasher after the bytes \<open>m\<close>: the state is the compression of the full blocks, the
  buffer starts with the bytes behind them, the two counters hold the number of bits.
\<close>

definition sha1_fed :: "sha1_hasher \<Rightarrow> bytes \<Rightarrow> bool" where
  "sha1_fed h m \<longleftrightarrow> sh_state h = absorb SHA1Transform 64 sha1_init m \<and> length (sh_buffer h) = 64 \<and>
     take (length m mod 64) (sh_buffer h) = rest 64 m \<and>
     sh_count0 h = of_nat (8 * length m) \<and> sh_count1 h = of_nat (8 * length m div 2 ^ 32)"

lemma sha1_blocks_eq:
  assumes "unat len + 63 < 2 ^ 32" "unat i \<le> unat len" "unat len \<le> length data"
  shows "\<exists>i'. sha1_blocks data len i st =
      Some (i', absorb SHA1Transform 64 st (take (unat len - unat i) (drop (unat i) data))) \<and>
    unat i' = unat len - (unat len - unat i) mod 64"
  using assms(2)
proof (induction "unat len - unat i" arbitrary: i st rule: less_induct)
  case less
  have i63: "unat (i + 63) = unat i + 63"
    using less.prems assms(1) by (simp add: unat_word_ariths)
  show ?case
  proof (cases "unat i + 63 < unat len")
    case True
    let ?b = "take 64 (drop (unat i) data)" and ?d = "take (unat len - unat i) (drop (unat i) data)"
    have i64: "unat (i + 64) = unat i + 64"
      using True assms(1) by (simp add: unat_word_ariths)
    have "length ?b = 64" using True assms(3) by simp
    moreover have "?d = ?b @ take (unat len - unat (i + 64)) (drop (unat (i + 64)) data)"
      using True take_add [of 64 "unat len - unat i - 64" "drop (unat i) data"]
      by (simp add: i64 add.commute)
    ultimately have ab: "absorb SHA1Transform 64 st ?d = absorb SHA1Transform 64 (SHA1Transform st ?b)
        (take (unat len - unat (i + 64)) (drop (unat (i + 64)) data))"
      by (simp add: absorb_block)
    have "unat len - unat (i + 64) < unat len - unat i" "unat (i + 64) \<le> unat len"
      using True i64 by simp_all
    then obtain i' where i': "sha1_blocks data len (i + 64) (SHA1Transform st ?b) = Some (i', absorb SHA1Transform 64 st ?d)"
      "unat i' = unat len - (unat len - unat (i + 64)) mod 64"
      using less.hyps [of "i + 64" "SHA1Transform st ?b"] ab by metis
    have "(unat len - unat i) mod 64 = (unat len - unat (i + 64)) mod 64"
      using True mod_add_self2 [of "unat len - unat i - 64" 64] i64 by simp
    moreover have "sha1_blocks data len i st = sha1_blocks data len (i + 64) (SHA1Transform st ?b)"
      using True assms(3) i63 by (subst sha1_blocks.simps) (simp add: word_less_nat_alt)
    ultimately show ?thesis using i' by simp
  next
    case False
    then have "sha1_blocks data len i st = Some (i, st)"
      using i63 by (subst sha1_blocks.simps) (simp add: word_less_nat_alt)
    then show ?thesis using False less.prems by simp
  qed
qed

text \<open>
  A call with a data length that does not wrap, seen from the message: where the buffered bytes
  and the data fill a block, and the counters afterwards.
\<close>

definition sha1_counted :: "sha1_hasher \<Rightarrow> nat \<Rightarrow> sha1_hasher" where
  "sha1_counted h l = h\<lparr>sh_count0 := of_nat (8 * l), sh_count1 := of_nat (8 * l div 2 ^ 32)\<rparr>"

lemma sha1_update_eq:
  fixes len j :: u32
  assumes fed: "sha1_fed h m" and lim: "length d + 63 < 2 ^ 32"
  defines "len \<equiv> of_nat (length d)" and "j \<equiv> of_nat (length m mod 64)" and "g \<equiv> sha1_counted h (length (m @ d))"
  shows "SHA1Update h d len =
      (if 64 \<le> length m mod 64 + length d
       then do {
         x \<leftarrow> load d 0 (unat (64 - j));
         b \<leftarrow> store (sh_buffer g) (unat j) x;
         (i, state) \<leftarrow> sha1_blocks d len (64 - j) (SHA1Transform (sh_state g) b);
         x \<leftarrow> load d (unat i) (unat (len - i));
         b \<leftarrow> store b 0 x;
         Some (g\<lparr>sh_state := state, sh_buffer := b\<rparr>)
       }
       else do {
         x \<leftarrow> load d 0 (unat len);
         b \<leftarrow> store (sh_buffer g) (unat j) x;
         Some (g\<lparr>sh_buffer := b\<rparr>)
       })" (is ?upd)
    and "unat len = length d" and "unat j = length m mod 64" and "unat (64 - j) = 64 - length m mod 64"
proof -
  show ul: "unat len = length d" using lim by (simp add: len_def unat_of_nat)
  have jl: "length m mod 64 < 64" by simp
  show uj: "unat j = length m mod 64" using jl by (simp add: j_def unat_of_nat)
  show "unat (64 - j) = 64 - length m mod 64" using jl uj by (simp add: unat_sub word_le_nat_alt)
  have sum: "j + len > 63 \<longleftrightarrow> 64 \<le> length m mod 64 + length d"
    using lim jl ul uj by (auto simp: word_less_nat_alt unat_word_ariths)
  have lt: "length d < 2 ^ 32" using lim by simp
  have h: "sh_count0 h = of_nat (8 * length m)" "sh_count1 h = of_nat (8 * length m div 2 ^ 32)"
    using fed by (simp_all add: sha1_fed_def)
  show ?upd
    unfolding SHA1Update_def Let_def h len_def count_high [OF lt]
    unfolding count_low count_index sum [unfolded len_def] j_def [symmetric] g_def sha1_counted_def length_append [symmetric] ..
qed

lemma sha1_update_short:
  assumes fed: "sha1_fed h m" and lim: "length d + 63 < 2 ^ 32" and short: "length m mod 64 + length d < 64"
  shows "\<exists>h'. SHA1Update h d (of_nat (length d)) = Some h' \<and> sha1_fed h' (m @ d)"
proof -
  note upd = sha1_update_eq [OF fed lim]
  have h: "sh_state h = absorb SHA1Transform 64 sha1_init m" "length (sh_buffer h) = 64"
    "take (length m mod 64) (sh_buffer h) = rest 64 m"
    using fed by (simp_all add: sha1_fed_def)
  define b where "b = take (length m mod 64) (sh_buffer h) @ d @ drop (length m mod 64 + length d) (sh_buffer h)"
  define g where "g = (sha1_counted h (length (m @ d)))\<lparr>sh_buffer := b\<rparr>"
  have "SHA1Update h d (of_nat (length d)) = Some g"
    unfolding upd(1) upd(2,3) using short h(2) by (simp add: g_def sha1_counted_def b_def)
  moreover have "length (m @ d) mod 64 = length m mod 64 + length d"
    using short by (metis length_append mod_add_left_eq mod_less)
  then have "sha1_fed g (m @ d)"
    using short h absorb_append [of 64 SHA1Transform sha1_init m d] rest_append [of 64 m d]
    by (simp add: sha1_fed_def g_def sha1_counted_def b_def)
  ultimately show ?thesis by blast
qed

lemma sha1_update_long:
  assumes fed: "sha1_fed h m" and lim: "length d + 63 < 2 ^ 32" and long: "64 \<le> length m mod 64 + length d"
  shows "\<exists>h'. SHA1Update h d (of_nat (length d)) = Some h' \<and> sha1_fed h' (m @ d)"
proof -
  let ?len = "of_nat (length d) :: u32" and ?j = "of_nat (length m mod 64) :: u32" and ?r = "rest 64 m"
  let ?k = "64 - length m mod 64"
  note upd = sha1_update_eq [OF fed lim]
  have h: "sh_state h = absorb SHA1Transform 64 sha1_init m" "length (sh_buffer h) = 64"
    "take (length m mod 64) (sh_buffer h) = ?r"
    using fed by (simp_all add: sha1_fed_def)
  have kd: "?k \<le> length d" using long by simp
  define b where "b = ?r @ take ?k d"
  define n where "n = (length d - ?k) mod 64"
  note refill = rest_refill [of ?r 64 d, unfolded length_rest, OF _ kd, folded b_def n_def, simplified]
  obtain i where i: "sha1_blocks d ?len (64 - ?j) (SHA1Transform (sh_state h) b) =
      Some (i, absorb SHA1Transform 64 (sh_state h) (?r @ d))" "unat i = length d - n"
    using sha1_blocks_eq [of ?len "64 - ?j" d "SHA1Transform (sh_state h) b", unfolded upd(2,4)] lim kd refill(4,5)
    by (auto simp: absorb_block n_def)
  have ui: "unat (?len - i) = n" using refill(3) i(2) upd(2) by (simp add: unat_sub word_le_nat_alt)
  define b' where "b' = drop (length d - n) d @ drop n b"
  define g where "g = sha1_counted h (length (m @ d))"
  have g: "sh_state g = sh_state h" "sh_buffer g = sh_buffer h" by (simp_all add: g_def sha1_counted_def)
  have steps: "load d 0 (unat (64 - ?j)) = Some (take ?k d)"
    "store (sh_buffer g) (unat ?j) (take ?k d) = Some b"
    "load d (unat i) (unat (?len - i)) = Some (drop (length d - n) d)"
    "store b 0 (drop (length d - n) d) = Some b'"
    unfolding upd(3,4) ui using h(2,3) kd i(2) refill(3,4) by (simp_all add: b_def b'_def g n_def)
  have "SHA1Update h d ?len = Some (g\<lparr>sh_state := absorb SHA1Transform 64 (sh_state h) (?r @ d), sh_buffer := b'\<rparr>)"
    unfolding upd(1) g_def [symmetric] using long i(1) g(1) by (simp add: steps)
  moreover have "length (m @ d) mod 64 = n"
    using refill(2) by (simp add: mod_add_left_eq)
  then have "sha1_fed (g\<lparr>sh_state := absorb SHA1Transform 64 (sh_state h) (?r @ d), sh_buffer := b'\<rparr>) (m @ d)"
    using refill(1,3,4) h(1) absorb_append [of 64 SHA1Transform sha1_init m d] rest_append [of 64 m d]
    by (simp add: sha1_fed_def g_def sha1_counted_def b'_def)
  ultimately show ?thesis by blast
qed

lemma sha1_update_ok:
  assumes "sha1_fed h m" "length d + 63 < 2 ^ 32"
  shows "\<exists>h'. SHA1Update h d (of_nat (length d)) = Some h' \<and> sha1_fed h' (m @ d)"
  using sha1_update_short [OF assms] sha1_update_long [OF assms] by (meson not_le)


section \<open>Padding and digest\<close>

lemma sha1_update_byte:
  "sha1_fed h m \<Longrightarrow> \<exists>h'. SHA1Update h [b] 1 = Some h' \<and> sha1_fed h' (m @ [b])"
  using sha1_update_ok [of h m "[b]"] by simp

text \<open>The loop feeds zeros until 56 bytes of a block are filled.\<close>

lemma sha1_pad_loop_ok:
  assumes "sha1_fed h m" "(length m + k) mod 64 = 56" "\<And>i. i < k \<Longrightarrow> (length m + i) mod 64 \<noteq> 56"
  shows "\<exists>h'. sha1_pad_loop h = Some h' \<and> sha1_fed h' (m @ replicate k 0)"
  using assms
proof (induction k arbitrary: h m)
  case 0
  then have "sh_count0 h AND 504 = 448" by (simp add: sha1_fed_def count_at_56 del: of_nat_mult)
  then show ?case using 0 by (subst sha1_pad_loop.simps) simp
next
  case (Suc k)
  have "sh_count0 h AND 504 \<noteq> 448"
    using Suc.prems(1) Suc.prems(3) [of 0] by (simp add: sha1_fed_def count_at_56 del: of_nat_mult)
  moreover obtain g where g: "SHA1Update h [0] 1 = Some g" "sha1_fed g (m @ [0])"
    using sha1_update_byte [OF Suc.prems(1)] by blast
  ultimately have "sha1_pad_loop h = sha1_pad_loop g" by (subst sha1_pad_loop.simps) simp
  moreover have "(length (m @ [0]) + k) mod 64 = 56" using Suc.prems(2) by simp
  moreover have "(length (m @ [0]) + i) mod 64 \<noteq> 56" if "i < k" for i
    using Suc.prems(3) [of "Suc i"] that by simp
  ultimately show ?case using Suc.IH [OF g(2)] by (simp add: replicate_append_same [symmetric])
qed

lemma ucast_low: "ucast (x AND 255) = (ucast x :: u8)" for x :: u32
proof -
  have "x AND 255 = take_bit 8 x" by (simp add: take_bit_eq_mask mask_eq_exp_minus_1)
  then show ?thesis by (auto intro: bit_word_eqI simp: bit_simps)
qed

lemma digest_bytes:
  assumes "length w = 5"
  shows "map (\<lambda>i. ucast (drop_bit ((3 - i mod 4) * 8) (w ! (i div 4)) AND 255)) [0..<20] =
    (concat (map htoun32 w) :: bytes)"
proof -
  obtain a b c d e where w: "w = [a, b, c, d, e]" using assms by (auto simp: numeral_eq_Suc length_Suc_conv)
  have "[0..<20] = 0 # 1 # [2..<20]" by (simp add: upt_conv_Cons)
  then show ?thesis
    unfolding ucast_low w by (simp add: htoun32_def)
qed

lemma finalcount_bytes:
  "map (\<lambda>i. ucast (drop_bit ((3 - i mod 4) * 8) (if i \<ge> 4 then c0 else c1) AND 255)) [0..<8] =
    htoun32 c1 @ htoun32 c0"
proof -
  have "[0..<8] = 0 # 1 # [2..<8]" by (simp add: upt_conv_Cons)
  then show ?thesis unfolding ucast_low by (simp add: htoun32_def)
qed

lemma length_sha1_compress: "length (sha1_compress H M) = 5"
  by (simp add: sha1_compress_def split: prod.splits)

lemma absorb_SHA1Transform:
  "absorb SHA1Transform 64 sha1_init m = absorb sha1_compress 64 sha1_init m"
  "length (absorb sha1_compress 64 sha1_init m) = 5"
proof -
  have "absorb SHA1Transform 64 sha1_init m = absorb sha1_compress 64 sha1_init m \<and>
    length (absorb sha1_compress 64 sha1_init m) = 5"
    by (rule absorb_cong) (simp_all add: SHA1Transform_eq length_sha1_compress, simp add: sha1_init_def)
  then show "absorb SHA1Transform 64 sha1_init m = absorb sha1_compress 64 sha1_init m"
    "length (absorb sha1_compress 64 sha1_init m) = 5" by simp_all
qed

lemma sha1_final_ok:
  assumes fed: "sha1_fed h m"
  shows "\<exists>h'. SHA1Final h = Some (sha1 m, h') \<and> length (sh_buffer h') = 64"
proof -
  let ?k = "zeros_len 64 (length m)" and ?fc = "htoun64 (of_nat (8 * length m))"
  obtain h1 where h1: "SHA1Update h [0x80] 1 = Some h1" "sha1_fed h1 (m @ [0x80])"
    using sha1_update_byte [OF fed] by blast
  obtain h2 where h2: "sha1_pad_loop h1 = Some h2" "sha1_fed h2 ((m @ [0x80]) @ replicate ?k 0)"
    using sha1_pad_loop_ok [OF h1(2), of ?k] zeros_len_mod [of 64 "length m"]
      zeros_len_first [of 64 _ "length m"] by auto
  obtain h3 where h3: "SHA1Update h2 ?fc 8 = Some h3" "sha1_fed h3 (((m @ [0x80]) @ replicate ?k 0) @ ?fc)"
    using sha1_update_ok [OF h2(2), of ?fc] by auto
  have pad: "((m @ [0x80]) @ replicate ?k 0) @ ?fc = md_pad 64 (\<lambda>l. htoun64 (of_nat (8 * l))) m"
    by (simp add: md_pad_def)
  have fc: "map (\<lambda>i. ucast (drop_bit ((3 - i mod 4) * 8) (if i \<ge> 4 then sh_count0 h else sh_count1 h) AND 255)) [0..<8] = ?fc"
    unfolding finalcount_bytes htoun64_halves using fed by (simp add: sha1_fed_def)
  have "sh_state h3 = absorb sha1_compress 64 sha1_init (md_pad 64 (\<lambda>l. htoun64 (of_nat (8 * l))) m)"
    using h3(2) unfolding pad by (simp add: sha1_fed_def absorb_SHA1Transform)
  then have "map (\<lambda>i. ucast (drop_bit ((3 - i mod 4) * 8) (sh_state h3 ! (i div 4)) AND 255)) [0..<20] = sha1 m"
    by (simp add: digest_bytes absorb_SHA1Transform sha1_def md_hash_def)
  then have "SHA1Final h = Some (sha1 m, h3)"
    unfolding SHA1Final_def Let_def fc using h1(1) h2(1) h3(1) by simp
  then show ?thesis using h3(2) by (auto simp: sha1_fed_def)
qed

lemma sha1_reset_ok: "length (sh_buffer h) = 64 \<Longrightarrow> sha1_fed (sha1_reset h) []"
  by (simp add: sha1_fed_def sha1_reset_def sha1_init_def)

interpretation s1: hasher sha1_ops sha1_fed sha1 20 "2 ^ 32 - 64"
proof
  fix h m and d :: bytes
  assume fed: "sha1_fed h m"
  show "\<exists>h'. h_reset sha1_ops h = Some (Some (), h') \<and> sha1_fed h' []"
    using fed sha1_reset_ok by (auto simp: sha1_ops_def sha1_fed_def)
  show "h_get_hash_size sha1_ops h = 20"
    by (simp add: sha1_ops_def sha1_get_hash_size_def hash_sizes)
  assume "length d \<le> 2 ^ 32 - 64"
  then obtain g where g: "SHA1Update h d (of_nat (length d)) = Some g" "sha1_fed g (m @ d)"
    using sha1_update_ok [OF fed, of d] by auto
  then show "\<exists>h'. h_get_hash sha1_ops h d False = Some (Some [], h') \<and> sha1_fed h' (m @ d)"
    by (simp add: sha1_ops_def sha1_get_hash_def)
  obtain h' where "SHA1Final g = Some (sha1 (m @ d), h')" "length (sh_buffer h') = 64"
    using sha1_final_ok [OF g(2)] by blast
  then show "\<exists>h'. h_get_hash sha1_ops h d True = Some (Some (sha1 (m @ d)), h') \<and> sha1_fed h' []"
    using g(1) sha1_reset_ok by (simp add: sha1_ops_def sha1_get_hash_def)
next
  show "length (sha1 m) = 20" for m
    by (simp add: sha1_def md_hash_def absorb_SHA1Transform)
qed

text \<open>
  C34. A new SHA-1 hasher, or one that has returned a digest, computes the hash of FIPS 180-4 of
  the concatenation of all data it is given, in whatever pieces, as long as no piece exceeds
  $2^{32} - 64$ bytes; it never leaves its buffers, and afterwards it is ready for the next
  message.
\<close>

theorem sha1_any_pieces:
  assumes "\<forall>d \<in> set (ds @ [d]). length d \<le> 2 ^ 32 - 64"
  shows "(\<exists>h. sha1_hasher_create HASH_SHA1 = Some h \<and> sha1_fed h []) \<and>
    (\<forall>h. sha1_fed h [] \<longrightarrow> (\<exists>h' h''. h_feed sha1_ops h ds = Some h' \<and>
       sha1_get_hash h' d True = Some (Some (sha1 (concat ds @ d)), h'') \<and> sha1_fed h'' []))"
proof (intro conjI allI impI)
  show "\<exists>h. sha1_hasher_create HASH_SHA1 = Some h \<and> sha1_fed h []"
    by (simp add: sha1_hasher_create_def sha1_reset_ok)
  show "\<exists>h' h''. h_feed sha1_ops h ds = Some h' \<and>
       sha1_get_hash h' d True = Some (Some (sha1 (concat ds @ d)), h'') \<and> sha1_fed h'' []" if "sha1_fed h []" for h
    using s1.feed_finish [OF that, of ds d] assms by (simp add: sha1_ops_def)
qed

theorem sha1_any_pieces_witness:
  "\<exists>h h' h''. sha1_hasher_create HASH_SHA1 = Some h \<and> h_feed sha1_ops h [[0x61], [0x62]] = Some h' \<and>
     sha1_get_hash h' [0x63] True = Some (Some (sha1 [0x61, 0x62, 0x63]), h'') \<and> sha1_fed h'' []"
  using sha1_any_pieces [of "[[0x61], [0x62]]" "[0x63]"] by auto

end
