(* ===== verification/Hmac.thy ===== *)
theory Hmac
  imports Sha1 Memory
begin

text \<open>
  Message authentication: HMAC of \<^verbatim>\<open>plugins/hmac/hmac.c\<close> on any hasher, and the two
  wrappers of \<^verbatim>\<open>crypto/signers/mac_signer.c\<close> and \<^verbatim>\<open>crypto/prfs/mac_prf.c\<close>
  that turn a MAC into a signer and into a pseudo random function. The contracts of the three
  interfaces are locales; each layer is shown to satisfy its contract from the contract of the
  layer below.
\<close>


section \<open>The interfaces\<close>

text \<open>As for hashers, the flag says whether the output pointer is not \<^verbatim>\<open>NULL\<close>.\<close>

record 'm mac_ops =
  m_get_mac :: "'m \<Rightarrow> bytes \<Rightarrow> bool \<Rightarrow> (bytes, 'm) call"
  m_get_mac_size :: "'m \<Rightarrow> nat"
  m_set_key :: "'m \<Rightarrow> bytes \<Rightarrow> (unit, 'm) call"

record 's signer_ops =
  s_get_signature :: "'s \<Rightarrow> bytes \<Rightarrow> bool \<Rightarrow> (bytes, 's) call"
  s_allocate_signature :: "'s \<Rightarrow> bytes \<Rightarrow> bool \<Rightarrow> (bytes, 's) call"
  s_verify_signature :: "'s \<Rightarrow> bytes \<Rightarrow> bytes \<Rightarrow> (unit, 's) call"
  s_get_key_size :: "'s \<Rightarrow> nat"
  s_get_block_size :: "'s \<Rightarrow> nat"
  s_set_key :: "'s \<Rightarrow> bytes \<Rightarrow> (unit, 's) call"

record 'p prf_ops =
  p_get_bytes :: "'p \<Rightarrow> bytes \<Rightarrow> bool \<Rightarrow> (bytes, 'p) call"
  p_allocate_bytes :: "'p \<Rightarrow> bytes \<Rightarrow> bool \<Rightarrow> (bytes, 'p) call"
  p_get_block_size :: "'p \<Rightarrow> nat"
  p_get_key_size :: "'p \<Rightarrow> nat"
  p_set_key :: "'p \<Rightarrow> bytes \<Rightarrow> (unit, 'p) call"


section \<open>HMAC\<close>

text \<open>
  The two padded keys point to allocated memory, indeterminate (\<open>None\<close>) until the first
  key is set.
\<close>

record 'h hmac =
  hm_b :: nat
  hm_h :: 'h
  opaded_key :: "bytes option"
  ipaded_key :: "bytes option"

definition with_h :: "'h hmac \<Rightarrow> ('o, 'h) call \<Rightarrow> ('o, 'h hmac) call" where
  "with_h this r = map_option (\<lambda>(x, h). (x, this\<lparr>hm_h := h\<rparr>)) r"

definition hmac_get_mac :: "'h hasher_ops \<Rightarrow> 'h hmac \<Rightarrow> bytes \<Rightarrow> bool \<Rightarrow> (bytes, 'h hmac) call" where
  "hmac_get_mac ops this data out =
     with_h this
       (if \<not> out then h_get_hash ops (hm_h this) data False
        else and_then (h_get_hash ops (hm_h this) data True) (\<lambda>inner h. do {
               opad \<leftarrow> opaded_key this;
               and_then (h_get_hash ops h opad False) (\<lambda>_ h.
               and_then (h_get_hash ops h inner True) (\<lambda>mac h. do {
                 ipad \<leftarrow> ipaded_key this;
                 and_then (h_get_hash ops h ipad False) (\<lambda>_ h. Some (Some mac, h))
               }))
             }))"

definition hmac_get_mac_size :: "'h hasher_ops \<Rightarrow> 'h hmac \<Rightarrow> nat" where
  "hmac_get_mac_size ops this = h_get_hash_size ops (hm_h this)"

definition hmac_set_key :: "'h hasher_ops \<Rightarrow> 'h hmac \<Rightarrow> bytes \<Rightarrow> (unit, 'h hmac) call" where
  "hmac_set_key ops this key =
     (let buffer = replicate (hm_b this) 0
      in and_then
           (if length key > hm_b this
            then with_h this
                   (and_then (h_reset ops (hm_h this)) (\<lambda>_ h.
                    and_then (h_get_hash ops h key True) (\<lambda>digest h. do {
                      buffer \<leftarrow> store buffer 0 digest;
                      Some (Some buffer, h)
                    })))
            else do { buffer \<leftarrow> store buffer 0 key; Some (Some buffer, this) })
           (\<lambda>buffer this.
             let ipad = map (\<lambda>x. x XOR 0x36) buffer;
                 this = this\<lparr>ipaded_key := Some ipad, opaded_key := Some (map (\<lambda>x. x XOR 0x5C) buffer)\<rparr>
             in with_h this
                  (and_then (h_reset ops (hm_h this)) (\<lambda>_ h.
                   and_then (h_get_hash ops h ipad False) (\<lambda>_ h. Some (Some (), h))))))"

definition hmac_ops :: "'h hasher_ops \<Rightarrow> 'h hmac mac_ops" where
  "hmac_ops ops = \<lparr>m_get_mac = hmac_get_mac ops, m_get_mac_size = hmac_get_mac_size ops,
     m_set_key = hmac_set_key ops\<rparr>"

text \<open>\<open>create_hasher\<close> is the crypto factory, which plugins fill.\<close>

definition hmac_create :: "(hash_algorithm \<Rightarrow> 'h option) \<Rightarrow> hash_algorithm \<Rightarrow> 'h hmac option" where
  "hmac_create create_hasher hash_algorithm =
     do {
       b \<leftarrow> (case hash_algorithm of
               HASH_SHA1 \<Rightarrow> Some 64 | HASH_MD5 \<Rightarrow> Some 64 | HASH_SHA256 \<Rightarrow> Some 64
             | HASH_SHA384 \<Rightarrow> Some 128 | HASH_SHA512 \<Rightarrow> Some 128
             | _ \<Rightarrow> None);
       h \<leftarrow> create_hasher hash_algorithm;
       Some \<lparr>hm_b = b, hm_h = h, opaded_key = None, ipaded_key = None\<rparr>
     }"


section \<open>MAC based signers\<close>

record 'm mac_signer =
  sg_mac :: 'm
  truncation :: nat

definition with_mac :: "'m mac_signer \<Rightarrow> ('o, 'm) call \<Rightarrow> ('o, 'm mac_signer) call" where
  "with_mac this r = map_option (\<lambda>(x, m). (x, this\<lparr>sg_mac := m\<rparr>)) r"

text \<open>
  The MAC is written to a local buffer, from which \<^verbatim>\<open>truncation\<close> bytes are copied to
  memory of the caller (\<open>get_signature\<close>) or to allocated memory.
\<close>

definition get_signature :: "'m mac_ops \<Rightarrow> 'm mac_signer \<Rightarrow> bytes \<Rightarrow> bool \<Rightarrow> (bytes, 'm mac_signer) call" where
  "get_signature ops this data buffer =
     with_mac this
       (if buffer
        then and_then (m_get_mac ops (sg_mac this) data True) (\<lambda>mac m. do {
               sig \<leftarrow> load mac 0 (truncation this);
               Some (Some sig, m)
             })
        else m_get_mac ops (sg_mac this) data False)"

definition allocate_signature :: "'m mac_ops \<Rightarrow> 'm mac_signer \<Rightarrow> bytes \<Rightarrow> bool \<Rightarrow> (bytes, 'm mac_signer) call" where
  "allocate_signature ops this data chunk =
     with_mac this
       (if chunk
        then and_then (m_get_mac ops (sg_mac this) data True) (\<lambda>mac m. do {
               sig \<leftarrow> load mac 0 (truncation this);
               sig \<leftarrow> store (replicate (truncation this) 0) 0 sig;
               Some (Some sig, m)
             })
        else m_get_mac ops (sg_mac this) data False)"

definition verify_signature :: "'m mac_ops \<Rightarrow> 'm mac_signer \<Rightarrow> bytes \<Rightarrow> bytes \<Rightarrow> (unit, 'm mac_signer) call" where
  "verify_signature ops this data signature =
     (if length signature \<noteq> truncation this then Some (None, this)
      else with_mac this
             (and_then (m_get_mac ops (sg_mac this) data True) (\<lambda>mac m. do {
                eq \<leftarrow> memeq_const signature mac (truncation this);
                Some (if eq then Some () else None, m)
              })))"

definition signer_get_key_size :: "'m mac_ops \<Rightarrow> 'm mac_signer \<Rightarrow> nat" where
  "signer_get_key_size ops this = m_get_mac_size ops (sg_mac this)"

definition signer_get_block_size :: "'m mac_signer \<Rightarrow> nat" where
  "signer_get_block_size this = truncation this"

definition signer_set_key :: "'m mac_ops \<Rightarrow> 'm mac_signer \<Rightarrow> bytes \<Rightarrow> (unit, 'm mac_signer) call" where
  "signer_set_key ops this key = with_mac this (m_set_key ops (sg_mac this) key)"

definition mac_signer_ops :: "'m mac_ops \<Rightarrow> 'm mac_signer signer_ops" where
  "mac_signer_ops ops = \<lparr>s_get_signature = get_signature ops, s_allocate_signature = allocate_signature ops,
     s_verify_signature = verify_signature ops, s_get_key_size = signer_get_key_size ops,
     s_get_block_size = signer_get_block_size, s_set_key = signer_set_key ops\<rparr>"

definition mac_signer_create :: "'m mac_ops \<Rightarrow> 'm \<Rightarrow> nat \<Rightarrow> 'm mac_signer" where
  "mac_signer_create ops mac len = \<lparr>sg_mac = mac, truncation = min len (m_get_mac_size ops mac)\<rparr>"

text \<open>
  \<^verbatim>\<open>trunc\<close> is only assigned for the algorithms based on HMAC: with the identifier
  AUTH_KPDK\_MD5 the signer would be made with an indeterminate truncation (\<open>None\<close>).
\<close>

definition hmac_signer_create ::
  "'h hasher_ops \<Rightarrow> (hash_algorithm \<Rightarrow> 'h option) \<Rightarrow> integrity_algorithm \<Rightarrow> 'h hmac mac_signer option option" where
  "hmac_signer_create ops create_hasher algo =
     (let (hash, trunc) = hasher_algorithm_from_integrity algo
      in case hmac_create create_hasher hash of
           None \<Rightarrow> Some None
         | Some hmac \<Rightarrow> map_option (\<lambda>len. Some (mac_signer_create (hmac_ops ops) hmac len)) trunc)"


section \<open>MAC based pseudo random functions\<close>

record 'm mac_prf =
  pf_mac :: 'm

definition with_prf_mac :: "'m mac_prf \<Rightarrow> ('o, 'm) call \<Rightarrow> ('o, 'm mac_prf) call" where
  "with_prf_mac this r = map_option (\<lambda>(x, m). (x, this\<lparr>pf_mac := m\<rparr>)) r"

definition prf_get_bytes :: "'m mac_ops \<Rightarrow> 'm mac_prf \<Rightarrow> bytes \<Rightarrow> bool \<Rightarrow> (bytes, 'm mac_prf) call" where
  "prf_get_bytes ops this seed buffer = with_prf_mac this (m_get_mac ops (pf_mac this) seed buffer)"

text \<open>The result goes to a chunk of the size of the MAC.\<close>

definition prf_allocate_bytes :: "'m mac_ops \<Rightarrow> 'm mac_prf \<Rightarrow> bytes \<Rightarrow> bool \<Rightarrow> (bytes, 'm mac_prf) call" where
  "prf_allocate_bytes ops this seed chunk =
     with_prf_mac this
       (if chunk
        then and_then (m_get_mac ops (pf_mac this) seed True) (\<lambda>mac m. do {
               c \<leftarrow> store (replicate (m_get_mac_size ops (pf_mac this)) 0) 0 mac;
               Some (Some c, m)
             })
        else m_get_mac ops (pf_mac this) seed False)"

definition prf_get_block_size :: "'m mac_ops \<Rightarrow> 'm mac_prf \<Rightarrow> nat" where
  "prf_get_block_size ops this = m_get_mac_size ops (pf_mac this)"

definition prf_get_key_size :: "'m mac_ops \<Rightarrow> 'm mac_prf \<Rightarrow> nat" where
  "prf_get_key_size ops this = m_get_mac_size ops (pf_mac this)"

definition prf_set_key :: "'m mac_ops \<Rightarrow> 'm mac_prf \<Rightarrow> bytes \<Rightarrow> (unit, 'm mac_prf) call" where
  "prf_set_key ops this key = with_prf_mac this (m_set_key ops (pf_mac this) key)"

definition mac_prf_ops :: "'m mac_ops \<Rightarrow> 'm mac_prf prf_ops" where
  "mac_prf_ops ops = \<lparr>p_get_bytes = prf_get_bytes ops, p_allocate_bytes = prf_allocate_bytes ops,
     p_get_block_size = prf_get_block_size ops, p_get_key_size = prf_get_key_size ops,
     p_set_key = prf_set_key ops\<rparr>"

definition mac_prf_create :: "'m \<Rightarrow> 'm mac_prf" where
  "mac_prf_create mac = \<lparr>pf_mac = mac\<rparr>"

definition hmac_prf_create :: "(hash_algorithm \<Rightarrow> 'h option) \<Rightarrow> pseudo_random_function \<Rightarrow> 'h hmac mac_prf option" where
  "hmac_prf_create create_hasher algo =
     map_option mac_prf_create (hmac_create create_hasher (hasher_algorithm_from_prf algo))"



section \<open>Contracts\<close>

text \<open>
  \<open>made m\<close>: the object can be given a key; \<open>fed m k x\<close>: its key is \<open>k\<close> and it
  has been given the bytes \<open>x\<close> since the key was set or the last MAC was returned.
\<close>

locale mac =
  fixes ops :: "'m mac_ops" and made :: "'m \<Rightarrow> bool" and fed :: "'m \<Rightarrow> bytes \<Rightarrow> bytes \<Rightarrow> bool"
    and MAC :: "bytes \<Rightarrow> bytes \<Rightarrow> bytes" and msize call_max :: nat
  assumes fed_made: "fed m k x \<Longrightarrow> made m"
    and set_key: "made m \<Longrightarrow> length k \<le> call_max \<Longrightarrow>
      \<exists>m'. m_set_key ops m k = Some (Some (), m') \<and> fed m' k []"
    and append: "fed m k x \<Longrightarrow> length d \<le> call_max \<Longrightarrow>
      \<exists>m'. m_get_mac ops m d False = Some (Some [], m') \<and> fed m' k (x @ d)"
    and finish: "fed m k x \<Longrightarrow> length d \<le> call_max \<Longrightarrow>
      \<exists>m'. m_get_mac ops m d True = Some (Some (MAC k (x @ d)), m') \<and> fed m' k []"
    and size: "made m \<Longrightarrow> m_get_mac_size ops m = msize"
    and length_MAC: "length (MAC k d) = msize"

text \<open>
  A signature of the wrong length is refused before the data is authenticated, so that data
  given before stays pending; otherwise the verification starts afresh afterwards.
\<close>

locale signer =
  fixes ops :: "'s signer_ops" and made :: "'s \<Rightarrow> bool" and fed :: "'s \<Rightarrow> bytes \<Rightarrow> bytes \<Rightarrow> bool"
    and SIG :: "bytes \<Rightarrow> bytes \<Rightarrow> bytes" and ssize ksize call_max :: nat
  assumes fed_made: "fed s k x \<Longrightarrow> made s"
    and set_key: "made s \<Longrightarrow> length k \<le> call_max \<Longrightarrow>
      \<exists>s'. s_set_key ops s k = Some (Some (), s') \<and> fed s' k []"
    and append: "fed s k x \<Longrightarrow> length d \<le> call_max \<Longrightarrow>
      \<exists>s'. s_get_signature ops s d False = Some (Some [], s') \<and> fed s' k (x @ d)"
    and sign: "fed s k x \<Longrightarrow> length d \<le> call_max \<Longrightarrow>
      \<exists>s'. s_get_signature ops s d True = Some (Some (SIG k (x @ d)), s') \<and> fed s' k []"
    and allocate: "fed s k x \<Longrightarrow> length d \<le> call_max \<Longrightarrow>
      \<exists>s'. s_allocate_signature ops s d True = Some (Some (SIG k (x @ d)), s') \<and> fed s' k []"
    and verify: "fed s k x \<Longrightarrow> length d \<le> call_max \<Longrightarrow> length sig = ssize \<Longrightarrow>
      \<exists>s'. s_verify_signature ops s d sig = Some (if sig = SIG k (x @ d) then Some () else None, s') \<and> fed s' k []"
    and verify_length: "fed s k x \<Longrightarrow> length sig \<noteq> ssize \<Longrightarrow> s_verify_signature ops s d sig = Some (None, s)"
    and size: "made s \<Longrightarrow> s_get_block_size ops s = ssize"
    and key_size: "made s \<Longrightarrow> s_get_key_size ops s = ksize"
    and length_SIG: "length (SIG k d) = ssize"

locale keyed_prf =
  fixes ops :: "'p prf_ops" and made :: "'p \<Rightarrow> bool" and fed :: "'p \<Rightarrow> bytes \<Rightarrow> bytes \<Rightarrow> bool"
    and PRF :: "bytes \<Rightarrow> bytes \<Rightarrow> bytes" and psize call_max :: nat
  assumes fed_made: "fed p k x \<Longrightarrow> made p"
    and set_key: "made p \<Longrightarrow> length k \<le> call_max \<Longrightarrow>
      \<exists>p'. p_set_key ops p k = Some (Some (), p') \<and> fed p' k []"
    and append: "fed p k x \<Longrightarrow> length d \<le> call_max \<Longrightarrow>
      \<exists>p'. p_get_bytes ops p d False = Some (Some [], p') \<and> fed p' k (x @ d)"
    and finish: "fed p k x \<Longrightarrow> length d \<le> call_max \<Longrightarrow>
      \<exists>p'. p_get_bytes ops p d True = Some (Some (PRF k (x @ d)), p') \<and> fed p' k []"
    and allocate: "fed p k x \<Longrightarrow> length d \<le> call_max \<Longrightarrow>
      \<exists>p'. p_allocate_bytes ops p d True = Some (Some (PRF k (x @ d)), p') \<and> fed p' k []"
    and block_size: "made p \<Longrightarrow> p_get_block_size ops p = psize"
    and key_size: "made p \<Longrightarrow> p_get_key_size ops p = psize"
    and length_PRF: "length (PRF k d) = psize"


section \<open>HMAC satisfies the contract of a MAC\<close>

text \<open>RFC 2104: the key is hashed if it is longer than a block and filled with zeros.\<close>

definition hmac_key :: "(bytes \<Rightarrow> bytes) \<Rightarrow> nat \<Rightarrow> bytes \<Rightarrow> bytes" where
  "hmac_key H b k = (let k' = (if length k > b then H k else k) in k' @ replicate (b - length k') 0)"

definition hmac_opad :: "(bytes \<Rightarrow> bytes) \<Rightarrow> nat \<Rightarrow> bytes \<Rightarrow> bytes" where
  "hmac_opad H b k = map (\<lambda>x. x XOR 0x5C) (hmac_key H b k)"

definition hmac_ipad :: "(bytes \<Rightarrow> bytes) \<Rightarrow> nat \<Rightarrow> bytes \<Rightarrow> bytes" where
  "hmac_ipad H b k = map (\<lambda>x. x XOR 0x36) (hmac_key H b k)"

definition hmac :: "(bytes \<Rightarrow> bytes) \<Rightarrow> nat \<Rightarrow> bytes \<Rightarrow> bytes \<Rightarrow> bytes" where
  "hmac H b k m = H (hmac_opad H b k @ H (hmac_ipad H b k @ m))"

definition hmac_made :: "('h \<Rightarrow> bytes \<Rightarrow> bool) \<Rightarrow> nat \<Rightarrow> 'h hmac \<Rightarrow> bool" where
  "hmac_made fed b m \<longleftrightarrow> hm_b m = b \<and> (\<exists>x. fed (hm_h m) x)"

definition hmac_fed :: "('h \<Rightarrow> bytes \<Rightarrow> bool) \<Rightarrow> (bytes \<Rightarrow> bytes) \<Rightarrow> nat \<Rightarrow> 'h hmac \<Rightarrow> bytes \<Rightarrow> bytes \<Rightarrow> bool" where
  "hmac_fed fed H b m k x \<longleftrightarrow> hm_b m = b \<and> opaded_key m = Some (hmac_opad H b k) \<and>
     ipaded_key m = Some (hmac_ipad H b k) \<and> fed (hm_h m) (hmac_ipad H b k @ x)"

lemma with_h_simps [simp]: "with_h this (Some (x, h)) = Some (x, this\<lparr>hm_h := h\<rparr>)" "with_h this None = None"
  by (simp_all add: with_h_def)

locale hmac_hasher = hasher ops fed H hsize call_max
  for ops :: "'h hasher_ops" and fed H hsize call_max +
  fixes b :: nat
  assumes block: "hsize \<le> b" "b \<le> call_max"
begin

lemma length_key: "length (hmac_key H b k) = b"
  using block(1) length_H [of k] by (simp add: hmac_key_def Let_def)

lemma length_pads: "length (hmac_opad H b k) = b" "length (hmac_ipad H b k) = b"
  by (simp_all add: hmac_opad_def hmac_ipad_def length_key)

text \<open>The buffer \<^verbatim>\<open>set_key\<close> fills, with the hasher afterwards.\<close>

lemma set_key_buffer:
  assumes "fed (hm_h m) x" "hm_b m = b" "length k \<le> call_max"
  shows "\<exists>h. fed h [] \<and>
    (if length k > hm_b m
     then with_h m (and_then (h_reset ops (hm_h m)) (\<lambda>_ h. and_then (h_get_hash ops h k True) (\<lambda>digest h. do {
            buffer \<leftarrow> store (replicate (hm_b m) 0) 0 digest; Some (Some buffer, h) })))
     else do { buffer \<leftarrow> store (replicate (hm_b m) 0) 0 k; Some (Some buffer, m) }) =
    Some (Some (hmac_key H b k), m\<lparr>hm_h := if length k > b then h else hm_h m\<rparr>)"
proof (cases "length k > b")
  case True
  obtain h where h: "h_reset ops (hm_h m) = Some (Some (), h)" "fed h []" using reset [OF assms(1)] by blast
  obtain h' where "h_get_hash ops h k True = Some (Some (H k), h')" "fed h' []"
    using finish [OF h(2) assms(3)] by auto
  then show ?thesis using True h(1) block(1) length_H [of k] assms(2)
    by (auto simp: hmac_key_def)
next
  case False
  then show ?thesis using reset [OF assms(1)] assms(2) by (auto simp: hmac_key_def)
qed

lemma hmac_set_key_ok:
  assumes "hmac_made fed b m" "length k \<le> call_max"
  shows "\<exists>m'. hmac_set_key ops m k = Some (Some (), m') \<and> hmac_fed fed H b m' k []"
proof -
  obtain x where x: "fed (hm_h m) x" "hm_b m = b" using assms(1) by (auto simp: hmac_made_def)
  obtain h where h: "fed h []" and buf: "(if length k > hm_b m
     then with_h m (and_then (h_reset ops (hm_h m)) (\<lambda>_ h. and_then (h_get_hash ops h k True) (\<lambda>digest h. do {
            buffer \<leftarrow> store (replicate (hm_b m) 0) 0 digest; Some (Some buffer, h) })))
     else do { buffer \<leftarrow> store (replicate (hm_b m) 0) 0 k; Some (Some buffer, m) }) =
    Some (Some (hmac_key H b k), m\<lparr>hm_h := if length k > b then h else hm_h m\<rparr>)"
    using set_key_buffer [OF x assms(2)] by blast
  define g where "g = (if length k > b then h else hm_h m)"
  have "\<exists>y. fed g y" using h x(1) by (auto simp: g_def)
  then obtain g' where g': "h_reset ops g = Some (Some (), g')" "fed g' []" using reset by blast
  obtain g'' where "h_get_hash ops g' (hmac_ipad H b k) False = Some (Some [], g'')" "fed g'' (hmac_ipad H b k)"
    using append [OF g'(2), of "hmac_ipad H b k"] block(2) by (auto simp: length_pads)
  then have "hmac_set_key ops m k = Some (Some (), m\<lparr>hm_h := g'', ipaded_key := Some (hmac_ipad H b k),
      opaded_key := Some (hmac_opad H b k)\<rparr>)" "fed g'' (hmac_ipad H b k)"
    using g'(1) unfolding hmac_set_key_def Let_def buf
    by (simp_all add: g_def [symmetric] hmac_ipad_def hmac_opad_def)
  then show ?thesis using x(2) by (simp add: hmac_fed_def)
qed

lemma hmac_finish_ok:
  assumes "hmac_fed fed H b m k x" "length d \<le> call_max"
  shows "\<exists>m'. hmac_get_mac ops m d True = Some (Some (hmac H b k (x @ d)), m') \<and> hmac_fed fed H b m' k []"
proof -
  let ?i = "hmac_ipad H b k" and ?o = "hmac_opad H b k"
  have m: "fed (hm_h m) (?i @ x)" "opaded_key m = Some ?o" "ipaded_key m = Some ?i" "hm_b m = b"
    using assms(1) by (simp_all add: hmac_fed_def)
  obtain h1 where h1: "h_get_hash ops (hm_h m) d True = Some (Some (H (?i @ x @ d)), h1)" "fed h1 []"
    using finish [OF m(1) assms(2)] by auto
  obtain h2 where h2: "h_get_hash ops h1 ?o False = Some (Some [], h2)" "fed h2 ?o"
    using append [OF h1(2), of ?o] block(2) by (auto simp: length_pads)
  obtain h3 where h3: "h_get_hash ops h2 (H (?i @ x @ d)) True = Some (Some (hmac H b k (x @ d)), h3)" "fed h3 []"
    using finish [OF h2(2), of "H (?i @ x @ d)"] block by (auto simp: length_H hmac_def)
  obtain h4 where h4: "h_get_hash ops h3 ?i False = Some (Some [], h4)" "fed h4 ?i"
    using append [OF h3(2), of ?i] block(2) by (auto simp: length_pads)
  show ?thesis
    using m h1(1) h2(1) h3(1) h4 by (simp add: hmac_get_mac_def hmac_fed_def)
qed

lemma hmac_append_ok:
  assumes "hmac_fed fed H b m k x" "length d \<le> call_max"
  shows "\<exists>m'. hmac_get_mac ops m d False = Some (Some [], m') \<and> hmac_fed fed H b m' k (x @ d)"
proof -
  have m: "fed (hm_h m) (hmac_ipad H b k @ x)" using assms(1) by (simp add: hmac_fed_def)
  obtain h where "h_get_hash ops (hm_h m) d False = Some (Some [], h)" "fed h (hmac_ipad H b k @ x @ d)"
    using append [OF m assms(2)] by auto
  then show ?thesis using assms(1) by (simp add: hmac_get_mac_def hmac_fed_def)
qed

end

sublocale hmac_hasher < hm: mac "hmac_ops ops" "hmac_made fed b" "hmac_fed fed H b" "hmac H b" hsize call_max
proof
  show "hmac_fed fed H b m k x \<Longrightarrow> hmac_made fed b m" for m k x by (auto simp: hmac_fed_def hmac_made_def)
  show "hmac_made fed b m \<Longrightarrow> length k \<le> call_max \<Longrightarrow>
    \<exists>m'. m_set_key (hmac_ops ops) m k = Some (Some (), m') \<and> hmac_fed fed H b m' k []" for m k
    using hmac_set_key_ok by (simp add: hmac_ops_def)
  show "hmac_fed fed H b m k x \<Longrightarrow> length d \<le> call_max \<Longrightarrow>
    \<exists>m'. m_get_mac (hmac_ops ops) m d False = Some (Some [], m') \<and> hmac_fed fed H b m' k (x @ d)" for m k x d
    using hmac_append_ok by (simp add: hmac_ops_def)
  show "hmac_fed fed H b m k x \<Longrightarrow> length d \<le> call_max \<Longrightarrow>
    \<exists>m'. m_get_mac (hmac_ops ops) m d True = Some (Some (hmac H b k (x @ d)), m') \<and> hmac_fed fed H b m' k []" for m k x d
    using hmac_finish_ok by (simp add: hmac_ops_def)
  show "hmac_made fed b m \<Longrightarrow> m_get_mac_size (hmac_ops ops) m = hsize" for m
    using size by (auto simp: hmac_ops_def hmac_get_mac_size_def hmac_made_def)
  show "length (hmac H b k d) = hsize" for k d by (simp add: hmac_def length_H)
qed



section \<open>The wrappers satisfy their contracts\<close>

definition mac_signer_made :: "('m \<Rightarrow> bool) \<Rightarrow> nat \<Rightarrow> 'm mac_signer \<Rightarrow> bool" where
  "mac_signer_made made t s \<longleftrightarrow> truncation s = t \<and> made (sg_mac s)"

definition mac_signer_fed :: "('m \<Rightarrow> bytes \<Rightarrow> bytes \<Rightarrow> bool) \<Rightarrow> nat \<Rightarrow> 'm mac_signer \<Rightarrow> bytes \<Rightarrow> bytes \<Rightarrow> bool" where
  "mac_signer_fed fed t s k x \<longleftrightarrow> truncation s = t \<and> fed (sg_mac s) k x"

definition mac_prf_made :: "('m \<Rightarrow> bool) \<Rightarrow> 'm mac_prf \<Rightarrow> bool" where
  "mac_prf_made made p \<longleftrightarrow> made (pf_mac p)"

definition mac_prf_fed :: "('m \<Rightarrow> bytes \<Rightarrow> bytes \<Rightarrow> bool) \<Rightarrow> 'm mac_prf \<Rightarrow> bytes \<Rightarrow> bytes \<Rightarrow> bool" where
  "mac_prf_fed fed p k x \<longleftrightarrow> fed (pf_mac p) k x"

lemma with_mac_simps [simp]:
  "with_mac s (Some (x, m)) = Some (x, s\<lparr>sg_mac := m\<rparr>)" "with_mac s None = None"
  "with_prf_mac p (Some (x, m)) = Some (x, p\<lparr>pf_mac := m\<rparr>)" "with_prf_mac p None = None"
  by (simp_all add: with_mac_def with_prf_mac_def)

lemmas mac_signer_simps = mac_signer_ops_def mac_signer_made_def mac_signer_fed_def get_signature_def
  allocate_signature_def verify_signature_def signer_get_key_size_def signer_get_block_size_def
  signer_set_key_def

lemmas mac_prf_simps = mac_prf_ops_def mac_prf_made_def mac_prf_fed_def prf_get_bytes_def
  prf_allocate_bytes_def prf_get_block_size_def prf_get_key_size_def prf_set_key_def

locale truncated_mac = mac ops made fed MAC msize call_max
  for ops :: "'m mac_ops" and made fed MAC msize call_max +
  fixes t :: nat
  assumes truncation: "t \<le> msize"

sublocale truncated_mac < sg: signer "mac_signer_ops ops" "mac_signer_made made t" "mac_signer_fed fed t"
    "\<lambda>k m. take t (MAC k m)" t msize call_max
proof
  fix s k x d sig
  assume fed: "mac_signer_fed fed t s k x"
  then have m: "fed (sg_mac s) k x" "truncation s = t" by (simp_all add: mac_signer_fed_def)
  show "mac_signer_made made t s" using m fed_made by (simp add: mac_signer_made_def)
  show "length sig \<noteq> t \<Longrightarrow> s_verify_signature (mac_signer_ops ops) s d sig = Some (None, s)"
    using m by (simp add: mac_signer_simps)
  assume d: "length d \<le> call_max"
  obtain m' where m': "m_get_mac ops (sg_mac s) d True = Some (Some (MAC k (x @ d)), m')" "fed m' k []"
    using finish [OF m(1) d] by blast
  have len: "length (MAC k (x @ d)) = msize" by (rule length_MAC)
  show "\<exists>s'. s_get_signature (mac_signer_ops ops) s d False = Some (Some [], s') \<and> mac_signer_fed fed t s' k (x @ d)"
    using append [OF m(1) d] m(2) by (auto simp: mac_signer_simps)
  show "\<exists>s'. s_get_signature (mac_signer_ops ops) s d True = Some (Some (take t (MAC k (x @ d))), s') \<and> mac_signer_fed fed t s' k []"
    using m' m(2) len truncation by (simp add: mac_signer_simps)
  show "\<exists>s'. s_allocate_signature (mac_signer_ops ops) s d True = Some (Some (take t (MAC k (x @ d))), s') \<and> mac_signer_fed fed t s' k []"
    using m' m(2) len truncation by (simp add: mac_signer_simps)
  show "length sig = t \<Longrightarrow> \<exists>s'. s_verify_signature (mac_signer_ops ops) s d sig =
      Some (if sig = take t (MAC k (x @ d)) then Some () else None, s') \<and> mac_signer_fed fed t s' k []"
    using m' m(2) len truncation by (simp add: mac_signer_simps memeq_const_eq)
next
  show "mac_signer_made made t s \<Longrightarrow> length k \<le> call_max \<Longrightarrow>
    \<exists>s'. s_set_key (mac_signer_ops ops) s k = Some (Some (), s') \<and> mac_signer_fed fed t s' k []" for s k
    using set_key [of "sg_mac s" k] by (auto simp: mac_signer_simps)
  show "mac_signer_made made t s \<Longrightarrow> s_get_block_size (mac_signer_ops ops) s = t" for s
    by (simp add: mac_signer_simps)
  show "mac_signer_made made t s \<Longrightarrow> s_get_key_size (mac_signer_ops ops) s = msize" for s
    by (simp add: mac_signer_simps size)
  show "length (take t (MAC k d)) = t" for k d using truncation by (simp add: length_MAC)
qed

sublocale mac < pf: keyed_prf "mac_prf_ops ops" "mac_prf_made made" "mac_prf_fed fed" MAC msize call_max
proof
  fix p k x and d :: bytes
  assume fed: "mac_prf_fed fed p k x"
  then have m: "fed (pf_mac p) k x" by (simp add: mac_prf_fed_def)
  have size: "m_get_mac_size ops (pf_mac p) = msize" using size [OF fed_made [OF m]] .
  show "mac_prf_made made p" using m fed_made by (simp add: mac_prf_made_def)
  assume d: "length d \<le> call_max"
  obtain m' where m': "m_get_mac ops (pf_mac p) d True = Some (Some (MAC k (x @ d)), m')" "fed m' k []"
    using finish [OF m d] by blast
  show "\<exists>p'. p_get_bytes (mac_prf_ops ops) p d False = Some (Some [], p') \<and> mac_prf_fed fed p' k (x @ d)"
    using append [OF m d] by (auto simp: mac_prf_simps)
  show "\<exists>p'. p_get_bytes (mac_prf_ops ops) p d True = Some (Some (MAC k (x @ d)), p') \<and> mac_prf_fed fed p' k []"
    using m' by (simp add: mac_prf_simps)
  show "\<exists>p'. p_allocate_bytes (mac_prf_ops ops) p d True = Some (Some (MAC k (x @ d)), p') \<and> mac_prf_fed fed p' k []"
    using m' size length_MAC by (simp add: mac_prf_simps)
next
  show "mac_prf_made made p \<Longrightarrow> length k \<le> call_max \<Longrightarrow>
    \<exists>p'. p_set_key (mac_prf_ops ops) p k = Some (Some (), p') \<and> mac_prf_fed fed p' k []" for p k
    using set_key [of "pf_mac p" k] by (auto simp: mac_prf_simps)
  show "mac_prf_made made p \<Longrightarrow> p_get_block_size (mac_prf_ops ops) p = msize" for p
    by (simp add: mac_prf_simps size)
  show "mac_prf_made made p \<Longrightarrow> p_get_key_size (mac_prf_ops ops) p = msize" for p
    by (simp add: mac_prf_simps size)
qed (rule length_MAC)


section \<open>HMAC with SHA-1\<close>

interpretation hmac1: hmac_hasher sha1_ops sha1_fed sha1 20 "2 ^ 32 - 64" 64
  by unfold_locales simp_all

text \<open>AUTH\_HMAC\_SHA1\_96, the truncation to twelve bytes.\<close>

interpretation sig1: truncated_mac "hmac_ops sha1_ops" "hmac_made sha1_fed 64" "hmac_fed sha1_fed sha1 64" "hmac sha1 64" 20 "2 ^ 32 - 64" 12
  by unfold_locales simp

lemma hmac_create_sha1:
  "\<exists>m. hmac_create sha1_hasher_create HASH_SHA1 = Some m \<and> hmac_made sha1_fed 64 m"
  using sha1_reset_ok [of "\<lparr>sh_state = replicate 5 0, sh_count0 = 0, sh_count1 = 0, sh_buffer = replicate 64 0\<rparr>"]
  by (auto simp: hmac_create_def sha1_hasher_create_def hmac_made_def)

fun m_feed :: "'m mac_ops \<Rightarrow> 'm \<Rightarrow> bytes list \<Rightarrow> 'm option" where
  "m_feed ops m [] = Some m"
| "m_feed ops m (d # ds) =
     (case m_get_mac ops m d False of Some (Some _, m') \<Rightarrow> m_feed ops m' ds | _ \<Rightarrow> None)"

context mac
begin

lemma feed_finish:
  "fed m k x \<Longrightarrow> \<forall>d \<in> set (ds @ [d]). length d \<le> call_max \<Longrightarrow>
   \<exists>m' m''. m_feed ops m ds = Some m' \<and> m_get_mac ops m' d True = Some (Some (MAC k (x @ concat ds @ d)), m'') \<and>
     fed m'' k []"
proof (induction ds arbitrary: m x)
  case Nil
  then show ?case using finish [of m k x d] by simp
next
  case (Cons c ds)
  then obtain m' where "m_get_mac ops m c False = Some (Some [], m')" "fed m' k (x @ c)"
    using append [of m k x c] by auto
  then show ?case using Cons.IH [of m' "x @ c"] Cons.prems by simp
qed

end

text \<open>
  C35. An HMAC object made for SHA-1 returns, for every key and for data given in any pieces, the
  value of RFC 2104 with the hash of FIPS 180-4, also if the key is longer than a block, and is
  ready for the next message under the same key.
\<close>

theorem hmac_sha1_rfc2104:
  assumes "length k \<le> 2 ^ 32 - 64" "\<forall>d \<in> set (ds @ [d]). length d \<le> 2 ^ 32 - 64"
  shows "\<exists>m\<^sub>0 m m' m''. hmac_create sha1_hasher_create HASH_SHA1 = Some m\<^sub>0 \<and>
    hmac_set_key sha1_ops m\<^sub>0 k = Some (Some (), m) \<and> m_feed (hmac_ops sha1_ops) m ds = Some m' \<and>
    hmac_get_mac sha1_ops m' d True = Some (Some (hmac sha1 64 k (concat ds @ d)), m'') \<and>
    hmac_fed sha1_fed sha1 64 m'' k []"
proof -
  obtain m0 where m0: "hmac_create sha1_hasher_create HASH_SHA1 = Some m0" "hmac_made sha1_fed 64 m0"
    using hmac_create_sha1 by blast
  obtain m where m: "hmac_set_key sha1_ops m0 k = Some (Some (), m)" "hmac_fed sha1_fed sha1 64 m k []"
    using hmac1.hm.set_key [OF m0(2) assms(1)] by (auto simp: hmac_ops_def)
  show ?thesis using m0(1) m(1) hmac1.hm.feed_finish [OF m(2) assms(2)] by (auto simp: hmac_ops_def)
qed

theorem hmac_sha1_rfc2104_witness:
  "\<exists>m\<^sub>0 m m' m''. hmac_create sha1_hasher_create HASH_SHA1 = Some m\<^sub>0 \<and>
    hmac_set_key sha1_ops m\<^sub>0 (replicate 65 7) = Some (Some (), m) \<and>
    m_feed (hmac_ops sha1_ops) m [[1], [2, 3]] = Some m' \<and>
    hmac_get_mac sha1_ops m' [4] True = Some (Some (hmac sha1 64 (replicate 65 7) [1, 2, 3, 4]), m'') \<and>
    hmac_fed sha1_fed sha1 64 m'' (replicate 65 7) []"
  using hmac_sha1_rfc2104 [of "replicate 65 7" "[[1], [2, 3]]" "[4]"] by simp

end
