(* ===== verification/PrfPlus.thy ===== *)
theory PrfPlus
  imports Hmac
begin

text \<open>
  The key derivation of \<^verbatim>\<open>crypto/prf_plus.c\<close>: an unbounded stream of bytes from a
  pseudo random function and a seed, handed out in pieces of any size. The specification is the
  one of RFC 7296, section 2.13 (with a counter), and of RFC 2409, appendix B (without).
\<close>


section \<open>State and operations\<close>

record 'p prf_plus =
  pp_prf :: 'p
  pp_seed :: bytes
  pp_counter :: u8
  pp_used :: nat
  pp_buffer :: bytes

definition with_prf :: "'p prf_plus \<Rightarrow> ('o, 'p) call \<Rightarrow> ('o, 'p prf_plus) call" where
  "with_prf this r = map_option (\<lambda>(x, p). (x, this\<lparr>pp_prf := p\<rparr>)) r"

text \<open>A call of the PRF that writes to the buffer of the object.\<close>

definition prf_to_buffer :: "'p prf_ops \<Rightarrow> bytes \<Rightarrow> 'p prf_plus \<Rightarrow> (unit, 'p prf_plus) call" where
  "prf_to_buffer ops seed this =
     and_then (with_prf this (p_get_bytes ops (pp_prf this) seed True)) (\<lambda>out this. do {
       b \<leftarrow> store (pp_buffer this) 0 out;
       Some (Some (), this\<lparr>pp_buffer := b\<rparr>)
     })"

text \<open>The buffer is used up: the next block.\<close>

definition prf_plus_round :: "'p prf_ops \<Rightarrow> 'p prf_plus \<Rightarrow> (unit, 'p prf_plus) call" where
  "prf_plus_round ops this =
     and_then (with_prf this (p_get_bytes ops (pp_prf this) (pp_buffer this) False)) (\<lambda>_ this.
     and_then
       (if pp_counter this \<noteq> 0
        then and_then (with_prf this (p_get_bytes ops (pp_prf this) (pp_seed this) False)) (\<lambda>_ this.
             and_then (prf_to_buffer ops [pp_counter this] this) (\<lambda>_ this.
               Some (Some (), this\<lparr>pp_counter := pp_counter this + 1\<rparr>)))
        else prf_to_buffer ops (pp_seed this) this)
       (\<lambda>_ this. Some (Some (), this\<lparr>pp_used := 0\<rparr>)))"

text \<open>The loop of \<^verbatim>\<open>get_bytes\<close>, with the bytes written so far.\<close>

partial_function (option) prf_plus_loop ::
  "'p prf_ops \<Rightarrow> 'p prf_plus \<Rightarrow> nat \<Rightarrow> bytes \<Rightarrow> (bytes option \<times> 'p prf_plus) option" where
  "prf_plus_loop ops this len written =
     (if len = 0 then Some (Some written, this)
      else do {
        (r, this) \<leftarrow> (if length (pp_buffer this) = pp_used this then prf_plus_round ops this
                     else Some (Some (), this));
        case r of
          None \<Rightarrow> Some (None, this)
        | Some _ \<Rightarrow> do {
            let round = min len (length (pp_buffer this) - pp_used this);
            d \<leftarrow> load (pp_buffer this) (pp_used this) round;
            prf_plus_loop ops (this\<lparr>pp_used := pp_used this + round\<rparr>) (len - round) (written @ d)
          }
      })"

definition prf_plus_get_bytes :: "'p prf_ops \<Rightarrow> 'p prf_plus \<Rightarrow> nat \<Rightarrow> (bytes, 'p prf_plus) call" where
  "prf_plus_get_bytes ops this len = prf_plus_loop ops this len []"

definition prf_plus_allocate_bytes :: "'p prf_ops \<Rightarrow> 'p prf_plus \<Rightarrow> nat \<Rightarrow> (bytes, 'p prf_plus) call" where
  "prf_plus_allocate_bytes ops this len =
     (if len \<noteq> 0 then prf_plus_get_bytes ops this len else Some (Some [], this))"

text \<open>The result is \<open>None\<close> inside if the constructor returns \<^verbatim>\<open>NULL\<close>.\<close>

definition prf_plus_create :: "'p prf_ops \<Rightarrow> 'p \<Rightarrow> bool \<Rightarrow> bytes \<Rightarrow> 'p prf_plus option option" where
  "prf_plus_create ops prf counter seed =
     (let this = \<lparr>pp_prf = prf, pp_seed = seed, pp_counter = 0, pp_used = 0,
                  pp_buffer = replicate (p_get_block_size ops prf) 0\<rparr>
      in do {
        (r, this) \<leftarrow>
          (if counter
           then let this = this\<lparr>pp_counter := 1\<rparr>
                in and_then (with_prf this (p_get_bytes ops (pp_prf this) (pp_seed this) False)) (\<lambda>_ this.
                   and_then (prf_to_buffer ops [pp_counter this] this) (\<lambda>_ this.
                     Some (Some (), this\<lparr>pp_counter := pp_counter this + 1\<rparr>)))
           else prf_to_buffer ops (pp_seed this) this);
        Some (case r of None \<Rightarrow> None | Some _ \<Rightarrow> Some this)
      })"


section \<open>Specification\<close>

text \<open>
  Block \<open>n\<close>, counted from 0, is computed from the block before it, the seed and, in the
  first 255 blocks of the counter mode, the number of the block. The RFC does not define more than
  255 blocks.
\<close>

definition block_no :: "bool \<Rightarrow> nat \<Rightarrow> bytes" where
  "block_no counter n = (if counter \<and> n \<le> 255 then [of_nat n] else [])"

primrec prf_plus_T :: "(bytes \<Rightarrow> bytes) \<Rightarrow> bool \<Rightarrow> bytes \<Rightarrow> nat \<Rightarrow> bytes" where
  "prf_plus_T f counter seed 0 = f (seed @ block_no counter 1)"
| "prf_plus_T f counter seed (Suc n) = f (prf_plus_T f counter seed n @ seed @ block_no counter (n + 2))"

text \<open>The bytes \<open>i\<close> to \<open>j - 1\<close> of the blocks one after the other.\<close>

definition prf_plus_bytes :: "(bytes \<Rightarrow> bytes) \<Rightarrow> nat \<Rightarrow> bool \<Rightarrow> bytes \<Rightarrow> nat \<Rightarrow> nat \<Rightarrow> bytes" where
  "prf_plus_bytes f sz counter seed i j =
     map (\<lambda>x. prf_plus_T f counter seed (x div sz) ! (x mod sz)) [i..<j]"


section \<open>The stream\<close>

lemma with_prf_simps [simp]:
  "with_prf this (Some (x, p)) = Some (x, this\<lparr>pp_prf := p\<rparr>)" "with_prf this None = None"
  by (simp_all add: with_prf_def)

text \<open>The object when byte \<open>u\<close> of block \<open>n\<close> is the next.\<close>

definition pp_at ::
  "('p \<Rightarrow> bytes \<Rightarrow> bytes \<Rightarrow> bool) \<Rightarrow> (bytes \<Rightarrow> bytes \<Rightarrow> bytes) \<Rightarrow> bool \<Rightarrow> bytes \<Rightarrow> bytes \<Rightarrow> nat \<Rightarrow> nat \<Rightarrow> 'p prf_plus \<Rightarrow> bool" where
  "pp_at fed PRF counter k seed n u this \<longleftrightarrow> fed (pp_prf this) k [] \<and> pp_seed this = seed \<and>
     pp_buffer this = prf_plus_T (PRF k) counter seed n \<and> pp_used this = u \<and>
     pp_counter this = (if counter \<and> n + 2 \<le> 255 then of_nat (n + 2) else 0)"

lemma counter_ne_0: "n \<le> 255 \<Longrightarrow> 0 < n \<Longrightarrow> (of_nat n :: u8) \<noteq> 0"
  using word_unat_eq_iff [of "of_nat n :: u8" 0] by (simp add: unat_of_nat)

lemma counter_next: "(of_nat n :: u8) + 1 = (if n + 1 = 256 then 0 else of_nat (n + 1))"
proof (cases "n = 255")
  case True
  have "(255 :: u8) + 1 = 0" by code_simp
  then show ?thesis using True by simp
qed (simp add: add.commute)

context keyed_prf
begin

lemma length_T: "length (prf_plus_T (PRF k) counter seed n) = psize"
  by (cases n) (simp_all add: length_PRF)

lemma to_buffer_ok:
  assumes "fed (pp_prf this) k x" "length d \<le> call_max" "length (pp_buffer this) = psize"
  shows "\<exists>p. prf_to_buffer ops d this = Some (Some (), this\<lparr>pp_prf := p, pp_buffer := PRF k (x @ d)\<rparr>) \<and> fed p k []"
proof -
  obtain p where "p_get_bytes ops (pp_prf this) d True = Some (Some (PRF k (x @ d)), p)" "fed p k []"
    using finish [OF assms(1,2)] by blast
  then show ?thesis using assms(3) by (auto simp: prf_to_buffer_def length_PRF)
qed

lemma round_ok:
  assumes at: "pp_at fed PRF counter k seed n u this"
    and lim: "length seed \<le> call_max" "psize \<le> call_max" "1 \<le> call_max"
  shows "\<exists>this'. prf_plus_round ops this = Some (Some (), this') \<and> pp_at fed PRF counter k seed (Suc n) 0 this'"
proof -
  let ?T = "prf_plus_T (PRF k) counter seed"
  have a: "fed (pp_prf this) k []" "pp_seed this = seed" "pp_buffer this = ?T n"
    "pp_counter this = (if counter \<and> n + 2 \<le> 255 then of_nat (n + 2) else 0)"
    using at by (simp_all add: pp_at_def)
  obtain p where p: "p_get_bytes ops (pp_prf this) (?T n) False = Some (Some [], p)" "fed p k (?T n)"
    using append [OF a(1), of "?T n"] lim(2) by (auto simp: length_T)
  show ?thesis
  proof (cases "counter \<and> n + 2 \<le> 255")
    case True
    let ?c = "of_nat (n + 2) :: u8"
    have c: "pp_counter this = ?c" "?c \<noteq> 0" using a(4) True counter_ne_0 [of "n + 2"] by auto
    obtain q where q: "p_get_bytes ops p seed False = Some (Some [], q)" "fed q k (?T n @ seed)"
      using append [OF p(2) lim(1)] by blast
    obtain r where r: "prf_to_buffer ops [?c] (this\<lparr>pp_prf := q\<rparr>) =
        Some (Some (), this\<lparr>pp_prf := r, pp_buffer := ?T (Suc n)\<rparr>)" "fed r k []"
      using to_buffer_ok [of "this\<lparr>pp_prf := q\<rparr>" k "?T n @ seed" "[?c]"] q(2) a(3) lim(3) True
      by (auto simp: length_T block_no_def)
    show ?thesis
      using a p(1) q(1) r c True counter_next [of "n + 2"]
      by (simp add: prf_plus_round_def pp_at_def del: of_nat_add of_nat_Suc)
  next
    case False
    obtain r where r: "prf_to_buffer ops seed (this\<lparr>pp_prf := p\<rparr>) =
        Some (Some (), this\<lparr>pp_prf := r, pp_buffer := ?T (Suc n)\<rparr>)" "fed r k []"
      using to_buffer_ok [of "this\<lparr>pp_prf := p\<rparr>" k "?T n" seed] p(2) a(3) lim(1) False
      by (auto simp: length_T block_no_def)
    show ?thesis using a p(1) r False by (auto simp: prf_plus_round_def pp_at_def)
  qed
qed

text \<open>A piece inside a block.\<close>

lemma bytes_in_block:
  assumes "u + r \<le> psize" "0 < r"
  shows "take r (drop u (prf_plus_T (PRF k) counter seed n)) =
    prf_plus_bytes (PRF k) psize counter seed (n * psize + u) (n * psize + u + r)"
proof (rule nth_equalityI)
  show "length (take r (drop u (prf_plus_T (PRF k) counter seed n))) =
      length (prf_plus_bytes (PRF k) psize counter seed (n * psize + u) (n * psize + u + r))"
    using assms by (simp add: length_T prf_plus_bytes_def)
  fix i assume "i < length (take r (drop u (prf_plus_T (PRF k) counter seed n)))"
  then have "u + i < psize" "i < r" using assms by (auto simp: length_T)
  then have "(n * psize + u + i) div psize = n" "(n * psize + u + i) mod psize = u + i"
    by (simp_all add: add.assoc)
  then show "take r (drop u (prf_plus_T (PRF k) counter seed n)) ! i =
      prf_plus_bytes (PRF k) psize counter seed (n * psize + u) (n * psize + u + r) ! i"
    using \<open>i < r\<close> \<open>u + i < psize\<close> by (simp add: prf_plus_bytes_def length_T)
qed

lemma bytes_append:
  "i \<le> j \<Longrightarrow> j \<le> l \<Longrightarrow> prf_plus_bytes f sz c seed i j @ prf_plus_bytes f sz c seed j l = prf_plus_bytes f sz c seed i l"
  using upt_add_eq_append [of i j "l - j"] by (simp add: prf_plus_bytes_def flip: map_append)

lemma loop_ok:
  assumes "pp_at fed PRF counter k seed n u this" "u \<le> psize" "0 < psize"
    and "length seed \<le> call_max" "psize \<le> call_max"
  shows "\<exists>n' u' this'. prf_plus_loop ops this len w =
      Some (Some (w @ prf_plus_bytes (PRF k) psize counter seed (n * psize + u) (n * psize + u + len)), this') \<and>
    pp_at fed PRF counter k seed n' u' this' \<and> u' \<le> psize \<and> n' * psize + u' = n * psize + u + len"
  using assms(1,2)
proof (induction len arbitrary: n u this w rule: less_induct)
  case (less len)
  show ?case
  proof (cases "len = 0")
    case True
    then show ?thesis using less.prems by (subst prf_plus_loop.simps) (auto simp: prf_plus_bytes_def)
  next
    case False
    have "\<exists>n' u' this'. (if length (pp_buffer this) = pp_used this then prf_plus_round ops this else Some (Some (), this)) =
        Some (Some (), this') \<and> pp_at fed PRF counter k seed n' u' this' \<and> u' < psize \<and> n' * psize + u' = n * psize + u"
    proof (cases "u = psize")
      case True
      then show ?thesis
        using round_ok [OF less.prems(1)] less.prems(1) assms(3-5) by (fastforce simp: pp_at_def length_T)
    next
      case False
      then show ?thesis using less.prems by (auto simp: pp_at_def length_T)
    qed
    then obtain n' u' t where t: "(if length (pp_buffer this) = pp_used this then prf_plus_round ops this else Some (Some (), this)) =
        Some (Some (), t)" "pp_at fed PRF counter k seed n' u' t" "u' < psize" "n' * psize + u' = n * psize + u" by blast
    define r where "r = min len (psize - u')"
    have r: "0 < r" "r \<le> len" "u' + r \<le> psize" using False t(3) by (auto simp: r_def)
    have buf: "pp_buffer t = prf_plus_T (PRF k) counter seed n'" "pp_used t = u'" using t(2) by (simp_all add: pp_at_def)
    have step: "prf_plus_loop ops this len w = prf_plus_loop ops (t\<lparr>pp_used := u' + r\<rparr>) (len - r)
        (w @ prf_plus_bytes (PRF k) psize counter seed (n * psize + u) (n * psize + u + r))"
      using False t(1,4) r bytes_in_block [OF r(3,1), of k counter seed n'] buf
      by (subst prf_plus_loop.simps) (simp add: length_T r_def [symmetric] Let_def)
    have "pp_at fed PRF counter k seed n' (u' + r) (t\<lparr>pp_used := u' + r\<rparr>)" using t(2) by (simp add: pp_at_def)
    from less.IH [OF _ this r(3), of "len - r" "w @ prf_plus_bytes (PRF k) psize counter seed (n * psize + u) (n * psize + u + r)"]
    show ?thesis
      unfolding step using r t(4) False
        bytes_append [of "n * psize + u" "n * psize + u + r" "n * psize + u + len" "PRF k" psize counter seed]
      by (simp add: add.assoc [symmetric])
  qed
qed

lemma create_ok:
  assumes "fed p k []" "length seed \<le> call_max" "1 \<le> call_max"
  shows "\<exists>this. prf_plus_create ops p counter seed = Some (Some this) \<and> pp_at fed PRF counter k seed 0 0 this"
proof -
  have bs: "p_get_block_size ops p = psize" using block_size [OF fed_made [OF assms(1)]] .
  define t where "t = \<lparr>pp_prf = p, pp_seed = seed, pp_counter = if counter then 1 else 0, pp_used = 0, pp_buffer = replicate psize 0\<rparr>"
  show ?thesis
  proof (cases counter)
    case True
    obtain q where q: "p_get_bytes ops p seed False = Some (Some [], q)" "fed q k seed"
      using append [OF assms(1,2)] by auto
    obtain r where "prf_to_buffer ops [1] (t\<lparr>pp_prf := q\<rparr>) = Some (Some (), t\<lparr>pp_prf := r, pp_buffer := PRF k (seed @ [1])\<rparr>)" "fed r k []"
      using to_buffer_ok [of "t\<lparr>pp_prf := q\<rparr>" k seed "[1]"] q(2) assms(3) by (auto simp: t_def)
    then show ?thesis using True q(1)
      by (simp add: prf_plus_create_def bs pp_at_def block_no_def t_def)
  next
    case False
    obtain r where "prf_to_buffer ops seed t = Some (Some (), t\<lparr>pp_prf := r, pp_buffer := PRF k seed\<rparr>)" "fed r k []"
      using to_buffer_ok [of t k "[]" seed] assms by (auto simp: t_def)
    then show ?thesis using False
      by (simp add: prf_plus_create_def bs pp_at_def block_no_def t_def)
  qed
qed

end

text \<open>A sequence of requests.\<close>

fun prf_plus_reads :: "'p prf_ops \<Rightarrow> 'p prf_plus \<Rightarrow> nat list \<Rightarrow> bytes list option" where
  "prf_plus_reads ops this [] = Some []"
| "prf_plus_reads ops this (l # ls) =
     (case prf_plus_get_bytes ops this l of
        Some (Some b, this') \<Rightarrow> map_option ((#) b) (prf_plus_reads ops this' ls)
      | _ \<Rightarrow> None)"

context keyed_prf
begin

lemma reads_ok:
  assumes "pp_at fed PRF counter k seed n u this" "u \<le> psize" "0 < psize"
    and "length seed \<le> call_max" "psize \<le> call_max"
  shows "\<exists>outs. prf_plus_reads ops this ls = Some outs \<and> map length outs = ls \<and>
    concat outs = prf_plus_bytes (PRF k) psize counter seed (n * psize + u) (n * psize + u + sum_list ls)"
  using assms(1,2)
proof (induction ls arbitrary: n u this)
  case Nil
  then show ?case by (simp add: prf_plus_bytes_def)
next
  case (Cons l ls)
  let ?p = "n * psize + u"
  obtain n' u' t where t: "prf_plus_loop ops this l [] =
      Some (Some (prf_plus_bytes (PRF k) psize counter seed ?p (?p + l)), t)"
    "pp_at fed PRF counter k seed n' u' t" "u' \<le> psize" "n' * psize + u' = ?p + l"
    using loop_ok [OF Cons.prems assms(3-5), of l "[]"] by auto
  obtain outs where "prf_plus_reads ops t ls = Some outs" "map length outs = ls"
    "concat outs = prf_plus_bytes (PRF k) psize counter seed (?p + l) (?p + l + sum_list ls)"
    using Cons.IH [OF t(2,3)] t(4) by auto
  moreover have "length (prf_plus_bytes (PRF k) psize counter seed ?p (?p + l)) = l"
    by (simp add: prf_plus_bytes_def)
  ultimately show ?case
    using t(1) bytes_append [of ?p "?p + l" "?p + l + sum_list ls" "PRF k" psize counter seed]
    by (simp add: prf_plus_get_bytes_def add.assoc)
qed

end



end
