(* ===== verification/Crypter.thy ===== *)
theory Crypter
  imports IvGen Hmac
begin

text \<open>
  The interface of symmetric ciphers, \<^verbatim>\<open>crypto/crypters/crypter.h\<close>, with its contract
  as a locale, and the counter mode for IPsec of \<^verbatim>\<open>plugins/ctr/ctr_ipsec_crypter.c\<close>,
  which turns a block cipher in CBC mode into a stream cipher.
\<close>


section \<open>The interface\<close>

text \<open>
  \<open>c_encrypt this data iv alloc\<close> returns the ciphertext; the flag says whether it goes to
  allocated memory or overwrites the data. The contract leaves the decryption of an empty chunk
  open, as not every implementation copes with the \<^verbatim>\<open>NULL\<close> pointer it may have.
\<close>

record 'c crypter_ops =
  c_encrypt :: "'c \<Rightarrow> bytes \<Rightarrow> bytes \<Rightarrow> bool \<Rightarrow> (bytes, 'c) call"
  c_decrypt :: "'c \<Rightarrow> bytes \<Rightarrow> bytes \<Rightarrow> bool \<Rightarrow> (bytes, 'c) call"
  c_get_block_size :: "'c \<Rightarrow> nat"
  c_get_iv_size :: "'c \<Rightarrow> nat"
  c_get_key_size :: "'c \<Rightarrow> nat"
  c_set_key :: "'c \<Rightarrow> bytes \<Rightarrow> (unit, 'c) call"

locale crypter =
  fixes ops :: "'c crypter_ops" and made :: "'c \<Rightarrow> bool" and keyed :: "'c \<Rightarrow> bytes \<Rightarrow> bool"
    and ENC DEC :: "bytes \<Rightarrow> bytes \<Rightarrow> bytes \<Rightarrow> bytes" and bs ivs ks dmax :: nat
  assumes keyed_made: "keyed c k \<Longrightarrow> made c"
    and keyed_length: "keyed c k \<Longrightarrow> length k = ks"
    and set_key: "made c \<Longrightarrow> length k = ks \<Longrightarrow> \<exists>c'. c_set_key ops c k = Some (Some (), c') \<and> keyed c' k"
    and encrypt: "keyed c k \<Longrightarrow> length iv = ivs \<Longrightarrow> bs dvd length d \<Longrightarrow> length d \<le> dmax \<Longrightarrow>
      \<exists>c'. c_encrypt ops c d iv alloc = Some (Some (ENC k iv d), c') \<and> keyed c' k"
    and decrypt: "keyed c k \<Longrightarrow> length iv = ivs \<Longrightarrow> bs dvd length d \<Longrightarrow> length d \<le> dmax \<Longrightarrow> d \<noteq> [] \<Longrightarrow>
      \<exists>c'. c_decrypt ops c d iv alloc = Some (Some (DEC k iv d), c') \<and> keyed c' k"
    and inverse: "length k = ks \<Longrightarrow> length iv = ivs \<Longrightarrow> bs dvd length d \<Longrightarrow> DEC k iv (ENC k iv d) = d"
    and length_ENC: "length k = ks \<Longrightarrow> length iv = ivs \<Longrightarrow> bs dvd length d \<Longrightarrow> length (ENC k iv d) = length d"
    and sizes: "made c \<Longrightarrow> c_get_block_size ops c = bs" "made c \<Longrightarrow> c_get_iv_size ops c = ivs"
      "made c \<Longrightarrow> c_get_key_size ops c = ks"
    and block_size: "0 < bs"


section \<open>Counter mode\<close>

text \<open>
  The counter block is a packed struct of a nonce of four bytes, an IV of eight and a counter of
  four, here the list of its sixteen bytes.
\<close>

record 'c ctr_crypter =
  ct_crypter :: 'c
  ct_state :: bytes

definition with_crypter :: "'c ctr_crypter \<Rightarrow> ('o, 'c) call \<Rightarrow> ('o, 'c ctr_crypter) call" where
  "with_crypter this r = map_option (\<lambda>(x, c). (x, this\<lparr>ct_crypter := c\<rparr>)) r"

text \<open>
  \<^verbatim>\<open>chunk_increment\<close> adds one to a big-endian number and tells whether it wrapped;
  its loop runs from the last byte to the first.
\<close>

fun increment_loop :: "bytes \<Rightarrow> bool \<times> bytes" where
  "increment_loop [] = (True, [])"
| "increment_loop (b # bs) =
     (if b + 1 \<noteq> 0 then (False, (b + 1) # bs)
      else let (w, r) = increment_loop bs in (w, 0 # r))"

definition chunk_increment :: "bytes \<Rightarrow> bool \<times> bytes" where
  "chunk_increment chunk = (let (w, r) = increment_loop (rev chunk) in (w, rev r))"

text \<open>
  The loop of \<^verbatim>\<open>crypt_ctr\<close> on the input not yet processed, with the output it
  produces: the counter block is encrypted in place as one CBC message with a zero IV.
\<close>

function crypt_ctr_loop :: "'c crypter_ops \<Rightarrow> 'c ctr_crypter \<Rightarrow> bytes \<Rightarrow> (bytes, 'c ctr_crypter) call" where
  "crypt_ctr_loop ops this inp =
     (if inp = [] then Some (Some [], this)
      else and_then (with_crypter this (c_encrypt ops (ct_crypter this) (ct_state this)
                                          (replicate (c_get_iv_size ops (ct_crypter this)) 0) False))
             (\<lambda>block this.
               let this = this\<lparr>ct_state := snd (chunk_increment (ct_state this))\<rparr>
               in and_then (crypt_ctr_loop ops this (drop 16 inp)) (\<lambda>out this.
                    Some (Some (xor_bytes (take 16 inp) block @ out), this))))"
  by pat_completeness auto
termination by (relation "measure (\<lambda>(ops, this, inp). length inp)") auto

declare crypt_ctr_loop.simps [simp del]

definition crypt_ctr :: "'c crypter_ops \<Rightarrow> 'c ctr_crypter \<Rightarrow> bytes \<Rightarrow> (bytes, 'c ctr_crypter) call" where
  "crypt_ctr ops this inp = do {
     s \<leftarrow> store (ct_state this) 12 (htoun32 1);
     crypt_ctr_loop ops (this\<lparr>ct_state := s\<rparr>) inp
   }"

definition ctr_crypt :: "'c crypter_ops \<Rightarrow> 'c ctr_crypter \<Rightarrow> bytes \<Rightarrow> bytes \<Rightarrow> bool \<Rightarrow> (bytes, 'c ctr_crypter) call" where
  "ctr_crypt ops this inp iv out = do {
     v \<leftarrow> load iv 0 8;
     s \<leftarrow> store (ct_state this) 4 v;
     crypt_ctr ops (this\<lparr>ct_state := s\<rparr>) inp
   }"

definition ctr_get_key_size :: "'c crypter_ops \<Rightarrow> 'c ctr_crypter \<Rightarrow> nat" where
  "ctr_get_key_size ops this = c_get_key_size ops (ct_crypter this) + 4"

text \<open>A key shorter than the nonce makes the code read in front of it.\<close>

definition ctr_set_key :: "'c crypter_ops \<Rightarrow> 'c ctr_crypter \<Rightarrow> bytes \<Rightarrow> (unit, 'c ctr_crypter) call" where
  "ctr_set_key ops this key =
     (if length key < 4 then None
      else do {
        nonce \<leftarrow> load key (length key - 4) 4;
        s \<leftarrow> store (ct_state this) 0 nonce;
        with_crypter (this\<lparr>ct_state := s\<rparr>) (c_set_key ops (ct_crypter this) (take (length key - 4) key))
      })"

definition ctr_ops :: "'c crypter_ops \<Rightarrow> 'c ctr_crypter crypter_ops" where
  "ctr_ops ops = \<lparr>c_encrypt = ctr_crypt ops, c_decrypt = ctr_crypt ops, c_get_block_size = (\<lambda>this. 1),
     c_get_iv_size = (\<lambda>this. 8), c_get_key_size = ctr_get_key_size ops, c_set_key = ctr_set_key ops\<rparr>"

definition ctr_ipsec_crypter_create ::
  "(encryption_algorithm \<Rightarrow> nat \<Rightarrow> 'c option) \<Rightarrow> encryption_algorithm \<Rightarrow> nat \<Rightarrow> 'c ctr_crypter option" where
  "ctr_ipsec_crypter_create create_crypter algo key_size = do {
     algo \<leftarrow> (case algo of ENCR_AES_CTR \<Rightarrow> Some ENCR_AES_CBC | ENCR_CAMELLIA_CTR \<Rightarrow> Some ENCR_CAMELLIA_CBC
              | _ \<Rightarrow> None);
     c \<leftarrow> create_crypter algo key_size;
     Some \<lparr>ct_crypter = c, ct_state = replicate 16 0\<rparr>
   }"


section \<open>Counter mode satisfies the contract\<close>

text \<open>The key stream is the encryption of the successive counter blocks.\<close>

function ctr_xor :: "(bytes \<Rightarrow> bytes) \<Rightarrow> bytes \<Rightarrow> bytes \<Rightarrow> bytes" where
  "ctr_xor E s d =
     (if d = [] then [] else xor_bytes (take 16 d) (E s) @ ctr_xor E (snd (chunk_increment s)) (drop 16 d))"
  by pat_completeness auto
termination by (relation "measure (\<lambda>(E, s, d). length d)") auto

declare ctr_xor.simps [simp del]

lemma ctr_xor_Nil [simp]: "ctr_xor E s [] = []"
  by (simp add: ctr_xor.simps)

lemma length_ctr_xor:
  assumes "\<And>s. length s = 16 \<Longrightarrow> length (E s) = 16" "\<And>s. length s = 16 \<Longrightarrow> length (snd (chunk_increment s)) = 16"
    "length s = 16"
  shows "length (ctr_xor E s d) = length d"
  using assms(3)
proof (induction d arbitrary: s rule: length_induct)
  case (1 d)
  then show ?case
    by (cases "d = []") (simp_all add: ctr_xor.simps [of E s d] assms(1,2) min_def)
qed

lemma xor_take_cancel: "length a \<le> length b \<Longrightarrow> xor_bytes (xor_bytes a b) b = a"
proof (induction a arbitrary: b)
  case (Cons x a)
  then show ?case by (cases b) (simp_all add: xor_bytes_def xor.assoc)
qed (simp add: xor_bytes_def)

lemma ctr_xor_twice:
  assumes "\<And>s. length s = 16 \<Longrightarrow> length (E s) = 16" "\<And>s. length s = 16 \<Longrightarrow> length (snd (chunk_increment s)) = 16"
    "length s = 16"
  shows "ctr_xor E s (ctr_xor E s d) = d"
  using assms(3)
proof (induction d arbitrary: s rule: length_induct)
  case (1 d)
  show ?case
  proof (cases "d = []")
    case False
    let ?x = "xor_bytes (take 16 d) (E s)" and ?s = "snd (chunk_increment s)"
    have lx: "length ?x = min 16 (length d)" using assms(1) 1(2) by simp
    have d: "ctr_xor E s d = ?x @ ctr_xor E ?s (drop 16 d)" using False by (subst ctr_xor.simps) simp
    have ne: "?x @ ctr_xor E ?s (drop 16 d) \<noteq> []" using False lx by (cases d) (auto simp: xor_bytes_def)
    have td: "take 16 (?x @ ctr_xor E ?s (drop 16 d)) = ?x" "drop 16 (?x @ ctr_xor E ?s (drop 16 d)) = ctr_xor E ?s (drop 16 d)"
      using lx by (cases "16 \<le> length d"; simp)+
    have "ctr_xor E s (ctr_xor E s d) = xor_bytes ?x (E s) @ ctr_xor E ?s (ctr_xor E ?s (drop 16 d))"
      unfolding d by (subst ctr_xor.simps) (simp only: ne td if_False)
    moreover have "ctr_xor E ?s (ctr_xor E ?s (drop 16 d)) = drop 16 d"
      using 1 False assms(2) by (metis length_drop diff_less length_greater_0_conv zero_less_numeral)
    moreover have "xor_bytes ?x (E s) = take 16 d" using assms(1) 1(2) by (simp add: xor_take_cancel)
    ultimately show ?thesis by simp
  qed simp
qed

text \<open>
  The increment as a number, least significant byte first, and that it does not carry into the
  bytes in front of the counter before the counter is used up.
\<close>

fun le_val :: "bytes \<Rightarrow> nat" where
  "le_val [] = 0"
| "le_val (b # bs) = unat b + 256 * le_val bs"

lemma unat_u8_less: "unat (b :: u8) < 256"
proof -
  have "unat b < 2 ^ LENGTH(8)" by (rule unsigned_less)
  then show ?thesis by simp
qed

lemma unat_Suc_u8: "(b :: u8) + 1 = 0 \<longleftrightarrow> unat b = 255" "b + 1 \<noteq> 0 \<Longrightarrow> unat (b + 1) = unat b + 1"
proof -
  have u: "unat (b + 1) = (unat b + 1) mod 256" by (simp add: unat_word_ariths)
  show eq: "(b :: u8) + 1 = 0 \<longleftrightarrow> unat b = 255"
  proof
    assume "b + 1 = 0"
    then have "(unat b + 1) mod 256 = 0" using u by simp
    then show "unat b = 255" using unat_u8_less [of b] by (cases "unat b + 1 < 256") simp_all
  next
    assume "unat b = 255"
    then show "b + 1 = 0" using u by (simp add: word_unat_eq_iff)
  qed
  show "b + 1 \<noteq> 0 \<Longrightarrow> unat (b + 1) = unat b + 1"
    using eq u unat_u8_less [of b] by simp
qed

lemma increment_loop_val:
  "le_val bs + 1 < 256 ^ length bs \<Longrightarrow> \<exists>r. increment_loop bs = (False, r) \<and> length r = length bs \<and> le_val r = le_val bs + 1"
proof (induction bs)
  case (Cons b bs)
  show ?case
  proof (cases "b + 1 = 0")
    case True
    then have "le_val bs + 1 < 256 ^ length bs" using Cons.prems unat_Suc_u8(1) [of b] by simp
    then show ?thesis using Cons.IH True unat_Suc_u8(1) [of b] by auto
  next
    case False
    then show ?thesis using unat_Suc_u8(2) [of b] by simp
  qed
qed simp

lemma increment_loop_append:
  "fst (increment_loop bs) = False \<Longrightarrow> increment_loop (bs @ cs) = (False, snd (increment_loop bs) @ cs)"
  by (induction bs) (auto split: prod.splits if_splits)

lemma chunk_increment_counter:
  assumes "le_val (rev c) + 1 < 256 ^ length c"
  shows "\<exists>c'. snd (chunk_increment (p @ c)) = p @ c' \<and> length c' = length c \<and> le_val (rev c') = le_val (rev c) + 1"
proof -
  obtain r where r: "increment_loop (rev c) = (False, r)" "length r = length c" "le_val r = le_val (rev c) + 1"
    using increment_loop_val [of "rev c"] assms by auto
  then show ?thesis
    using increment_loop_append [of "rev c" "rev p"]
    by (intro exI [of _ "rev r"]) (simp add: chunk_increment_def)
qed

lemma length_increment: "length (snd (chunk_increment s)) = length s"
proof -
  have "length (snd (increment_loop s)) = length s" for s
    by (induction s) (auto split: prod.splits)
  from this [of "rev s"] show ?thesis by (cases "increment_loop (rev s)") (simp add: chunk_increment_def)
qed

lemma with_crypter_simps [simp]:
  "with_crypter this (Some (x, c)) = Some (x, this\<lparr>ct_crypter := c\<rparr>)" "with_crypter this None = None"
  by (simp_all add: with_crypter_def)

definition ctr_made :: "('c \<Rightarrow> bool) \<Rightarrow> 'c ctr_crypter \<Rightarrow> bool" where
  "ctr_made made c \<longleftrightarrow> made (ct_crypter c) \<and> length (ct_state c) = 16"

text \<open>The last four bytes of the key are the nonce.\<close>

definition ctr_keyed :: "('c \<Rightarrow> bytes \<Rightarrow> bool) \<Rightarrow> nat \<Rightarrow> 'c ctr_crypter \<Rightarrow> bytes \<Rightarrow> bool" where
  "ctr_keyed keyed ks c k \<longleftrightarrow> length k = ks + 4 \<and> keyed (ct_crypter c) (take ks k) \<and>
     length (ct_state c) = 16 \<and> take 4 (ct_state c) = drop ks k"

definition ctr_ENC :: "(bytes \<Rightarrow> bytes \<Rightarrow> bytes \<Rightarrow> bytes) \<Rightarrow> nat \<Rightarrow> nat \<Rightarrow> bytes \<Rightarrow> bytes \<Rightarrow> bytes \<Rightarrow> bytes" where
  "ctr_ENC E ivs ks k iv d = ctr_xor (E (take ks k) (replicate ivs 0)) (drop ks k @ iv @ htoun32 1) d"

text \<open>So many bytes can be encrypted before the counter wraps.\<close>

definition ctr_max :: nat where
  "ctr_max = 16 * (2 ^ 32 - 2)"

lemma counter_step:
  fixes v l m :: nat
  assumes "v * 16 + l \<le> 16 * m" "0 < l"
  shows "(v + 1) * 16 + (l - 16) \<le> 16 * m"
proof -
  from assms have "v + 1 \<le> m" by linarith
  then have "16 + v * 16 \<le> 16 * m" using mult_le_mono1 [of "v + 1" m 16] by (simp add: mult.commute)
  then show ?thesis using assms(1) by (cases "16 \<le> l") (simp_all add: algebra_simps)
qed

locale counter_mode = crypter ops made keyed ENC DEC bs ivs ks dmax
  for ops :: "'c crypter_ops" and made keyed ENC DEC bs ivs ks dmax +
  assumes block_16: "bs dvd 16" "16 \<le> dmax"
begin

lemma loop_ok:
  assumes "keyed (ct_crypter c) k" "ct_state c = p @ n" "length p = 12" "length n = 4"
    and "le_val (rev n) * 16 + length d \<le> 16 * (2 ^ 32 - 1)"
  shows "\<exists>c'. crypt_ctr_loop ops c d = Some (Some (ctr_xor (ENC k (replicate ivs 0)) (ct_state c) d), c') \<and>
    keyed (ct_crypter c') k \<and> length (ct_state c') = 16 \<and> take 12 (ct_state c') = p"
  using assms
proof (induction d arbitrary: c n rule: length_induct)
  case (1 d)
  show ?case
  proof (cases "d = []")
    case True
    then show ?thesis using 1 by (subst crypt_ctr_loop.simps) auto
  next
    case False
    have iv: "c_get_iv_size ops (ct_crypter c) = ivs" using sizes(2) [OF keyed_made [OF 1(2)]] .
    obtain x where x: "c_encrypt ops (ct_crypter c) (ct_state c) (replicate ivs 0) False =
        Some (Some (ENC k (replicate ivs 0) (ct_state c)), x)" "keyed x k"
      using encrypt [OF 1(2), of "replicate ivs 0" "ct_state c" False] block_16 1(3-5) by auto
    have "le_val (rev n) + 1 < 256 ^ length n" using 1(5,6) False by (cases d) simp_all
    then obtain n' where n': "snd (chunk_increment (p @ n)) = p @ n'" "length n' = 4"
      "le_val (rev n') = le_val (rev n) + 1" using chunk_increment_counter [of n p] 1(5) by auto
    define c1 where "c1 = c\<lparr>ct_crypter := x, ct_state := p @ n'\<rparr>"
    have "length (drop 16 d) < length d" "le_val (rev n') * 16 + length (drop 16 d) \<le> 16 * (2 ^ 32 - 1)"
      using False counter_step [OF 1(6)] n'(3) by simp_all
    moreover have "keyed (ct_crypter c1) k" "ct_state c1 = p @ n'"
      using x(2) by (simp_all add: c1_def)
    ultimately obtain c2 where c2: "crypt_ctr_loop ops c1 (drop 16 d) =
        Some (Some (ctr_xor (ENC k (replicate ivs 0)) (p @ n') (drop 16 d)), c2)"
      "keyed (ct_crypter c2) k" "length (ct_state c2) = 16" "take 12 (ct_state c2) = p"
      using 1(1,4) n'(2) by metis
    show ?thesis
      using False iv x(1) c2 n'(1) 1(3)
      by (subst crypt_ctr_loop.simps) (simp add: c1_def ctr_xor.simps [of _ "p @ n" d])
  qed
qed

lemma crypt_ok:
  assumes "ctr_keyed keyed ks c k" "length iv = 8" "length d \<le> ctr_max"
  shows "\<exists>c'. ctr_crypt ops c d iv alloc = Some (Some (ctr_ENC ENC ivs ks k iv d), c') \<and> ctr_keyed keyed ks c' k"
proof -
  have c: "keyed (ct_crypter c) (take ks k)" "length (ct_state c) = 16" "take 4 (ct_state c) = drop ks k" "length k = ks + 4"
    using assms(1) by (simp_all add: ctr_keyed_def)
  define c1 where "c1 = c\<lparr>ct_state := (drop ks k @ iv) @ htoun32 1\<rparr>"
  have "rev (htoun32 1) = [1, 0, 0, 0]" by (simp add: htoun32_def)
  then have "le_val (rev (htoun32 1)) = 1" by simp
  then obtain c2 where c2: "crypt_ctr_loop ops c1 d = Some (Some (ctr_ENC ENC ivs ks k iv d), c2)"
      "keyed (ct_crypter c2) (take ks k)" "length (ct_state c2) = 16" "take 12 (ct_state c2) = drop ks k @ iv"
    using loop_ok [of c1 "take ks k" "drop ks k @ iv" "htoun32 1" d] c assms(2,3)
    by (auto simp: c1_def ctr_ENC_def ctr_max_def)
  have "ctr_crypt ops c d iv alloc = crypt_ctr_loop ops c1 d"
    using c assms(2) by (simp add: ctr_crypt_def crypt_ctr_def c1_def)
  moreover have "take 4 (ct_state c2) = drop ks k"
    using arg_cong [OF c2(4), of "take 4"] c(4) by simp
  ultimately show ?thesis using c2 c(4) by (simp add: ctr_keyed_def)
qed

lemma set_key_ok:
  assumes "ctr_made made c" "length k = ks + 4"
  shows "\<exists>c'. ctr_set_key ops c k = Some (Some (), c') \<and> ctr_keyed keyed ks c' k"
proof -
  obtain x where "c_set_key ops (ct_crypter c) (take ks k) = Some (Some (), x)" "keyed x (take ks k)"
    using set_key [of "ct_crypter c" "take ks k"] assms by (auto simp: ctr_made_def)
  then show ?thesis using assms by (simp add: ctr_set_key_def ctr_made_def ctr_keyed_def)
qed

lemma block_lengths:
  assumes "length k = ks + 4"
  shows "length s = 16 \<Longrightarrow> length (ENC (take ks k) (replicate ivs 0) s) = 16"
  using assms length_ENC [of "take ks k" "replicate ivs 0" s] block_16 by simp

lemma ctr_crypter:
  "crypter (ctr_ops ops) (ctr_made made) (ctr_keyed keyed ks) (ctr_ENC ENC ivs ks) (ctr_ENC ENC ivs ks) 1 8 (ks + 4) ctr_max"
proof
  show "ctr_made made c" "length k = ks + 4" if "ctr_keyed keyed ks c k" for c k
    using that keyed_made by (auto simp: ctr_keyed_def ctr_made_def)
  show "ctr_ENC ENC ivs ks k iv (ctr_ENC ENC ivs ks k iv d) = d"
    if "length k = ks + 4" "length iv = 8" for k iv d
    unfolding ctr_ENC_def using that
    by (intro ctr_xor_twice block_lengths) (simp_all add: length_increment)
  show "length (ctr_ENC ENC ivs ks k iv d) = length d"
    if "length k = ks + 4" "length iv = 8" for k iv d
    unfolding ctr_ENC_def using that
    by (intro length_ctr_xor block_lengths) (simp_all add: length_increment)
  show "\<exists>c'. c_encrypt (ctr_ops ops) c d iv alloc = Some (Some (ctr_ENC ENC ivs ks k iv d), c') \<and> ctr_keyed keyed ks c' k"
    "\<exists>c'. c_decrypt (ctr_ops ops) c d iv alloc = Some (Some (ctr_ENC ENC ivs ks k iv d), c') \<and> ctr_keyed keyed ks c' k"
    if "ctr_keyed keyed ks c k" "length iv = 8" "length d \<le> ctr_max" for c k iv d alloc
    unfolding ctr_ops_def crypter_ops.simps by (rule crypt_ok [OF that])+
  show "\<exists>c'. c_set_key (ctr_ops ops) c k = Some (Some (), c') \<and> ctr_keyed keyed ks c' k"
    if "ctr_made made c" "length k = ks + 4" for c k
    unfolding ctr_ops_def crypter_ops.simps by (rule set_key_ok [OF that])
  show "c_get_block_size (ctr_ops ops) c = 1" "c_get_iv_size (ctr_ops ops) c = 8" for c
    by (simp_all add: ctr_ops_def)
  show "c_get_key_size (ctr_ops ops) c = ks + 4" if "ctr_made made c" for c
    using sizes(3) [of "ct_crypter c"] that by (simp add: ctr_ops_def ctr_get_key_size_def ctr_made_def)
  show "0 < (1 :: nat)" by (rule zero_less_one)
qed

end

sublocale counter_mode < ctr: crypter "ctr_ops ops" "ctr_made made" "ctr_keyed keyed ks"
  "ctr_ENC ENC ivs ks" "ctr_ENC ENC ivs ks" 1 8 "ks + 4" ctr_max
  by (rule ctr_crypter)

end
