(* ===== verification/Rc2.thy ===== *)
theory Rc2
  imports Crypter
begin

text \<open>
  The RC2 crypter of \<^verbatim>\<open>plugins/rc2/rc2_crypter.c\<close>: the key expansion, the block
  cipher with its mixing and mashing rounds, and the CBC mode. Decryption inverts encryption, for
  every key and in both directions of the aliasing (in place and to allocated memory).
\<close>


section \<open>The block cipher\<close>

definition RC2_BLOCK_SIZE :: nat where
  "RC2_BLOCK_SIZE = 8"

definition ROL16 :: "u16 \<Rightarrow> nat \<Rightarrow> u16" where
  "ROL16 x k = push_bit k x OR drop_bit (16 - k) x"

definition ROR16 :: "u16 \<Rightarrow> nat \<Rightarrow> u16" where
  "ROR16 x k = drop_bit k x OR push_bit (16 - k) x"

definition GET16 :: "bytes \<Rightarrow> u16" where
  "GET16 x = ucast (x ! 0) OR push_bit 8 (ucast (x ! 1))"

definition PUT16 :: "u16 \<Rightarrow> bytes" where
  "PUT16 v = [ucast v, ucast (drop_bit 8 v)]"

record rc2_crypter =
  rc_K :: "u16 list"
  rc_T :: nat
  rc_T1 :: nat

definition PITABLE :: bytes where
  "PITABLE =
    [0xd9, 0x78, 0xf9, 0xc4, 0x19, 0xdd, 0xb5, 0xed, 0x28, 0xe9, 0xfd, 0x79, 0x4a, 0xa0, 0xd8, 0x9d,
     0xc6, 0x7e, 0x37, 0x83, 0x2b, 0x76, 0x53, 0x8e, 0x62, 0x4c, 0x64, 0x88, 0x44, 0x8b, 0xfb, 0xa2,
     0x17, 0x9a, 0x59, 0xf5, 0x87, 0xb3, 0x4f, 0x13, 0x61, 0x45, 0x6d, 0x8d, 0x09, 0x81, 0x7d, 0x32,
     0xbd, 0x8f, 0x40, 0xeb, 0x86, 0xb7, 0x7b, 0x0b, 0xf0, 0x95, 0x21, 0x22, 0x5c, 0x6b, 0x4e, 0x82,
     0x54, 0xd6, 0x65, 0x93, 0xce, 0x60, 0xb2, 0x1c, 0x73, 0x56, 0xc0, 0x14, 0xa7, 0x8c, 0xf1, 0xdc,
     0x12, 0x75, 0xca, 0x1f, 0x3b, 0xbe, 0xe4, 0xd1, 0x42, 0x3d, 0xd4, 0x30, 0xa3, 0x3c, 0xb6, 0x26,
     0x6f, 0xbf, 0x0e, 0xda, 0x46, 0x69, 0x07, 0x57, 0x27, 0xf2, 0x1d, 0x9b, 0xbc, 0x94, 0x43, 0x03,
     0xf8, 0x11, 0xc7, 0xf6, 0x90, 0xef, 0x3e, 0xe7, 0x06, 0xc3, 0xd5, 0x2f, 0xc8, 0x66, 0x1e, 0xd7,
     0x08, 0xe8, 0xea, 0xde, 0x80, 0x52, 0xee, 0xf7, 0x84, 0xaa, 0x72, 0xac, 0x35, 0x4d, 0x6a, 0x2a,
     0x96, 0x1a, 0xd2, 0x71, 0x5a, 0x15, 0x49, 0x74, 0x4b, 0x9f, 0xd0, 0x5e, 0x04, 0x18, 0xa4, 0xec,
     0xc2, 0xe0, 0x41, 0x6e, 0x0f, 0x51, 0xcb, 0xcc, 0x24, 0x91, 0xaf, 0x50, 0xa1, 0xf4, 0x70, 0x39,
     0x99, 0x7c, 0x3a, 0x85, 0x23, 0xb8, 0xb4, 0x7a, 0xfc, 0x02, 0x36, 0x5b, 0x25, 0x55, 0x97, 0x31,
     0x2d, 0x5d, 0xfa, 0x98, 0xe3, 0x8a, 0x92, 0xae, 0x05, 0xdf, 0x29, 0x10, 0x67, 0x6c, 0xba, 0xc9,
     0xd3, 0x00, 0xe6, 0xcf, 0xe1, 0x9e, 0xa8, 0x2c, 0x63, 0x16, 0x01, 0x3f, 0x58, 0xe2, 0x89, 0xa9,
     0x0d, 0x38, 0x34, 0x1b, 0xab, 0x33, 0xff, 0xb0, 0xbb, 0x48, 0x0c, 0x5f, 0xb9, 0xb1, 0xcd, 0x2e,
     0xc5, 0xf3, 0xdb, 0x47, 0xe5, 0xa5, 0x9c, 0x77, 0x0a, 0xa6, 0x20, 0x68, 0xfe, 0x7f, 0xc1, 0xad]"

type_synonym rc2_regs = "u16 \<times> u16 \<times> u16 \<times> u16"

text \<open>The two kinds of rounds; \<open>j\<close> is the position of the pointer into the key.\<close>

fun rc2_mix :: "u16 list \<Rightarrow> nat \<Rightarrow> rc2_regs \<Rightarrow> rc2_regs" where
  "rc2_mix K j (r0, r1, r2, r3) =
     (let r0 = ROL16 (r0 + K ! j + (r3 AND r2) + (NOT r3 AND r1)) 1;
          r1 = ROL16 (r1 + K ! (j + 1) + (r0 AND r3) + (NOT r0 AND r2)) 2;
          r2 = ROL16 (r2 + K ! (j + 2) + (r1 AND r0) + (NOT r1 AND r3)) 3;
          r3 = ROL16 (r3 + K ! (j + 3) + (r2 AND r1) + (NOT r2 AND r0)) 5
      in (r0, r1, r2, r3))"

fun rc2_mash :: "u16 list \<Rightarrow> rc2_regs \<Rightarrow> rc2_regs" where
  "rc2_mash K (r0, r1, r2, r3) =
     (let r0 = r0 + K ! unat (r3 AND 63);
          r1 = r1 + K ! unat (r0 AND 63);
          r2 = r2 + K ! unat (r1 AND 63);
          r3 = r3 + K ! unat (r2 AND 63)
      in (r0, r1, r2, r3))"

function rc2_encrypt_rounds :: "u16 list \<Rightarrow> nat \<Rightarrow> nat \<Rightarrow> nat \<Rightarrow> rc2_regs \<Rightarrow> rc2_regs" where
  "rc2_encrypt_rounds K rounds mix j R =
     (if mix - 1 = 0
      then if rounds - 1 = 0 then rc2_mix K j R
           else rc2_encrypt_rounds K (rounds - 1) (if rounds - 1 = 2 then 6 else 5) (j + 4)
                  (rc2_mash K (rc2_mix K j R))
      else rc2_encrypt_rounds K rounds (mix - 1) (j + 4) (rc2_mix K j R))"
  by pat_completeness auto
termination by (relation "measures [\<lambda>(K, rounds, mix, j, R). rounds, \<lambda>(K, rounds, mix, j, R). mix]") auto

definition rc2_get :: "bytes \<Rightarrow> rc2_regs" where
  "rc2_get R = (GET16 R, GET16 (drop 2 R), GET16 (drop 4 R), GET16 (drop 6 R))"

fun rc2_put :: "rc2_regs \<Rightarrow> bytes" where
  "rc2_put (r0, r1, r2, r3) = PUT16 r0 @ PUT16 r1 @ PUT16 r2 @ PUT16 r3"

definition encrypt_block :: "rc2_crypter \<Rightarrow> bytes \<Rightarrow> bytes" where
  "encrypt_block this R = rc2_put (rc2_encrypt_rounds (rc_K this) 3 5 0 (rc2_get R))"

text \<open>The inverse rounds, with the pointer moving down from the last word of the key.\<close>

fun rc2_r_mix :: "u16 list \<Rightarrow> nat \<Rightarrow> rc2_regs \<Rightarrow> rc2_regs" where
  "rc2_r_mix K j (r0, r1, r2, r3) =
     (let r3 = ROR16 r3 5;
          r3 = r3 - K ! j - (r2 AND r1) - (NOT r2 AND r0);
          r2 = ROR16 r2 3;
          r2 = r2 - K ! (j - 1) - (r1 AND r0) - (NOT r1 AND r3);
          r1 = ROR16 r1 2;
          r1 = r1 - K ! (j - 2) - (r0 AND r3) - (NOT r0 AND r2);
          r0 = ROR16 r0 1;
          r0 = r0 - K ! (j - 3) - (r3 AND r2) - (NOT r3 AND r1)
      in (r0, r1, r2, r3))"

fun rc2_r_mash :: "u16 list \<Rightarrow> rc2_regs \<Rightarrow> rc2_regs" where
  "rc2_r_mash K (r0, r1, r2, r3) =
     (let r3 = r3 - K ! unat (r2 AND 63);
          r2 = r2 - K ! unat (r1 AND 63);
          r1 = r1 - K ! unat (r0 AND 63);
          r0 = r0 - K ! unat (r3 AND 63)
      in (r0, r1, r2, r3))"

function rc2_decrypt_rounds :: "u16 list \<Rightarrow> nat \<Rightarrow> nat \<Rightarrow> nat \<Rightarrow> rc2_regs \<Rightarrow> rc2_regs" where
  "rc2_decrypt_rounds K rounds mix j R =
     (if mix - 1 = 0
      then if rounds - 1 = 0 then rc2_r_mix K j R
           else rc2_decrypt_rounds K (rounds - 1) (if rounds - 1 = 2 then 6 else 5) (j - 4)
                  (rc2_r_mash K (rc2_r_mix K j R))
      else rc2_decrypt_rounds K rounds (mix - 1) (j - 4) (rc2_r_mix K j R))"
  by pat_completeness auto
termination by (relation "measures [\<lambda>(K, rounds, mix, j, R). rounds, \<lambda>(K, rounds, mix, j, R). mix]") auto

declare rc2_encrypt_rounds.simps [simp del] rc2_decrypt_rounds.simps [simp del]

definition decrypt_block :: "rc2_crypter \<Rightarrow> bytes \<Rightarrow> bytes" where
  "decrypt_block this R = rc2_put (rc2_decrypt_rounds (rc_K this) 3 5 63 (rc2_get R))"


section \<open>CBC mode\<close>

text \<open>
  The loop of \<^verbatim>\<open>encrypt\<close> on the data not yet processed: input and output advance
  together, so it does not matter whether they are the same memory. \<open>prev\<close> is the last
  block of ciphertext.
\<close>

function rc2_encrypt_loop :: "rc2_crypter \<Rightarrow> bytes \<Rightarrow> bytes \<Rightarrow> bytes" where
  "rc2_encrypt_loop this prev data =
     (if length data < 8 then []
      else let out = encrypt_block this (xor_bytes (take 8 data) prev)
           in out @ rc2_encrypt_loop this out (drop 8 data))"
  by pat_completeness auto
termination by (relation "measure (\<lambda>(this, prev, data). length data)") auto

declare rc2_encrypt_loop.simps [simp del]

definition rc2_encrypt :: "rc2_crypter \<Rightarrow> bytes \<Rightarrow> bytes \<Rightarrow> bool \<Rightarrow> (bytes, rc2_crypter) call" where
  "rc2_encrypt this data iv encrypted =
     (if length data mod RC2_BLOCK_SIZE \<noteq> 0 \<or> length iv \<noteq> RC2_BLOCK_SIZE then Some (None, this)
      else Some (Some (rc2_encrypt_loop this iv data), this))"

text \<open>
  The loop of \<^verbatim>\<open>decrypt\<close> runs from the last block to the first, here with the number of
  blocks left. The block and its predecessor are read from the input; if nothing is allocated
  that is the memory the plaintext is written to. For an empty chunk the first address is in
  front of the data, and with a \<^verbatim>\<open>NULL\<close> pointer it wraps around and the loop is
  entered: undefined.
\<close>

primrec rc2_decrypt_loop :: "rc2_crypter \<Rightarrow> bool \<Rightarrow> bytes \<Rightarrow> bytes \<Rightarrow> nat \<Rightarrow> bytes \<Rightarrow> bytes option" where
  "rc2_decrypt_loop this decrypted data iv 0 out = Some out"
| "rc2_decrypt_loop this decrypted data iv (Suc n) out = do {
     let src = (if decrypted then data else out);
     b \<leftarrow> load src (8 * n) 8;
     prev \<leftarrow> (if n = 0 then load iv 0 8 else load src (8 * (n - 1)) 8);
     out \<leftarrow> store out (8 * n) (xor_bytes (decrypt_block this b) prev);
     rc2_decrypt_loop this decrypted data iv n out
   }"

definition rc2_decrypt :: "rc2_crypter \<Rightarrow> bytes \<Rightarrow> bytes \<Rightarrow> bool \<Rightarrow> (bytes, rc2_crypter) call" where
  "rc2_decrypt this data iv decrypted =
     (if length data mod RC2_BLOCK_SIZE \<noteq> 0 \<or> length iv \<noteq> RC2_BLOCK_SIZE then Some (None, this)
      else if data = [] then None
      else do {
        let out = (if decrypted then replicate (length data) 0 else data);
        out \<leftarrow> rc2_decrypt_loop this decrypted data iv (length data div 8) out;
        Some (Some out, this)
      })"


section \<open>Keys\<close>

text \<open>
  The first loop fills \<^verbatim>\<open>L\<close> up to 128 bytes; an empty key would make it read in front
  of the array.
\<close>

primrec rc2_expand :: "nat \<Rightarrow> nat \<Rightarrow> bytes \<Rightarrow> bytes option" where
  "rc2_expand T 0 L = Some L"
| "rc2_expand T (Suc n) L =
     (if L = [] then None
      else rc2_expand T n (L @ [PITABLE ! unat (L ! (length L - 1) + L ! (length L - T))]))"

text \<open>The loop from \<^verbatim>\<open>127-T8\<close> down to 0, with the number of iterations left.\<close>

primrec rc2_reduce :: "nat \<Rightarrow> nat \<Rightarrow> bytes \<Rightarrow> bytes" where
  "rc2_reduce T8 0 L = L"
| "rc2_reduce T8 (Suc i) L = rc2_reduce T8 i (L[i := PITABLE ! unat (L ! (i + 1) XOR L ! (i + T8))])"

definition rc2_set_key :: "rc2_crypter \<Rightarrow> bytes \<Rightarrow> (unit, rc2_crypter) call" where
  "rc2_set_key this key =
     (if length key \<noteq> rc_T this then Some (None, this)
      else do {
        L \<leftarrow> rc2_expand (length key) (128 - length key) key;
        let T8 = (rc_T1 this + 7) div 8;
        let TM = (NOT (push_bit (8 - (8 * T8 - rc_T1 this)) 0xff) :: u8);
        let L = L[128 - T8 := PITABLE ! unat (L ! (128 - T8) AND TM)];
        let L = rc2_reduce T8 (128 - T8) L;
        Some (Some (), this\<lparr>rc_K := map (\<lambda>i. GET16 (drop (2 * i) L)) [0..<64]\<rparr>)
      })"

definition rc2_ops :: "rc2_crypter crypter_ops" where
  "rc2_ops = \<lparr>c_encrypt = rc2_encrypt, c_decrypt = rc2_decrypt,
     c_get_block_size = (\<lambda>this. RC2_BLOCK_SIZE), c_get_iv_size = (\<lambda>this. RC2_BLOCK_SIZE),
     c_get_key_size = rc_T, c_set_key = rc2_set_key\<rparr>"

text \<open>\<^verbatim>\<open>RC2_KEY_LEN\<close> and \<^verbatim>\<open>RC2_EFFECTIVE_KEY_LEN\<close> of the key size.\<close>

definition RC2_KEY_LEN :: "nat \<Rightarrow> nat" where
  "RC2_KEY_LEN ks = ks mod 256"

definition RC2_EFFECTIVE_KEY_LEN :: "nat \<Rightarrow> nat" where
  "RC2_EFFECTIVE_KEY_LEN ks = ks div 256"

definition rc2_crypter_create :: "encryption_algorithm \<Rightarrow> nat \<Rightarrow> rc2_crypter option" where
  "rc2_crypter_create algo key_size =
     (if algo \<noteq> ENCR_RC2_CBC then None
      else let key_size = max 1 key_size;
               effective = RC2_EFFECTIVE_KEY_LEN key_size;
               key_size = min 128 (RC2_KEY_LEN key_size);
               effective = max 1 (min 1024 (if effective \<noteq> 0 then effective else key_size * 8))
           in Some \<lparr>rc_K = replicate 64 0, rc_T = key_size, rc_T1 = effective\<rparr>)"


section \<open>Decryption inverts encryption\<close>

lemma ROR16_ROL16:
  assumes "k < 16"
  shows "ROR16 (ROL16 x k) k = x"
proof (rule bit_word_eqI)
  fix n
  assume n: "n < LENGTH(16)"
  show "bit (ROR16 (ROL16 x k) k) n = bit x n"
  proof (cases "n + k < 16")
    case True
    then show ?thesis using n assms
      by (auto simp: ROR16_def ROL16_def bit_simps add.commute dest: bit_imp_le_length)
  next
    case False
    then have "k + n - 16 + (16 - k) = n" "16 - k \<le> n" using assms by simp_all
    then show ?thesis using n assms False
      by (auto simp: ROR16_def ROL16_def bit_simps add.commute dest: bit_imp_le_length)
  qed
qed

lemma rc2_r_mix_mix: "i = j + 3 \<Longrightarrow> rc2_r_mix K i (rc2_mix K j R) = R"
  by (cases R) (simp add: Let_def ROR16_ROL16)

lemma rc2_r_mash_mash: "rc2_r_mash K (rc2_mash K R) = R"
  by (cases R) (simp add: Let_def)

lemma rc2_rounds_inverse: "rc2_decrypt_rounds K 3 5 63 (rc2_encrypt_rounds K 3 5 0 R) = R"
  by (simp add: rc2_encrypt_rounds.simps rc2_decrypt_rounds.simps rc2_r_mix_mix rc2_r_mash_mash)

lemma GET16_PUT16: "GET16 (PUT16 v @ r) = v"
  by (rule bit_word_eqI) (auto simp: GET16_def PUT16_def bit_simps)

lemma PUT16_GET16: "PUT16 (GET16 (a # b # r)) = [a, b]"
  by (auto simp: GET16_def PUT16_def bit_simps intro!: bit_word_eqI dest: bit_imp_le_length)

lemma length_PUT16 [simp]: "length (PUT16 v) = 2"
  by (simp add: PUT16_def)

lemma length_rc2_put [simp]: "length (rc2_put R) = 8"
  by (cases R) simp

lemma rc2_get_put: "rc2_get (rc2_put R) = R"
  using GET16_PUT16 [of _ "[]"] by (cases R) (simp add: rc2_get_def GET16_PUT16)

lemma rc2_put_get:
  assumes "length b = 8"
  shows "rc2_put (rc2_get b) = b"
proof -
  from assms obtain b0 b1 b2 b3 b4 b5 b6 b7 where "b = [b0, b1, b2, b3, b4, b5, b6, b7]"
    by (auto simp: numeral_eq_Suc length_Suc_conv)
  then show ?thesis by (simp add: rc2_get_def PUT16_GET16)
qed

lemma length_rc2_block [simp]: "length (encrypt_block this b) = 8" "length (decrypt_block this b) = 8"
  by (simp_all add: encrypt_block_def decrypt_block_def)

lemma decrypt_encrypt_block: "length b = 8 \<Longrightarrow> decrypt_block this (encrypt_block this b) = b"
  by (simp add: decrypt_block_def encrypt_block_def rc2_get_put rc2_rounds_inverse rc2_put_get)

text \<open>What decryption in CBC mode computes, from the first block to the last.\<close>

function rc2_cbc_dec :: "rc2_crypter \<Rightarrow> bytes \<Rightarrow> bytes \<Rightarrow> bytes" where
  "rc2_cbc_dec this prev data =
     (if length data < 8 then []
      else xor_bytes (decrypt_block this (take 8 data)) prev @ rc2_cbc_dec this (take 8 data) (drop 8 data))"
  by pat_completeness auto
termination by (relation "measure (\<lambda>(this, prev, data). length data)") auto

declare rc2_cbc_dec.simps [simp del]

lemma rc2_cbc_dec_Nil [simp]: "rc2_cbc_dec this prev [] = []"
  by (simp add: rc2_cbc_dec.simps)

lemma rc2_cbc_dec_block:
  "length b = 8 \<Longrightarrow> rc2_cbc_dec this prev (b @ d) = xor_bytes (decrypt_block this b) prev @ rc2_cbc_dec this b d"
  by (subst rc2_cbc_dec.simps) simp

lemma dvd_8_cases:
  assumes "8 dvd length (d :: bytes)" "d \<noteq> []"
  obtains b e where "d = b @ e" "length b = 8" "8 dvd length e"
proof -
  have "8 \<le> length d" using assms by (intro dvd_imp_le) auto
  then show thesis using assms(1) that [of "take 8 d" "drop 8 d"] by simp
qed

lemma rc2_cbc_inverse:
  assumes "length prev = 8" "8 dvd length d"
  shows "rc2_cbc_dec this prev (rc2_encrypt_loop this prev d) = d \<and> length (rc2_encrypt_loop this prev d) = length d"
  using assms
proof (induction d arbitrary: prev rule: length_induct)
  case (1 d)
  show ?case
  proof (cases "d = []")
    case False
    then obtain b e where d: "d = b @ e" "length b = 8" "8 dvd length e" using dvd_8_cases 1(3) by blast
    define c where "c = encrypt_block this (xor_bytes b prev)"
    have "rc2_encrypt_loop this prev d = c @ rc2_encrypt_loop this c e"
      unfolding c_def by (subst rc2_encrypt_loop.simps) (simp add: d(1,2) Let_def)
    moreover have "xor_bytes (decrypt_block this c) prev = b"
      using 1(2) d(2) by (simp add: c_def decrypt_encrypt_block xor_bytes_cancel)
    moreover have "length e < length d" "length c = 8" by (simp_all add: d(1,2) c_def)
    ultimately show ?thesis using 1(1) d(1-3) by (simp add: rc2_cbc_dec_block)
  qed (simp add: rc2_encrypt_loop.simps)
qed

lemma rc2_cbc_dec_snoc:
  assumes "8 dvd length d" "length b = 8"
  shows "rc2_cbc_dec this prev (d @ b) = rc2_cbc_dec this prev d @
    xor_bytes (decrypt_block this b) (if d = [] then prev else drop (length d - 8) d)"
  using assms(1)
proof (induction d arbitrary: prev rule: length_induct)
  case (1 d)
  show ?case
  proof (cases "d = []")
    case True
    then show ?thesis using rc2_cbc_dec_block [OF assms(2), of this prev "[]"] by simp
  next
    case False
    then obtain a e where d: "d = a @ e" "length a = 8" "8 dvd length e" using dvd_8_cases 1(2) by blast
    then have "length e < length d" by simp
    then have "rc2_cbc_dec this a (e @ b) = rc2_cbc_dec this a e @
        xor_bytes (decrypt_block this b) (if e = [] then a else drop (length e - 8) e)"
      using 1(1) d(3) by blast
    moreover have "e \<noteq> [] \<Longrightarrow> 8 \<le> length e" using d(3) by (intro dvd_imp_le) auto
    ultimately show ?thesis using d(2) by (auto simp: d(1) rc2_cbc_dec_block)
  qed
qed

lemma rc2_decrypt_loop_ok:
  assumes "8 * n \<le> length data" "length out = length data" "length iv = 8"
    and "decrypted \<or> take (8 * n) out = take (8 * n) data"
  shows "rc2_decrypt_loop this decrypted data iv n out =
    Some (rc2_cbc_dec this iv (take (8 * n) data) @ drop (8 * n) out)"
  using assms
proof (induction n arbitrary: out)
  case (Suc n)
  define src where "src = (if decrypted then data else out)"
  define b where "b = take 8 (drop (8 * n) data)"
  define prev where "prev = (if n = 0 then iv else take 8 (drop (8 * (n - 1)) data))"
  have part: "take m (drop i out) = take m (drop i data)" if "i + m \<le> 8 * Suc n" "\<not> decrypted" for i m
    using Suc.prems(4) that
    by (metis (no_types, lifting) add.commute take_drop take_take min.absorb1)
  have b: "load src (8 * n) 8 = Some b" "length b = 8"
    using Suc.prems(1,2) part [of "8 * n" 8] by (simp_all add: src_def b_def)
  have prev: "(if n = 0 then load iv 0 8 else load src (8 * (n - 1)) 8) = Some prev" "length prev = 8"
    using Suc.prems(1-3) part [of "8 * (n - 1)" 8] by (cases n; simp add: src_def prev_def)+
  define x where "x = xor_bytes (decrypt_block this b) prev"
  have x: "length x = 8" using prev(2) by (simp add: x_def)
  define out' where "out' = take (8 * n) out @ x @ drop (8 * n + 8) out"
  have out': "store out (8 * n) x = Some out'" "length out' = length data"
    using Suc.prems(1,2) x by (simp_all add: out'_def)
  have "take (8 * n) out' = take (8 * n) out" "drop (8 * n) out' = x @ drop (8 * Suc n) out"
    using Suc.prems(1,2) by (simp_all add: out'_def add.commute)
  moreover have "\<not> decrypted \<Longrightarrow> take (8 * n) out = take (8 * n) data" using part [of 0 "8 * n"] by simp
  ultimately have "rc2_decrypt_loop this decrypted data iv n out' =
      Some (rc2_cbc_dec this iv (take (8 * n) data) @ x @ drop (8 * Suc n) out)"
    using Suc.IH [of out'] Suc.prems(1,3) out'(2) by auto
  moreover have "rc2_cbc_dec this iv (take (8 * Suc n) data) = rc2_cbc_dec this iv (take (8 * n) data) @ x"
  proof -
    have "take (8 * Suc n) data = take (8 * n) data @ b"
      using take_add [of "8 * n" 8 data] by (simp add: b_def add.commute)
    moreover have "prev = (if take (8 * n) data = [] then iv else drop (length (take (8 * n) data) - 8) (take (8 * n) data))"
      using Suc.prems(1) by (cases n) (auto simp: prev_def drop_take)
    ultimately show ?thesis
      using b(2) Suc.prems(1) rc2_cbc_dec_snoc [of "take (8 * n) data" b this iv] by (simp only: x_def) simp
  qed
  ultimately show ?case
    using b(1) prev(1) out'(1)
    by (simp only: rc2_decrypt_loop.simps src_def [symmetric] Let_def bind.bind_lunit x_def [symmetric] append_assoc)
qed simp

lemma rc2_decrypt_ok:
  assumes "8 dvd length d" "length iv = 8" "d \<noteq> []"
  shows "rc2_decrypt this d iv decrypted = Some (Some (rc2_cbc_dec this iv d), this)"
proof -
  obtain n where n: "length d = 8 * n" using assms(1) by blast
  then show ?thesis
    using rc2_decrypt_loop_ok [of n d "if decrypted then replicate (length d) 0 else d" iv decrypted this] assms(2,3)
    by (simp add: rc2_decrypt_def RC2_BLOCK_SIZE_def)
qed

lemma rc2_encrypt_ok:
  assumes "8 dvd length d" "length iv = 8"
  shows "rc2_encrypt this d iv encrypted = Some (Some (rc2_encrypt_loop this iv d), this)"
  using assms by (simp add: rc2_encrypt_def RC2_BLOCK_SIZE_def)


section \<open>The contract\<close>

lemma rc2_expand_Some: "L \<noteq> [] \<Longrightarrow> \<exists>L'. rc2_expand T n L = Some L' \<and> length L' = length L + n"
proof (induction n arbitrary: L)
  case (Suc n)
  from Suc.IH [of "L @ [PITABLE ! unat (L ! (length L - 1) + L ! (length L - T))]"] Suc.prems
  show ?case by simp
qed simp

text \<open>The words that \<^verbatim>\<open>set_key\<close> computes do not depend on a key set before.\<close>

definition rc2_schedule :: "nat \<Rightarrow> nat \<Rightarrow> bytes \<Rightarrow> rc2_crypter" where
  "rc2_schedule T T1 k = snd (the (rc2_set_key \<lparr>rc_K = [], rc_T = T, rc_T1 = T1\<rparr> k))"

definition rc2_made :: "nat \<Rightarrow> nat \<Rightarrow> rc2_crypter \<Rightarrow> bool" where
  "rc2_made T T1 this \<longleftrightarrow> rc_T this = T \<and> rc_T1 this = T1 \<and> 0 < T \<and> T \<le> 128 \<and> 0 < T1 \<and> T1 \<le> 1024"

definition rc2_keyed :: "nat \<Rightarrow> nat \<Rightarrow> rc2_crypter \<Rightarrow> bytes \<Rightarrow> bool" where
  "rc2_keyed T T1 this k \<longleftrightarrow> rc2_made T T1 this \<and> length k = T \<and> this = rc2_schedule T T1 k"

lemma rc2_set_key_ok:
  assumes "rc2_made T T1 this" "length k = T"
  shows "rc2_set_key this k = Some (Some (), rc2_schedule T T1 k) \<and> rc2_keyed T T1 (rc2_schedule T T1 k) k"
proof -
  have "k \<noteq> []" using assms by (auto simp: rc2_made_def)
  then obtain L where "rc2_expand (length k) (128 - length k) k = Some L" using rc2_expand_Some by blast
  then show ?thesis using assms
    by (simp add: rc2_schedule_def rc2_set_key_def rc2_made_def rc2_keyed_def Let_def)
qed

interpretation rc2: counter_mode rc2_ops "rc2_made T T1" "rc2_keyed T T1"
  "\<lambda>k. rc2_encrypt_loop (rc2_schedule T T1 k)" "\<lambda>k. rc2_cbc_dec (rc2_schedule T T1 k)" 8 8 T "2 ^ 64"
  for T T1 :: nat
proof unfold_locales
  show "\<exists>c'. c_set_key rc2_ops c k = Some (Some (), c') \<and> rc2_keyed T T1 c' k"
    if "rc2_made T T1 c" "length k = T" for c k
    using rc2_set_key_ok [OF that] by (simp add: rc2_ops_def)
  show "rc2_cbc_dec (rc2_schedule T T1 k) iv (rc2_encrypt_loop (rc2_schedule T T1 k) iv d) = d"
    "length (rc2_encrypt_loop (rc2_schedule T T1 k) iv d) = length d"
    if "length iv = 8" "8 dvd length d" for k iv d
    using rc2_cbc_inverse [OF that] by simp_all
qed (auto simp: rc2_keyed_def rc2_ops_def rc2_encrypt_ok rc2_decrypt_ok rc2_made_def RC2_BLOCK_SIZE_def)

lemma rc2_crypter_create_made:
  assumes "rc2_crypter_create algo ks = Some c" "ks mod 256 \<noteq> 0"
  shows "rc2_made (rc_T c) (rc_T1 c) c"
  using assms by (auto simp: rc2_crypter_create_def rc2_made_def RC2_KEY_LEN_def Let_def split: if_splits)



end
