(* ===== verification/Spec2Isabelle.thy ===== *)
theory Spec2Isabelle
  imports Prelude Memory BioReader BioWriter Array Hashtable Scheduler IvGen EspContext
    Host TrafficSelector MemPool Hasher Sha1 Hmac PrfPlus Crypter Rc2
begin

text \<open>
  A verification development for strongSwan, the IPsec/IKE implementation under
  \<^verbatim>\<open>src/src\<close>.

  \<^bold>\<open>Conventions.\<close> Objects are records named after the private struct of the
  source, methods are functions on these records. A C object in memory is a list of cells.
  A result of type \<open>option\<close> is \<open>None\<close> where the C code would access memory outside
  an object, read an uninitialised cell or not terminate; theorems that a function returns
  \<open>Some\<close> therefore are memory safety and termination statements. Machine integers
  whose wrap-around can be observed are words; sizes and counters that are bounded by the
  memory they describe are naturals. Mutexes are not modelled: each method is one atomic
  step, as the source holds the lock of the object throughout. Logging is left out.
\<close>

end
